(* ===== verification/KB_Prelude.thy ===== *)
theory KB_Prelude
  imports Main "HOL-Library.Word" "HOL-Library.List_Lexorder" "HOL-Library.Sublist"
begin

text \<open>
  Shared vocabulary of the development: the machine types of the Go code (bytes, byte slices,
  64-bit revisions), the error values of \<^verbatim>\<open>pkg/storage\<close> and of the packages that use it, and the
  facts about lists, words and byte order the component theories share.

  Byte slices are lists of 8-bit words. \<^verbatim>\<open>bytes.Compare\<close> is the lexicographic order that
  \<^verbatim>\<open>HOL-Library.List_Lexorder\<close> puts on lists of linearly ordered elements, so
  \<open>bytes.Compare(a, b) < 0\<close> reads \<open>a < b\<close> here.
\<close>

section \<open>Machine types\<close>

type_synonym byte = "8 word"
type_synonym bytes = "byte list"
type_synonym rev = "64 word"
type_synonym kvpair = "bytes \<times> bytes"
type_synonym kvmap = "bytes \<Rightarrow> bytes option"

text \<open>\<^verbatim>\<open>math.MaxUint64\<close>.\<close>

definition MaxUint64 :: rev where
  "MaxUint64 = - 1"

text \<open>A Go string literal as the bytes of its characters.\<close>

definition bytes_of_string :: "string \<Rightarrow> bytes" where
  "bytes_of_string s = map (\<lambda>c. of_char c) s"

text \<open>\<^verbatim>\<open>bytes.Contains(b, sub)\<close>: some suffix of \<open>b\<close> starts with \<open>sub\<close>.\<close>

definition bytes_contains :: "bytes \<Rightarrow> bytes \<Rightarrow> bool" where
  "bytes_contains b sub \<longleftrightarrow> list_ex (\<lambda>s. prefix sub s) (suffixes b)"

section \<open>Error values\<close>

text \<open>
  The sentinels of \<^verbatim>\<open>pkg/storage/interface.go\<close>, \<^verbatim>\<open>pkg/storage/errors.go\<close>,
  \<^verbatim>\<open>pkg/backend/coder/rev.go\<close> and \<^verbatim>\<open>pkg/backend/backend.go\<close>, \<^verbatim>\<open>io.EOF\<close>, and the two structured
  errors: \<open>ErrUncertain e\<close> is \<^verbatim>\<open>&errUncertainResult{originErr: e}\<close> and \<open>Conflict i k v\<close> is
  \<^verbatim>\<open>&Conflict{Idx: i, Key: k, Val: v}\<close> (\<open>None\<close> for a nil \<^verbatim>\<open>Val\<close>). \<open>Wrapped\<close> is an error that
  \<^verbatim>\<open>errors.Wrap\<close> put a message on; \<open>OtherErr\<close> is any other error, by its message.
\<close>

datatype error =
    ErrUnsupported
  | ErrKeyNotFound
  | ErrKeyDuplicated
  | ErrCASFailed
  | ErrUnexpectedRet
  | ErrUnavailable
  | ErrUncertainResult
  | ErrInvalidRevFormat
  | ErrRevisionDriftBack
  | EOF
  | ErrUncertain error
  | Conflict nat bytes "bytes option"
  | Wrapped string error
  | OtherErr string

text \<open>
  \<^verbatim>\<open>errors.Is\<close>: identity first, then the error's own \<^verbatim>\<open>Is\<close> method
  (\<^verbatim>\<open>errUncertainResult.Is\<close>, \<^verbatim>\<open>Conflict.Is\<close>), then the chain of wrapped errors.
\<close>

fun errors_is :: "error \<Rightarrow> error \<Rightarrow> bool" where
  "errors_is (ErrUncertain e) t \<longleftrightarrow> ErrUncertain e = t \<or> t = ErrUncertainResult \<or> errors_is e t"
| "errors_is (Conflict i k v) t \<longleftrightarrow> Conflict i k v = t \<or> t = ErrCASFailed"
| "errors_is (Wrapped m e) t \<longleftrightarrow> Wrapped m e = t \<or> errors_is e t"
| "errors_is e t \<longleftrightarrow> e = t"

section \<open>Lexicographic order on byte strings\<close>

lemma append_less_cancel [simp]: "p @ (xs :: 'a :: linorder list) < p @ ys \<longleftrightarrow> xs < ys"
  by (induction p) auto

lemma append_le_cancel [simp]: "p @ (xs :: 'a :: linorder list) \<le> p @ ys \<longleftrightarrow> xs \<le> ys"
  by (auto simp: less_le_not_le[symmetric] linorder_not_less[symmetric])

lemma less_nonempty: "xs < (ys :: 'a :: linorder list) \<Longrightarrow> ys \<noteq> []"
  by auto

text \<open>
  A separator smaller than every byte of two strings makes the order of the joined strings the
  lexicographic product: this is what keeps the versions of one key contiguous.
\<close>

lemma separator_less_iff:
  fixes c :: "'a :: linorder"
  assumes "\<forall>b \<in> set k1. c < b" "\<forall>b \<in> set k2. c < b"
  shows "k1 @ c # s1 < k2 @ c # s2 \<longleftrightarrow> k1 < k2 \<or> (k1 = k2 \<and> s1 < s2)"
  using assms
proof (induction k1 arbitrary: k2)
  case Nil
  then show ?case by (cases k2) auto
next
  case (Cons a k1)
  then show ?case by (cases k2) auto
qed

section \<open>Big-endian values\<close>

definition be_nat :: "bytes \<Rightarrow> nat" where
  "be_nat bs = foldl (\<lambda>a b. a * 256 + unat b) 0 bs"

lemma be_nat_Nil [simp]: "be_nat [] = 0"
  by (simp add: be_nat_def)

lemma be_nat_snoc [simp]: "be_nat (bs @ [b]) = be_nat bs * 256 + unat b"
  by (simp add: be_nat_def)

lemma unat_byte_less [simp]: "unat (b :: byte) < 256"
  using unsigned_less[of b, where ?'a = nat] by simp

lemma be_nat_bound: "be_nat bs < 256 ^ length bs"
proof (induction bs rule: rev_induct)
  case (snoc b bs)
  have "be_nat bs * 256 + unat b < (be_nat bs + 1) * 256" by simp
  also have "\<dots> \<le> 256 ^ length bs * 256" using snoc by (simp add: Suc_le_eq)
  finally show ?case by simp
qed simp

lemma foldl_be: "foldl (\<lambda>a b. a * 256 + unat b) a (bs :: bytes) = a * 256 ^ length bs + be_nat bs"
  by (induction bs arbitrary: a rule: rev_induct) (auto simp: algebra_simps)

lemma be_nat_Cons: "be_nat (b # bs) = unat b * 256 ^ length bs + be_nat bs"
  using foldl_be[of "unat b" bs] by (simp add: be_nat_def)

text \<open>On strings of one length the lexicographic order is the order of the big-endian values.\<close>

lemma be_nat_less_iff:
  "length xs = length ys \<Longrightarrow> xs < ys \<longleftrightarrow> be_nat xs < be_nat ys"
proof (induction xs arbitrary: ys)
  case (Cons x xs)
  then obtain y ys' where ys: "ys = y # ys'" and len: "length xs = length ys'"
    by (cases ys) auto
  have *: "unat a * 256 ^ length ys' + be_nat as < unat b * 256 ^ length ys' + be_nat bs"
    if "unat a < unat b" "length as = length ys'" for a b :: byte and as bs
  proof -
    have "unat a * 256 ^ length ys' + be_nat as < (unat a + 1) * 256 ^ length ys'"
      using be_nat_bound[of as] that by simp
    also have "\<dots> \<le> unat b * 256 ^ length ys'" using that by (intro mult_le_mono1) simp
    finally show ?thesis by simp
  qed
  show ?case
  proof (cases "unat x" "unat y" rule: linorder_cases)
    case less
    then show ?thesis using * [OF less, of xs ys'] len
      by (simp add: ys be_nat_Cons word_less_nat_alt)
  next
    case equal
    then have "x = y" by (simp add: word_unat_eq_iff)
    then show ?thesis using Cons.IH[OF len] len by (simp add: ys be_nat_Cons)
  next
    case greater
    then show ?thesis using * [OF greater, of ys' xs] len
      by (auto simp: ys be_nat_Cons word_less_nat_alt)
  qed
qed simp

lemma be_nat_inject:
  assumes "length xs = length ys" "be_nat xs = be_nat ys"
  shows "xs = ys"
  using assms be_nat_less_iff[of xs ys] be_nat_less_iff[of ys xs] by (metis linorder_neqE nless_le)


lemma sorted_wrt_concat: "sorted_wrt P (concat xss) \<Longrightarrow> xs \<in> set xss \<Longrightarrow> sorted_wrt P xs"
  by (induction xss) (auto simp: sorted_wrt_append)

end
