(* ===== verification/Coder.thy ===== *)
theory Coder
  imports KB_Prelude
begin

text \<open>
  \<^verbatim>\<open>pkg/backend/coder\<close>: the translation between user keys and the internal keys of the storage
  engine, the revision values stored under revision keys, and the byte helpers of
  \<^verbatim>\<open>pkg/backend/util.go\<close> that build on them (\<^verbatim>\<open>uint64ToBytes\<close>, \<^verbatim>\<open>PrefixEnd\<close>).

  A run-time panic (an index or slice expression out of range) is the value \<open>None\<close> of an
  \<open>option\<close>; an error return is \<open>Inl\<close>.
\<close>

section \<open>Big-endian revisions\<close>

text \<open>\<^verbatim>\<open>binary.BigEndian.PutUint64\<close> into a fresh buffer of eight bytes.\<close>

definition uint64ToBytes :: "rev \<Rightarrow> bytes" where
  "uint64ToBytes n =
     [ucast (drop_bit 56 n), ucast (drop_bit 48 n), ucast (drop_bit 40 n), ucast (drop_bit 32 n),
      ucast (drop_bit 24 n), ucast (drop_bit 16 n), ucast (drop_bit 8 n), ucast n]"

text \<open>\<^verbatim>\<open>binary.BigEndian.Uint64\<close>: reads the first eight bytes and panics on a shorter slice.\<close>

definition Uint64 :: "bytes \<Rightarrow> rev option" where
  "Uint64 b = (if length b < 8 then None
               else Some (foldl (\<lambda>a x. a * 256 + ucast x) 0 (take 8 b)))"

lemma length_uint64ToBytes [simp]: "length (uint64ToBytes n) = 8"
  by (simp add: uint64ToBytes_def)

lemma unat_byte_of:
  "unat (ucast (drop_bit k (n :: rev)) :: byte) = unat n div 2 ^ k mod 256"
proof -
  have "unat (drop_bit k n) = unat n div 2 ^ k"
    by (subst unat_drop_bit_eq) (rule drop_bit_eq_div)
  then show ?thesis
    by (simp only: unsigned_ucast_eq take_bit_eq_mod) simp
qed

lemma be_nat_uint64ToBytes [simp]: "be_nat (uint64ToBytes n) = unat n"
proof -
  have *: "unat (ucast n :: byte) = unat n mod 256"
    using unat_byte_of[of 0 n] by simp
  have step: "unat n div (a * 256) * 256 + unat n div a mod 256 = unat n div a" for a
    by (simp add: div_mult2_eq)
  have "unat n < 2 ^ 64" using unsigned_less[of n, where ?'a = nat] by simp
  then have "unat n div 2 ^ 56 mod 256 = unat n div 2 ^ 56" by simp
  then show ?thesis
    using step[of 1] step[of "2 ^ 8"] step[of "2 ^ 16"] step[of "2 ^ 24"] step[of "2 ^ 32"]
      step[of "2 ^ 40"] step[of "2 ^ 48"]
    by (simp add: uint64ToBytes_def be_nat_def unat_byte_of * )
qed

lemma be_word_foldl:
  "foldl (\<lambda>a x. a * 256 + ucast x) 0 (bs :: bytes) = (word_of_nat (be_nat bs) :: rev)"
  by (induction bs rule: rev_induct) (auto simp: of_nat_unat)

lemma Uint64_eq: "8 \<le> length b \<Longrightarrow> Uint64 b = Some (word_of_nat (be_nat (take 8 b)))"
  by (simp add: Uint64_def be_word_foldl)

lemma Uint64_uint64ToBytes [simp]: "Uint64 (uint64ToBytes n @ bs) = Some n"
  by (simp add: Uint64_eq)

lemma uint64ToBytes_less_iff [simp]: "uint64ToBytes a < uint64ToBytes b \<longleftrightarrow> a < b"
  by (simp add: be_nat_less_iff word_less_nat_alt)

lemma uint64ToBytes_inject [simp]: "uint64ToBytes a = uint64ToBytes b \<longleftrightarrow> a = b"
  by (metis be_nat_uint64ToBytes word_unat_eq_iff)

lemma uint64ToBytes_Uint64:
  assumes "length b = 8" "Uint64 b = Some n"
  shows "uint64ToBytes n = b"
proof -
  have "n = word_of_nat (be_nat b)" using assms by (simp add: Uint64_eq)
  moreover have "be_nat b < 2 ^ 64" using be_nat_bound[of b] assms(1) by simp
  ultimately have "unat n = be_nat b" by (simp add: unat_of_nat)
  then show ?thesis using assms(1) by (intro be_nat_inject) auto
qed

section \<open>Internal keys\<close>

definition magicBytes :: bytes where
  "magicBytes = [0x57, 0xfb, 0x80, 0x8b]"

definition splitByte :: byte where
  "splitByte = 0x24"

text \<open>\<^verbatim>\<open>{magic}{raw_key}{split}{revision}\<close>: the four \<^verbatim>\<open>copy\<close>/\<^verbatim>\<open>PutUint64\<close> calls fill one buffer.\<close>

definition EncodeObjectKey :: "bytes \<Rightarrow> rev \<Rightarrow> bytes" where
  "EncodeObjectKey userKey revision =
     magicBytes @ userKey @ [splitByte] @ uint64ToBytes revision"

definition EncodeRevisionKey :: "bytes \<Rightarrow> bytes" where
  "EncodeRevisionKey key = EncodeObjectKey key 0"

definition magicErr :: error where
  "magicErr = OtherErr ''magic number not right for object key''"

definition splitErr :: error where
  "splitErr = OtherErr ''split byte not right for object key''"

text \<open>
  \<^verbatim>\<open>Decode\<close>, with the four slice and index expressions of the source checked in their order:
  \<^verbatim>\<open>internalKey[:4]\<close>, \<^verbatim>\<open>internalKey[len-9]\<close>, \<^verbatim>\<open>internalKey[len-8:]\<close> and
  \<^verbatim>\<open>internalKey[4 : len-9]\<close>.
\<close>

definition Decode :: "bytes \<Rightarrow> (error + bytes \<times> rev) option" where
  "Decode internalKey =
     (let n = length internalKey in
      if n < length magicBytes then None
      else if take (length magicBytes) internalKey \<noteq> magicBytes then Some (Inl magicErr)
      else if n < 9 then None
      else if internalKey ! (n - 9) \<noteq> splitByte then Some (Inl splitErr)
      else case Uint64 (drop (n - 8) internalKey) of
             None \<Rightarrow> None
           | Some revision \<Rightarrow>
               if n - 9 < length magicBytes then None
               else Some (Inr (take (n - 9 - length magicBytes)
                                 (drop (length magicBytes) internalKey), revision)))"

text \<open>\<^verbatim>\<open>ParseRevision\<close>: eight bytes are a live revision, nine bytes one with the deletion flag.\<close>

definition ParseRevision :: "bytes \<Rightarrow> error + rev \<times> bool" where
  "ParseRevision revisionBytes =
     (if length revisionBytes = 8
      then (case Uint64 revisionBytes of Some r \<Rightarrow> Inr (r, False) | None \<Rightarrow> Inl ErrInvalidRevFormat)
      else if length revisionBytes = 9
      then (case Uint64 (take 8 revisionBytes) of
              Some r \<Rightarrow> Inr (r, True) | None \<Rightarrow> Inl ErrInvalidRevFormat)
      else Inl ErrInvalidRevFormat)"

lemma length_magicBytes [simp]: "length magicBytes = 4"
  by (simp add: magicBytes_def)

lemma length_EncodeObjectKey [simp]: "length (EncodeObjectKey k r) = 13 + length k"
  by (simp add: EncodeObjectKey_def)

lemma EncodeObjectKey_nonempty: "EncodeObjectKey k r \<noteq> []"
  by (metis add_is_0 length_EncodeObjectKey list.size(3) zero_neq_numeral)

lemma EncodeObjectKey_inject [simp]:
  "EncodeObjectKey k r = EncodeObjectKey k' r' \<longleftrightarrow> k = k' \<and> r = r'"
  by (auto simp: EncodeObjectKey_def append_eq_append_conv)

text \<open>The decoder returns what the encoder put in, for every user key and revision.\<close>

lemma Decode_EncodeObjectKey [simp]: "Decode (EncodeObjectKey k r) = Some (Inr (k, r))"
proof -
  let ?k = "EncodeObjectKey k r"
  have "?k = (magicBytes @ k) @ splitByte # uint64ToBytes r"
    by (simp add: EncodeObjectKey_def)
  then have split: "?k ! (4 + length k) = splitByte"
    by (metis add.commute length_append length_magicBytes nth_append_length)
  have rev: "drop (5 + length k) ?k = uint64ToBytes r @ []"
    and key: "take (length k) (drop 4 ?k) = k" and magic: "take 4 ?k = magicBytes"
    by (simp_all add: EncodeObjectKey_def)
  have "length ?k - 9 = 4 + length k" "length ?k - 8 = 5 + length k" by simp_all
  then show ?thesis
    using split key magic unfolding Decode_def Let_def
    by (simp add: rev del: append_Nil2)
qed

text \<open>Nothing else decodes: a successful \<open>Decode\<close> was given an encoded key.\<close>

lemma Decode_SomeInr:
  assumes "Decode ik = Some (Inr (k, r))"
  shows "ik = EncodeObjectKey k r"
proof -
  let ?n = "length ik"
  have n: "13 \<le> ?n" and m: "take 4 ik = magicBytes" and s: "ik ! (?n - 9) = splitByte"
    and u: "Uint64 (drop (?n - 8) ik) = Some r" and k: "k = take (?n - 13) (drop 4 ik)"
    using assms by (auto simp: Decode_def Let_def split: if_splits option.splits)
  have "uint64ToBytes r = drop (?n - 8) ik"
    using u n by (intro uint64ToBytes_Uint64) auto
  moreover have "drop (?n - 9) ik = splitByte # drop (?n - 8) ik"
    using Cons_nth_drop_Suc[of "?n - 9" ik] s n Suc_diff_Suc[of 8 ?n] by simp
  moreover have "drop 4 ik = k @ drop (?n - 9) ik"
    using append_take_drop_id[of "?n - 13" "drop 4 ik"] n k by simp
  ultimately show ?thesis
    using append_take_drop_id[of 4 ik] m by (simp add: EncodeObjectKey_def)
qed

text \<open>
  \<^verbatim>\<open>Decode\<close> fails by a run-time panic on exactly the strings that are too short for its slice
  expressions and pass the checks before them.
\<close>

lemma Decode_panics_iff:
  "Decode ik = None \<longleftrightarrow> length ik < 4 \<or> (length ik < 9 \<and> take 4 ik = magicBytes)"
proof (cases "9 \<le> length ik \<and> take 4 ik = magicBytes \<and> ik ! (length ik - 9) = splitByte")
  case True
  have "13 \<le> length ik"
  proof (rule ccontr)
    assume "\<not> 13 \<le> length ik"
    then have "length ik - 9 < 4" by simp
    moreover have "ik ! (length ik - 9) = take 4 ik ! (length ik - 9)"
      using calculation by simp
    ultimately have "splitByte \<in> set magicBytes" using True
      by (metis length_magicBytes nth_mem)
    then show False by (simp add: magicBytes_def splitByte_def)
  qed
  then show ?thesis using True by (auto simp: Decode_def Let_def Uint64_def)
next
  case False
  then show ?thesis by (auto simp: Decode_def Let_def)
qed

lemma ParseRevision_live [simp]: "ParseRevision (uint64ToBytes r) = Inr (r, False)"
  using Uint64_uint64ToBytes[of r "[]"] by (simp add: ParseRevision_def del: Uint64_uint64ToBytes)

lemma ParseRevision_deleted [simp]: "ParseRevision (uint64ToBytes r @ [b]) = Inr (r, True)"
  using Uint64_uint64ToBytes[of r "[]"] by (simp add: ParseRevision_def del: Uint64_uint64ToBytes)

section \<open>Order of internal keys\<close>

text \<open>
  The comment on \<^verbatim>\<open>splitKey\<close> in \<^verbatim>\<open>normal.go\<close>: every byte of a user key is greater than the split
  byte. \<open>wf_key\<close> is that condition.
\<close>

definition wf_key :: "bytes \<Rightarrow> bool" where
  "wf_key k \<longleftrightarrow> (\<forall>b \<in> set k. splitByte < b)"

lemma EncodeObjectKey_less_iff:
  assumes "wf_key k" "wf_key k'"
  shows "EncodeObjectKey k r < EncodeObjectKey k' r' \<longleftrightarrow> k < k' \<or> (k = k' \<and> r < r')"
  using assms separator_less_iff[of k splitByte k' "uint64ToBytes r" "uint64ToBytes r'"]
  by (simp add: EncodeObjectKey_def wf_key_def)

lemma EncodeObjectKey_le_iff:
  assumes "wf_key k" "wf_key k'"
  shows "EncodeObjectKey k r \<le> EncodeObjectKey k' r' \<longleftrightarrow> k < k' \<or> (k = k' \<and> r \<le> r')"
  using EncodeObjectKey_less_iff[OF assms(2,1), of r' r] by (auto simp: not_less[symmetric])

section \<open>The end of a prefix range\<close>

definition noPrefixEnd :: bytes where
  "noPrefixEnd = [0]"

text \<open>
  The loop of \<^verbatim>\<open>PrefixEnd\<close> from the last index down: \<open>prefixEndLoop end i\<close> looks at index
  \<open>i - 1\<close>; \<open>0\<close> is the loop's exit.
\<close>

fun prefixEndLoop :: "bytes \<Rightarrow> nat \<Rightarrow> bytes" where
  "prefixEndLoop e 0 = noPrefixEnd"
| "prefixEndLoop e (Suc i) =
     (if e ! i < 0xff then take (i + 1) (e[i := e ! i + 1]) else prefixEndLoop e i)"

definition PrefixEnd :: "bytes \<Rightarrow> bytes" where
  "PrefixEnd p = prefixEndLoop p (length p)"

lemma byte_less_ff: "(b :: byte) < 0xff \<longleftrightarrow> b \<noteq> 0xff"
proof -
  have ff: "unat (0xff :: byte) = 255" by simp
  show ?thesis unfolding word_less_nat_alt word_unat_eq_iff ff using unat_byte_less[of b] by linarith
qed

lemma byte_less_succ: "b \<noteq> 0xff \<Longrightarrow> c < b + 1 \<longleftrightarrow> c \<le> (b :: byte)"
proof -
  assume "b \<noteq> 0xff"
  then have "unat b < 255" by (simp add: byte_less_ff[symmetric] word_less_nat_alt)
  then have "unat (b + 1) = unat b + 1" by (simp add: unat_word_ariths)
  then show ?thesis by (simp add: word_less_nat_alt word_le_nat_alt less_Suc_eq_le)
qed

lemma prefixEndLoop_ff:
  "i + n \<le> length e \<Longrightarrow> (\<forall>j. i \<le> j \<and> j < i + n \<longrightarrow> e ! j = 0xff) \<Longrightarrow>
     prefixEndLoop e (i + n) = prefixEndLoop e i"
proof (induction n)
  case (Suc n)
  then have "e ! (i + n) = 0xff" by simp
  then show ?case using Suc by simp
qed simp

lemma PrefixEnd_eq:
  assumes "b \<noteq> 0xff"
  shows "PrefixEnd (a @ b # replicate n 0xff) = a @ [b + 1]"
proof -
  let ?p = "a @ b # replicate n 0xff"
  have "b < 0xff" using assms by (simp add: byte_less_ff)
  moreover have "prefixEndLoop ?p (Suc (length a) + n) = prefixEndLoop ?p (Suc (length a))"
    by (rule prefixEndLoop_ff) (auto simp: nth_append nth_Cons split: nat.splits)
  ultimately show ?thesis by (simp add: PrefixEnd_def)
qed

lemma not_all_ff_split:
  assumes "\<exists>b \<in> set (p :: bytes). b \<noteq> 0xff"
  obtains a b n where "p = a @ b # replicate n 0xff" "b \<noteq> 0xff"
proof -
  obtain a b c where "p = a @ b # c" "b \<noteq> 0xff" "\<forall>x \<in> set c. \<not> x \<noteq> 0xff"
    using split_list_last_prop[OF assms] by blast
  moreover from this have "c = replicate (length c) 0xff"
    by (intro replicate_eqI) auto
  ultimately show thesis using that by metis
qed

lemma between_append:
  fixes x :: "'a :: linorder list"
  assumes "a @ x \<le> k" "k < a @ y"
  shows "\<exists>k'. k = a @ k' \<and> x \<le> k' \<and> k' < y"
  using assms
proof (induction a arbitrary: k)
  case (Cons c a)
  then obtain d k1 where k: "k = d # k1" by (cases k) auto
  then have "d = c" "a @ x \<le> k1" "k1 < a @ y" using Cons.prems by auto
  with Cons.IH[of k1] k show ?case by auto
qed simp

lemma replicate_ff_le: "replicate n 0xff \<le> (t :: bytes) \<Longrightarrow> prefix (replicate n 0xff) t"
proof (induction n arbitrary: t)
  case (Suc n)
  then obtain c t' where t: "t = c # t'" by (cases t) auto
  then have "c = 0xff" "replicate n 0xff \<le> t'"
    using Suc.prems byte_less_ff[of c] by (auto simp: le_less)
  then show ?case using Suc.IH t by simp
qed simp

text \<open>
  \<open>[p, PrefixEnd p)\<close> is the set of keys with prefix \<open>p\<close>, unless every byte of \<open>p\<close> is
  \<^verbatim>\<open>0xff\<close>.
\<close>

lemma PrefixEnd_range:
  assumes "\<exists>b \<in> set p. b \<noteq> 0xff"
  shows "prefix p k \<longleftrightarrow> p \<le> k \<and> k < PrefixEnd p"
proof -
  obtain a b n where p: "p = a @ b # replicate n 0xff" and b: "b \<noteq> 0xff"
    using not_all_ff_split[OF assms] .
  note b1 = byte_less_succ[OF b]
  have end_: "PrefixEnd p = a @ [b + 1]" using PrefixEnd_eq[OF b] p by simp
  show ?thesis
  proof
    assume "prefix p k"
    then obtain s where "k = a @ b # (replicate n 0xff @ s)" by (auto simp: p prefix_def)
    moreover have "replicate n 0xff \<le> replicate n 0xff @ s"
      using append_le_cancel[of "replicate n 0xff" "[]" s] by simp
    ultimately show "p \<le> k \<and> k < PrefixEnd p" using b1[of b] end_ p by simp
  next
    assume "p \<le> k \<and> k < PrefixEnd p"
    then obtain k' where k: "k = a @ k'" "b # replicate n 0xff \<le> k'" "k' < [b + 1]"
      using between_append[of a "b # replicate n 0xff" k "[b + 1]"] end_ p by auto
    then obtain c t where k': "k' = c # t" by (cases k') auto
    then have "c \<le> b" using k(3) b1[of c] by simp
    then have "c = b" "replicate n 0xff \<le> t" using k(2) k' by auto
    then show "prefix p k" using k(1) k' p replicate_ff_le[of n t] by simp
  qed
qed

end
