(* ===== verification/Storage.thy ===== *)
theory Storage
  imports Coder
begin

text \<open>
  \<^verbatim>\<open>pkg/storage/interface.go\<close>: the storage engine behind the backend, as the record of the
  operations the code calls, and its documented contract as the locale \<open>kv_engine\<close>.

  A \<^verbatim>\<open>BatchWrite\<close> is the list of its operations, given to \<^verbatim>\<open>Commit\<close>. An \<^verbatim>\<open>Iter\<close> is the list of
  the pairs its \<^verbatim>\<open>Next\<close> calls deliver, with the error of the \<^verbatim>\<open>Next\<close> call after the last of them
  (\<^verbatim>\<open>io.EOF\<close> at the end of the range). Every operation returns the engine's next state, so that two
  calls in a row may answer differently (a fault that goes away, a clock that ticks).
\<close>

section \<open>The operations\<close>

datatype batch_op =
    PutIfNotExist bytes bytes int
  | CAS bytes bytes bytes int
  | Put bytes bytes int
  | Del bytes
  | DelCurrent bytes bytes

type_synonym iter = "kvpair list \<times> error"

record partition =
  Start :: bytes
  End :: bytes

record 's kv_storage =
  kv_GetTimestampOracle :: "'s \<Rightarrow> (error + rev) \<times> 's"
  kv_GetPartitions :: "'s \<Rightarrow> bytes \<Rightarrow> bytes \<Rightarrow> (error + partition list) \<times> 's"
  kv_Get :: "'s \<Rightarrow> bytes \<Rightarrow> (error + bytes) \<times> 's"
  kv_Iter :: "'s \<Rightarrow> bytes \<Rightarrow> bytes \<Rightarrow> rev \<Rightarrow> rev \<Rightarrow> (error + iter) \<times> 's"
  kv_Commit :: "'s \<Rightarrow> batch_op list \<Rightarrow> error option \<times> 's"
  kv_Del :: "'s \<Rightarrow> bytes \<Rightarrow> error option \<times> 's"
  kv_DelCurrent :: "'s \<Rightarrow> bytes \<Rightarrow> bytes \<Rightarrow> error option \<times> 's"
  kv_SupportTTL :: bool

section \<open>What a batch means\<close>

text \<open>
  The effect of one operation on the stored map; \<open>None\<close> when its comparison fails. \<^verbatim>\<open>DelCurrent\<close>
  compares with \<^verbatim>\<open>bytes.Compare\<close>, for which a missing value (nil) is an empty one. A batch
  applies its operations in order and is abandoned as a whole at the first failed comparison.
\<close>

fun apply_op :: "batch_op \<Rightarrow> kvmap \<Rightarrow> kvmap option" where
  "apply_op (PutIfNotExist k v ttl) m = (if m k = None then Some (m(k \<mapsto> v)) else None)"
| "apply_op (CAS k new old ttl) m = (if m k = Some old then Some (m(k \<mapsto> new)) else None)"
| "apply_op (Put k v ttl) m = Some (m(k \<mapsto> v))"
| "apply_op (Del k) m = Some (m(k := None))"
| "apply_op (DelCurrent k v) m =
     (if case_option [] id (m k) = v then Some (m(k := None)) else None)"

text \<open>
  The operations the program puts into a batch of its own. \<^verbatim>\<open>DelCurrent\<close> is only called on the store, where it
  is a batch of one operation.
\<close>

fun is_write :: "batch_op \<Rightarrow> bool" where
  "is_write (DelCurrent k v) \<longleftrightarrow> False"
| "is_write op \<longleftrightarrow> True"

fun apply_batch :: "batch_op list \<Rightarrow> kvmap \<Rightarrow> kvmap option" where
  "apply_batch [] m = Some m"
| "apply_batch (op # ops) m = Option.bind (apply_op op m) (apply_batch ops)"

lemma finite_dom_apply_op: "apply_op op m = Some m' \<Longrightarrow> finite (dom m) \<Longrightarrow> finite (dom m')"
  by (cases op) (auto split: if_splits)

lemma finite_dom_apply_batch: "apply_batch ops m = Some m' \<Longrightarrow> finite (dom m) \<Longrightarrow> finite (dom m')"
  by (induction ops arbitrary: m) (auto split: Option.bind_splits dest: finite_dom_apply_op)

text \<open>
  \<open>may_apply e ops m m'\<close>: the maps before and after a \<^verbatim>\<open>Commit\<close> that returned \<open>e\<close>. A nil
  error means the batch was applied; an uncertain result means it was or was not; any other error
  means it was not.
\<close>

definition may_apply :: "error option \<Rightarrow> batch_op list \<Rightarrow> kvmap \<Rightarrow> kvmap \<Rightarrow> bool" where
  "may_apply e ops m m' \<longleftrightarrow>
     (case e of
        None \<Rightarrow> apply_batch ops m = Some m'
      | Some err \<Rightarrow> m' = m \<or> (errors_is err ErrUncertainResult \<and> apply_batch ops m = Some m'))"

lemma may_apply_None [simp]: "may_apply None ops m m' \<longleftrightarrow> apply_batch ops m = Some m'"
  by (simp add: may_apply_def)

lemma may_apply_certain:
  "may_apply (Some err) ops m m' \<Longrightarrow> \<not> errors_is err ErrUncertainResult \<Longrightarrow> m' = m"
  by (simp add: may_apply_def)

lemma may_apply_cases:
  "may_apply e ops m m' \<Longrightarrow> m' = m \<or> apply_batch ops m = Some m'"
  by (auto simp: may_apply_def split: option.splits)

lemma finite_dom_may_apply: "may_apply e ops m m' \<Longrightarrow> finite (dom m) \<Longrightarrow> finite (dom m')"
  by (auto dest!: may_apply_cases intro: finite_dom_apply_batch)

section \<open>Ranges\<close>

text \<open>The pairs of \<open>[a, b)\<close> in ascending order, and those of \<open>(b, a]\<close> in descending order.\<close>

definition entries_of :: "kvmap \<Rightarrow> bytes set \<Rightarrow> kvpair list" where
  "entries_of m K = map (\<lambda>k. (k, the (m k))) (sorted_list_of_set (dom m \<inter> K))"

definition forward_range :: "kvmap \<Rightarrow> bytes \<Rightarrow> bytes \<Rightarrow> kvpair list" where
  "forward_range m a b = entries_of m {a..<b}"

definition reverse_range :: "kvmap \<Rightarrow> bytes \<Rightarrow> bytes \<Rightarrow> kvpair list" where
  "reverse_range m a b = rev (entries_of m {b<..a})"

lemma set_entries_of [simp]:
  "finite (dom m) \<Longrightarrow> set (entries_of m K) = {(k, v). m k = Some v \<and> k \<in> K}"
  by (auto simp: entries_of_def image_def)

lemma map_fst_entries_of: "map fst (entries_of m K) = sorted_list_of_set (dom m \<inter> K)"
  by (simp add: entries_of_def comp_def)

lemma sorted_entries_of: "sorted_wrt (<) (map fst (entries_of m K))"
  by (simp add: map_fst_entries_of)

lemma entries_of_cong:
  assumes "\<And>k. k \<in> K \<Longrightarrow> m k = m' k"
  shows "entries_of m K = entries_of m' K"
proof -
  have "dom m \<inter> K = dom m' \<inter> K" using assms by (auto simp: domIff)
  moreover have "the (m k) = the (m' k)" if "k \<in> dom m' \<inter> K" for k using assms that by simp
  ultimately show ?thesis unfolding entries_of_def
    by (cases "finite (dom m' \<inter> K)") auto
qed

lemma entries_ofI:
  assumes "finite (dom m)" "sorted_wrt (<) (map fst xs)"
    and "\<And>k v. (k, v) \<in> set xs \<longleftrightarrow> m k = Some v \<and> k \<in> K"
  shows "entries_of m K = xs"
proof -
  have "set (map fst xs) = dom m \<inter> K" using assms(3) by force
  moreover have "distinct (map fst xs)" using assms(2) strict_sorted_iff by blast
  ultimately have "sorted_list_of_set (dom m \<inter> K) = map fst xs"
    using assms(1,2) sorted_list_of_set_unique[of "dom m \<inter> K" "map fst xs"]
    by (metis distinct_card finite_Int length_map)
  moreover have "map (\<lambda>k. (k, the (m k))) (map fst xs) = xs"
    using assms(3) by (auto intro!: map_idI)
  ultimately show ?thesis by (simp add: entries_of_def)
qed

lemma entries_of_eqI:
  assumes "finite (dom m)" "finite (dom m')"
    and "\<And>k v. m k = Some v \<and> k \<in> K \<longleftrightarrow> m' k = Some v \<and> k \<in> K'"
  shows "entries_of m K = entries_of m' K'"
  using assms by (intro entries_ofI) (auto simp: sorted_entries_of)

lemma entries_of_Nil: "dom m \<inter> K = {} \<Longrightarrow> entries_of m K = []"
  by (simp add: entries_of_def)

lemma entries_of_empty [simp]: "entries_of m {} = []"
  by (simp add: entries_of_Nil)

lemma entries_of_insert:
  assumes "finite (dom m)" "m k = Some v" "dom m \<inter> K = insert k (dom m \<inter> K')"
  shows "(k', v') = (k, v) \<or> (k', v') \<in> set (entries_of m K') \<longleftrightarrow> m k' = Some v' \<and> k' \<in> K"
proof -
  have "k' \<in> K \<longleftrightarrow> k' = k \<or> k' \<in> K'" if "m k' = Some v'"
    using assms(3) domI[of m k' v', OF that] by blast
  then show ?thesis using assms(1,2) by auto
qed

lemma entries_of_least:
  assumes "finite (dom m)" "m k = Some v" "dom m \<inter> K = insert k (dom m \<inter> K')"
    and "\<And>j. j \<in> dom m \<inter> K' \<Longrightarrow> k < j"
  shows "entries_of m K = (k, v) # entries_of m K'"
proof (rule entries_ofI)
  show "sorted_wrt (<) (map fst ((k, v) # entries_of m K'))"
    using assms(1,4) sorted_entries_of[of m K'] by (simp add: map_fst_entries_of)
qed (use assms(1) entries_of_insert[OF assms(1-3)] in auto)

lemma entries_of_greatest:
  assumes "finite (dom m)" "m k = Some v" "dom m \<inter> K = insert k (dom m \<inter> K')"
    and "\<And>j. j \<in> dom m \<inter> K' \<Longrightarrow> j < k"
  shows "entries_of m K = entries_of m K' @ [(k, v)]"
proof (rule entries_ofI)
  show "sorted_wrt (<) (map fst (entries_of m K' @ [(k, v)]))"
    using assms(1,4) sorted_entries_of[of m K'] by (simp add: map_fst_entries_of sorted_wrt_append)
qed (use assms(1) entries_of_insert[OF assms(1-3)] in auto)

text \<open>An iterator walks keys in order and stops at the first beyond its border.\<close>

lemma filter_sorted_list_of_set:
  "finite A \<Longrightarrow> filter P (sorted_list_of_set A) = sorted_list_of_set {x \<in> A. P x}"
  by (rule sorted_distinct_set_unique) (auto intro: sorted_wrt_filter)

lemma takeWhile_filter:
  "sorted_wrt (\<lambda>x y. P y \<longrightarrow> P x) xs \<Longrightarrow> takeWhile P xs = filter P xs"
  by (induction xs) auto

lemma takeWhile_below:
  assumes "finite A"
  shows "takeWhile (\<lambda>x. x < b) (sorted_list_of_set A) = sorted_list_of_set (A \<inter> {..<b :: 'a :: linorder})"
proof -
  have "sorted_wrt (\<lambda>x y. y < b \<longrightarrow> x < b) (sorted_list_of_set A)"
    by (rule sorted_wrt_mono_rel[of _ "(<)"]) auto
  then show ?thesis using filter_sorted_list_of_set[OF assms, of "\<lambda>x. x < b"]
    by (simp add: takeWhile_filter Int_def)
qed

lemma takeWhile_above:
  assumes "finite A"
  shows "takeWhile (\<lambda>x. x > b) (rev (sorted_list_of_set A)) = rev (sorted_list_of_set (A \<inter> {b :: 'a :: linorder<..}))"
proof -
  have "sorted_wrt (\<lambda>x y. y > b \<longrightarrow> x > b) (rev (sorted_list_of_set A))"
    by (simp add: sorted_wrt_rev, rule sorted_wrt_mono_rel[of _ "(<)"]) auto
  then show ?thesis using filter_sorted_list_of_set[OF assms, of "\<lambda>x. x > b"]
    by (simp add: takeWhile_filter rev_filter[symmetric] Int_def)
qed

lemma reverse_range_takeWhile:
  assumes "finite (dom m)"
  shows "reverse_range m a b = takeWhile (\<lambda>p. b < fst p) (rev (entries_of m {..a}))"
proof -
  have eq: "dom m \<inter> {..a} \<inter> {b<..} = dom m \<inter> {b<..a}" by auto
  show ?thesis using takeWhile_above[of "dom m \<inter> {..a}" b] assms
    by (simp add: reverse_range_def entries_of_def rev_map takeWhile_map comp_def eq)
qed

section \<open>Partitions\<close>

text \<open>Partitions in the order of their starts that cover \<open>[a, b)\<close> without gap or overlap.\<close>

fun tiles :: "partition list \<Rightarrow> bytes \<Rightarrow> bytes \<Rightarrow> bool" where
  "tiles [] a b \<longleftrightarrow> False"
| "tiles [p] a b \<longleftrightarrow> Start p = a \<and> End p = b"
| "tiles (p # q # ps) a b \<longleftrightarrow> Start p = a \<and> a < End p \<and> End p < b \<and> tiles (q # ps) (End p) b"

section \<open>The contract\<close>

text \<open>
  The laws the backend relies on. \<open>view s\<close> is the committed content, \<open>snap s ts\<close> the content a
  read at timestamp \<open>ts\<close> sees (the current one for \<open>0\<close>). A write may or may not show in an
  older snapshot: TiKV keeps it out, the memory and Badger engines ignore the timestamp.

  A forward iterator delivers a prefix of the range, all of it when it ends with \<^verbatim>\<open>io.EOF\<close> and has
  no limit; the end is not empty, which TiKV takes for no end at all. A reverse iterator with a limit delivers at least that many; what it delivers beyond the
  border, if the border is reached at once, is not part of the range (the TiKV iterator checks
  the border from its second pair on). \<^verbatim>\<open>ErrKeyNotFound\<close> is an answer of \<^verbatim>\<open>Get\<close>, not of an iterator, and
  a batch refused for a failed comparison certainly had no effect. What a batch with \<^verbatim>\<open>DelCurrent\<close> behind a write of
  the same key does is left open: Badger compares the versions of the items, and a pending write has none of its own.
\<close>

locale kv_engine =
  fixes kv :: "'s kv_storage"
    and view :: "'s \<Rightarrow> kvmap"
    and snap :: "'s \<Rightarrow> rev \<Rightarrow> kvmap"
    and ok :: "'s \<Rightarrow> bool"
  assumes finite_view: "ok s \<Longrightarrow> finite (dom (view s))"
    and snap_now: "ok s \<Longrightarrow> snap s 0 = view s"
    and tso_state: "ok s \<Longrightarrow> kv_GetTimestampOracle kv s = (r, s') \<Longrightarrow> ok s' \<and> view s' = view s"
    and tso_snap: "ok s \<Longrightarrow> kv_GetTimestampOracle kv s = (Inr ts, s') \<Longrightarrow> snap s' ts = view s'"
    and partitions_state:
      "ok s \<Longrightarrow> kv_GetPartitions kv s a b = (p, s') \<Longrightarrow> ok s' \<and> view s' = view s \<and> snap s' = snap s"
    and partitions_tile:
      "ok s \<Longrightarrow> a < b \<Longrightarrow> kv_GetPartitions kv s a b = (Inr ps, s') \<Longrightarrow> tiles (sort_key Start ps) a b"
    and get_state:
      "ok s \<Longrightarrow> kv_Get kv s k = (g, s') \<Longrightarrow> ok s' \<and> view s' = view s \<and> snap s' = snap s"
    and get_val: "ok s \<Longrightarrow> kv_Get kv s k = (Inr v, s') \<Longrightarrow> view s k = Some v"
    and get_notfound: "ok s \<Longrightarrow> kv_Get kv s k = (Inl ErrKeyNotFound, s') \<Longrightarrow> view s k = None"
    and iter_state:
      "ok s \<Longrightarrow> kv_Iter kv s a b ts lim = (it, s') \<Longrightarrow> ok s' \<and> view s' = view s \<and> snap s' = snap s"
    and iter_forward:
      "ok s \<Longrightarrow> a \<le> b \<Longrightarrow> b \<noteq> [] \<Longrightarrow> kv_Iter kv s a b ts 0 = (Inr (items, err), s') \<Longrightarrow>
         prefix items (forward_range (snap s ts) a b)
         \<and> (err = EOF \<longrightarrow> items = forward_range (snap s ts) a b)"
    and iter_reverse_first:
      "ok s \<Longrightarrow> b < a \<Longrightarrow> kv_Iter kv s a b ts lim = (Inr ((k, v) # items, err), s') \<Longrightarrow>
         snap s ts k = Some v
         \<and> ((b < k \<and> (\<exists>rest. reverse_range (snap s ts) a b = (k, v) # rest))
            \<or> (k \<le> b \<and> reverse_range (snap s ts) a b = []))"
    and iter_reverse_none:
      "ok s \<Longrightarrow> b < a \<Longrightarrow> kv_Iter kv s a b ts lim = (Inr ([], EOF), s') \<Longrightarrow>
         reverse_range (snap s ts) a b = []"
    and iter_error: "ok s \<Longrightarrow> kv_Iter kv s a b ts lim = (Inl err, s') \<Longrightarrow>
         \<not> errors_is err ErrKeyNotFound"
    and next_error: "ok s \<Longrightarrow> kv_Iter kv s a b ts lim = (Inr (items, err), s') \<Longrightarrow>
         \<not> errors_is err ErrKeyNotFound"
    and commit_law:
      "ok s \<Longrightarrow> kv_Commit kv s ops = (e, s') \<Longrightarrow> list_all is_write ops \<Longrightarrow>
         ok s' \<and> may_apply e ops (view s) (view s')"
    and commit_cas:
      "ok s \<Longrightarrow> kv_Commit kv s ops = (Some err, s') \<Longrightarrow> errors_is err ErrCASFailed \<Longrightarrow>
         \<not> errors_is err ErrUncertainResult"
    and commit_conflict:
      "ok s \<Longrightarrow> kv_Commit kv s (PutIfNotExist k' w ttl # ops) = (Some (Conflict 0 k ov), s') \<Longrightarrow>
         ov = view s k'"
    and del_law:
      "ok s \<Longrightarrow> kv_Del kv s k = (e, s') \<Longrightarrow> ok s' \<and> may_apply e [Del k] (view s) (view s')"
    and delCurrent_law:
      "ok s \<Longrightarrow> kv_DelCurrent kv s k v = (e, s') \<Longrightarrow>
         ok s' \<and> may_apply e [DelCurrent k v] (view s) (view s')"
    and commit_snap: "ok s \<Longrightarrow> kv_Commit kv s ops = (e, s') \<Longrightarrow>
         snap s' ts k = snap s ts k \<or> snap s' ts k = view s' k"
    and del_snap: "ok s \<Longrightarrow> kv_Del kv s k = (e, s') \<Longrightarrow>
         snap s' ts k' = snap s ts k' \<or> snap s' ts k' = view s' k'"
    and delCurrent_snap: "ok s \<Longrightarrow> kv_DelCurrent kv s k v = (e, s') \<Longrightarrow>
         snap s' ts k' = snap s ts k' \<or> snap s' ts k' = view s' k'"

text \<open>
  Errors of the libraries the engines are built on are none of those the storage interface gives a meaning to.
\<close>

definition foreign :: "error \<Rightarrow> bool" where
  "foreign err \<longleftrightarrow> \<not> errors_is err ErrUncertainResult \<and> \<not> errors_is err ErrCASFailed \<and> \<not> errors_is err ErrKeyNotFound"

lemma foreign_Wrapped [simp]: "foreign (Wrapped m err) \<longleftrightarrow> foreign err"
  by (simp add: foreign_def)

lemma foreign_Conflict [simp]: "\<not> foreign (Conflict i k v)"
  by (simp add: foreign_def)

text \<open>
  An engine that is never unavailable: reads answer, and a batch is refused only for a failed
  comparison.
\<close>

locale kv_engine_reliable = kv_engine +
  assumes get_answers: "ok s \<Longrightarrow> \<exists>s'. kv_Get kv s k = (case view s k of
             None \<Rightarrow> (Inl ErrKeyNotFound, s') | Some v \<Rightarrow> (Inr v, s'))"
    and iter_answers: "ok s \<Longrightarrow> \<exists>items s'. kv_Iter kv s a b ts lim = (Inr (items, EOF), s')"
    and commit_answers:
      "ok s \<Longrightarrow> kv_Commit kv s ops = (Some err, s') \<Longrightarrow>
         errors_is err ErrCASFailed \<and> apply_batch ops (view s) = None"
    and del_answers: "ok s \<Longrightarrow> kv_Del kv s k = (Some err, s') \<Longrightarrow> False"

end
