(* ===== verification/MemKV.thy ===== *)
theory MemKV
  imports Storage "HOL-Library.AList"
begin

text \<open>
  \<^verbatim>\<open>pkg/storage/memkv\<close>: the in-memory storage engine. The skip list it is built on
  (\<^verbatim>\<open>github.com/huandu/skiplist\<close>) is a parameter, the record of the operations the engine calls; the
  locale \<open>skiplist_spec\<close> states its documented behaviour, an ordered map. Under it the engine
  satisfies the contract of \<^verbatim>\<open>storage.KvStorage\<close>.

  The mutex is held from \<^verbatim>\<open>BeginBatchWrite\<close> to \<^verbatim>\<open>Commit\<close>, so a batch is one step here. Stored
  values are never nil.
\<close>

section \<open>The skip list\<close>

text \<open>
  An element is known by its key; \<open>skl_Next\<close> and \<open>skl_Prev\<close> give the element after and before the
  one with that key.
\<close>

record 'l skiplist =
  skl_Get :: "'l \<Rightarrow> bytes \<Rightarrow> bytes option"
  skl_Set :: "'l \<Rightarrow> bytes \<Rightarrow> bytes \<Rightarrow> 'l"
  skl_Remove :: "'l \<Rightarrow> bytes \<Rightarrow> 'l"
  skl_Next :: "'l \<Rightarrow> bytes \<Rightarrow> kvpair option"
  skl_Prev :: "'l \<Rightarrow> bytes \<Rightarrow> kvpair option"
  skl_Len :: "'l \<Rightarrow> nat"

locale skiplist_spec =
  fixes skl :: "'l skiplist"
    and cont :: "'l \<Rightarrow> kvmap"
  assumes cont_finite: "finite (dom (cont l))"
    and cont_get: "skl_Get skl l k = cont l k"
    and cont_set: "cont (skl_Set skl l k v) = (cont l)(k \<mapsto> v)"
    and cont_remove: "cont (skl_Remove skl l k) = (cont l)(k := None)"
    and cont_next_None: "k \<in> dom (cont l) \<Longrightarrow> skl_Next skl l k = None \<Longrightarrow> \<forall>j \<in> dom (cont l). j \<le> k"
    and cont_next_Some: "k \<in> dom (cont l) \<Longrightarrow> skl_Next skl l k = Some (k', v) \<Longrightarrow>
           cont l k' = Some v \<and> k < k' \<and> (\<forall>j \<in> dom (cont l). k < j \<longrightarrow> k' \<le> j)"
    and cont_prev_None: "k \<in> dom (cont l) \<Longrightarrow> skl_Prev skl l k = None \<Longrightarrow> \<forall>j \<in> dom (cont l). k \<le> j"
    and cont_prev_Some: "k \<in> dom (cont l) \<Longrightarrow> skl_Prev skl l k = Some (k', v) \<Longrightarrow>
           cont l k' = Some v \<and> k' < k \<and> (\<forall>j \<in> dom (cont l). j < k \<longrightarrow> j \<le> k')"
    and cont_len: "skl_Len skl l = card (dom (cont l))"

section \<open>Batches\<close>

record cacheVal =
  isDeleted :: bool
  cval :: "bytes option"
  cttl :: int

text \<open>
  The \<^verbatim>\<open>batch\<close> struct. The Go map \<^verbatim>\<open>cache\<close> is an association list with distinct keys; \<^verbatim>\<open>Commit\<close>
  visits its entries in list order, which stands for any order since they are about distinct keys.
\<close>

record batch =
  berr :: "error option"
  cache :: "(bytes \<times> cacheVal) list"
  opCount :: nat

record 'l memstore =
  sklist :: 'l
  timers :: "(bytes \<times> int) list"
  nanos :: rev

definition emptyBatch :: batch where
  "emptyBatch = \<lparr>berr = None, cache = [], opCount = 0\<rparr>"

definition store_Get :: "'l skiplist \<Rightarrow> 'l memstore \<Rightarrow> bytes \<Rightarrow> error + bytes" where
  "store_Get skl s key = (case skl_Get skl (sklist s) key of None \<Rightarrow> Inl ErrKeyNotFound | Some v \<Rightarrow> Inr v)"

definition batch_get :: "'l skiplist \<Rightarrow> 'l memstore \<Rightarrow> batch \<Rightarrow> bytes \<Rightarrow> bytes option" where
  "batch_get skl s b key =
     (case map_of (cache b) key of
        Some v \<Rightarrow> cval v
      | None \<Rightarrow> (case store_Get skl s key of Inl _ \<Rightarrow> None | Inr val \<Rightarrow> Some val))"

definition cachePut :: "bytes \<Rightarrow> cacheVal \<Rightarrow> batch \<Rightarrow> batch" where
  "cachePut key v b = b\<lparr>cache := AList.update key v (cache b), opCount := opCount b + 1\<rparr>"

definition batch_PutIfNotExist ::
    "'l skiplist \<Rightarrow> 'l memstore \<Rightarrow> bytes \<Rightarrow> bytes \<Rightarrow> int \<Rightarrow> batch \<Rightarrow> batch" where
  "batch_PutIfNotExist skl s key val ttl b =
     (if berr b \<noteq> None then b
      else case batch_get skl s b key of
             Some old \<Rightarrow> b\<lparr>berr := Some (Conflict (opCount b) key (Some old))\<rparr>
           | None \<Rightarrow> cachePut key \<lparr>isDeleted = False, cval = Some val, cttl = ttl\<rparr> b)"

definition batch_CAS ::
    "'l skiplist \<Rightarrow> 'l memstore \<Rightarrow> bytes \<Rightarrow> bytes \<Rightarrow> bytes \<Rightarrow> int \<Rightarrow> batch \<Rightarrow> batch" where
  "batch_CAS skl s key newVal oldVal ttl b =
     (if berr b \<noteq> None then b
      else case batch_get skl s b key of
             None \<Rightarrow> b\<lparr>berr := Some (Conflict (opCount b) key None)\<rparr>
           | Some val \<Rightarrow>
               (let b' = (if val \<noteq> oldVal
                          then b\<lparr>berr := Some (Conflict (opCount b) key (Some oldVal))\<rparr> else b)
                in cachePut key \<lparr>isDeleted = False, cval = Some newVal, cttl = ttl\<rparr> b'))"

definition batch_Put :: "bytes \<Rightarrow> bytes \<Rightarrow> int \<Rightarrow> batch \<Rightarrow> batch" where
  "batch_Put key val ttl b =
     (if berr b \<noteq> None then b
      else cachePut key \<lparr>isDeleted = False, cval = Some val, cttl = ttl\<rparr> b)"

definition batch_Del :: "bytes \<Rightarrow> batch \<Rightarrow> batch" where
  "batch_Del key b =
     (if berr b \<noteq> None then b
      else cachePut key \<lparr>isDeleted = True, cval = None, cttl = 0\<rparr> b)"

definition batch_DelCurrent ::
    "'l skiplist \<Rightarrow> 'l memstore \<Rightarrow> bytes \<Rightarrow> bytes \<Rightarrow> batch \<Rightarrow> batch" where
  "batch_DelCurrent skl s key val b =
     (if berr b \<noteq> None then b
      else let b' = (if case_option [] id (batch_get skl s b key) \<noteq> val
                     then b\<lparr>berr := Some ErrCASFailed\<rparr> else b)
           in cachePut key \<lparr>isDeleted = True, cval = None, cttl = 0\<rparr> b')"

fun batch_do :: "'l skiplist \<Rightarrow> 'l memstore \<Rightarrow> batch_op \<Rightarrow> batch \<Rightarrow> batch" where
  "batch_do skl s (PutIfNotExist k v ttl) b = batch_PutIfNotExist skl s k v ttl b"
| "batch_do skl s (CAS k new old ttl) b = batch_CAS skl s k new old ttl b"
| "batch_do skl s (Put k v ttl) b = batch_Put k v ttl b"
| "batch_do skl s (Del k) b = batch_Del k b"
| "batch_do skl s (DelCurrent k v) b = batch_DelCurrent skl s k v b"

definition asyncRemove :: "bytes \<Rightarrow> int \<Rightarrow> 'l memstore \<Rightarrow> 'l memstore" where
  "asyncRemove key seconds s =
     (if seconds = 0 then s else s\<lparr>timers := timers s @ [(key, seconds)]\<rparr>)"

definition commitEntry :: "'l skiplist \<Rightarrow> bytes \<times> cacheVal \<Rightarrow> 'l memstore \<Rightarrow> 'l memstore" where
  "commitEntry skl e s =
     (case e of (k, v) \<Rightarrow>
        if isDeleted v then s\<lparr>sklist := skl_Remove skl (sklist s) k\<rparr>
        else let s' = (if cttl v \<noteq> 0 then asyncRemove k (cttl v) s else s)
             in s'\<lparr>sklist := skl_Set skl (sklist s') k (case_option [] id (cval v))\<rparr>)"

definition batch_Commit ::
    "'l skiplist \<Rightarrow> 'l memstore \<Rightarrow> batch \<Rightarrow> error option \<times> 'l memstore" where
  "batch_Commit skl s b =
     (case berr b of
        Some e \<Rightarrow> (Some e, s)
      | None \<Rightarrow> (None, fold (commitEntry skl) (cache b) s))"

definition mem_Commit ::
    "'l skiplist \<Rightarrow> 'l memstore \<Rightarrow> batch_op list \<Rightarrow> error option \<times> 'l memstore" where
  "mem_Commit skl s ops = batch_Commit skl s (fold (batch_do skl s) ops emptyBatch)"

definition store_Del :: "'l skiplist \<Rightarrow> 'l memstore \<Rightarrow> bytes \<Rightarrow> error option \<times> 'l memstore" where
  "store_Del skl s key = batch_Commit skl s (batch_Del key emptyBatch)"

definition store_DelCurrent ::
    "'l skiplist \<Rightarrow> 'l memstore \<Rightarrow> bytes \<Rightarrow> bytes \<Rightarrow> error option \<times> 'l memstore" where
  "store_DelCurrent skl s key val =
     batch_Commit skl s (batch_DelCurrent skl s key val emptyBatch)"

text \<open>A timer set by \<^verbatim>\<open>asyncRemove\<close> fires: the key is deleted, whatever is stored there by then.\<close>

fun fireTimer :: "'l skiplist \<Rightarrow> 'l memstore \<Rightarrow> 'l memstore" where
  "fireTimer skl s =
     (case timers s of [] \<Rightarrow> s | (k, _) # ts \<Rightarrow> snd (store_Del skl (s\<lparr>timers := ts\<rparr>) k))"

section \<open>Iterators\<close>

definition inRange :: "bool \<Rightarrow> bytes \<Rightarrow> kvpair option \<Rightarrow> bool" where
  "inRange backward stop elem =
     (case elem of None \<Rightarrow> False | Some (key, _) \<Rightarrow> if backward then key < stop else stop < key)"

text \<open>
  The loop of \<^verbatim>\<open>iter.init\<close>. Its fuel, the number of elements, is enough: each round moves to
  another element in one direction (lemmas \<open>walk_forward\<close> and \<open>walk_reverse\<close>).
\<close>

fun walk :: "'l skiplist \<Rightarrow> 'l \<Rightarrow> bool \<Rightarrow> bytes \<Rightarrow> nat \<Rightarrow> kvpair option \<Rightarrow> kvpair list" where
  "walk skl l backward stop 0 elem = []"
| "walk skl l backward stop (Suc n) elem =
     (if inRange backward stop elem
      then the elem # walk skl l backward stop n
             (if backward then skl_Next skl l (fst (the elem)) else skl_Prev skl l (fst (the elem)))
      else [])"

definition placeholder :: bytes where
  "placeholder = bytes_of_string ''placeholder''"

text \<open>
  \<^verbatim>\<open>newIter\<close> and \<^verbatim>\<open>init\<close>: when the start key is not stored, a sentry is inserted to find the
  neighbour, and removed again. The limit is not looked at.
\<close>

definition newIter :: "'l skiplist \<Rightarrow> 'l memstore \<Rightarrow> bytes \<Rightarrow> bytes \<Rightarrow> iter \<times> 'l memstore" where
  "newIter skl s start stop =
     (let backward = (start < stop) in
      case skl_Get skl (sklist s) start of
        Some v \<Rightarrow>
          ((walk skl (sklist s) backward stop (skl_Len skl (sklist s)) (Some (start, v)), EOF), s)
      | None \<Rightarrow>
          (let l = skl_Set skl (sklist s) start placeholder;
               elem = (if backward then skl_Next skl l start else skl_Prev skl l start)
           in ((walk skl l backward stop (skl_Len skl l) elem, EOF),
               s\<lparr>sklist := skl_Remove skl l start\<rparr>)))"

section \<open>The engine\<close>

definition memkv :: "'l skiplist \<Rightarrow> 'l memstore kv_storage" where
  "memkv skl =
     \<lparr>kv_GetTimestampOracle = (\<lambda>s. (Inr (nanos s), s)),
      kv_GetPartitions = (\<lambda>s start stop. (Inr [\<lparr>Start = start, End = stop\<rparr>], s)),
      kv_Get = (\<lambda>s key. (store_Get skl s key, s)),
      kv_Iter = (\<lambda>s start stop ts limit. let (i, s') = newIter skl s start stop in (Inr i, s')),
      kv_Commit = mem_Commit skl,
      kv_Del = store_Del skl,
      kv_DelCurrent = store_DelCurrent skl,
      kv_SupportTTL = True\<rparr>"

section \<open>The engine keeps the contract\<close>

text \<open>A cache laid over the content of the list: what the batch sees and what it will leave.\<close>

definition overlay :: "(bytes \<times> cacheVal) list \<Rightarrow> kvmap \<Rightarrow> kvmap" where
  "overlay c m k = (case map_of c k of None \<Rightarrow> m k | Some v \<Rightarrow> cval v)"

definition wf_cache :: "(bytes \<times> cacheVal) list \<Rightarrow> bool" where
  "wf_cache c \<longleftrightarrow> distinct (map fst c) \<and> (\<forall>(k, v) \<in> set c. isDeleted v \<longleftrightarrow> cval v = None)"

lemma overlay_update [simp]: "overlay (AList.update k v c) m = (overlay c m)(k := cval v)"
  by (auto simp: overlay_def update_conv' fun_eq_iff)

lemma overlay_Nil [simp]: "overlay [] m = m"
  by (simp add: overlay_def fun_eq_iff)

lemma set_AList_update: "(k', v') \<in> set (AList.update k v c) \<Longrightarrow> (k', v') = (k, v) \<or> (k', v') \<in> set c"
  by (induction c) (auto split: if_splits)

lemma wf_cache_update:
  "wf_cache c \<Longrightarrow> (isDeleted v \<longleftrightarrow> cval v = None) \<Longrightarrow> wf_cache (AList.update k v c)"
  using set_AList_update[of _ _ k v c] by (fastforce simp: wf_cache_def distinct_update)

lemma overlay_Cons:
  assumes "wf_cache ((k, v) # c)"
  shows "overlay ((k, v) # c) m = overlay c (m(k := cval v))"
proof -
  have "map_of c k = None" using assms by (simp add: wf_cache_def map_of_eq_None_iff)
  then show ?thesis by (auto simp: overlay_def fun_eq_iff split: option.splits)
qed

context skiplist_spec
begin

lemma batch_get_overlay: "batch_get skl s b k = overlay (cache b) (cont (sklist s)) k"
  by (auto simp: batch_get_def overlay_def store_Get_def cont_get split: option.splits)

lemmas batch_defs = batch_PutIfNotExist_def batch_CAS_def batch_Put_def batch_Del_def
  batch_DelCurrent_def cachePut_def batch_get_overlay Let_def

lemma batch_op_apply:
  assumes "berr b = None" "wf_cache (cache b)"
  shows "case apply_op op (overlay (cache b) (cont (sklist s))) of
           None \<Rightarrow> \<exists>err. berr (batch_do skl s op b) = Some err \<and> errors_is err ErrCASFailed
                        \<and> \<not> errors_is err ErrUncertainResult
         | Some m' \<Rightarrow> berr (batch_do skl s op b) = None \<and> wf_cache (cache (batch_do skl s op b))
                      \<and> overlay (cache (batch_do skl s op b)) (cont (sklist s)) = m'"
  using assms by (cases op) (auto simp: batch_defs wf_cache_update split: option.splits)

lemma batch_op_err: "berr b \<noteq> None \<Longrightarrow> batch_do skl s op b = b"
  by (cases op) (auto simp: batch_defs)

lemma fold_batch_op_err: "berr b \<noteq> None \<Longrightarrow> fold (batch_do skl s) ops b = b"
  by (induction ops) (auto simp: batch_op_err)

lemma fold_batch_op:
  assumes "berr b = None" "wf_cache (cache b)"
  shows "case apply_batch ops (overlay (cache b) (cont (sklist s))) of
           None \<Rightarrow> \<exists>err. berr (fold (batch_do skl s) ops b) = Some err \<and> errors_is err ErrCASFailed
                        \<and> \<not> errors_is err ErrUncertainResult
         | Some m' \<Rightarrow> berr (fold (batch_do skl s) ops b) = None
                      \<and> wf_cache (cache (fold (batch_do skl s) ops b))
                      \<and> overlay (cache (fold (batch_do skl s) ops b)) (cont (sklist s)) = m'"
  using assms
proof (induction ops arbitrary: b)
  case (Cons op ops)
  note step = batch_op_apply[OF Cons.prems, where op = op and s = s]
  show ?case
  proof (cases "apply_op op (overlay (cache b) (cont (sklist s)))")
    case None
    then show ?thesis using step by (auto simp: fold_batch_op_err)
  next
    case (Some m1)
    then have "berr (batch_do skl s op b) = None" "wf_cache (cache (batch_do skl s op b))"
      "overlay (cache (batch_do skl s op b)) (cont (sklist s)) = m1" using step by auto
    then show ?thesis using Cons.IH[of "batch_do skl s op b"] Some by (auto split: option.splits)
  qed
qed simp

lemma cont_commitEntry:
  "isDeleted v \<longleftrightarrow> cval v = None \<Longrightarrow>
     cont (sklist (commitEntry skl (k, v) s)) = (cont (sklist s))(k := cval v)"
  by (auto simp: commitEntry_def asyncRemove_def Let_def cont_set cont_remove)

lemma fold_commitEntry:
  "wf_cache c \<Longrightarrow> cont (sklist (fold (commitEntry skl) c s)) = overlay c (cont (sklist s))"
proof (induction c arbitrary: s)
  case (Cons e c)
  obtain k v where e: "e = (k, v)" by (cases e)
  then have "wf_cache c" and v: "isDeleted v \<longleftrightarrow> cval v = None"
    using Cons.prems by (auto simp: wf_cache_def)
  then show ?case
    using Cons.IH[of "commitEntry skl e s"] Cons.prems cont_commitEntry[OF v, of k s]
    by (simp add: e overlay_Cons fun_upd_def)
qed simp

text \<open>A commit applies the batch, or refuses it for a failed comparison and changes nothing.\<close>

lemma mem_Commit_cases:
  "case apply_batch ops (cont (sklist s)) of
     None \<Rightarrow> \<exists>err. mem_Commit skl s ops = (Some err, s) \<and> errors_is err ErrCASFailed
                  \<and> \<not> errors_is err ErrUncertainResult
   | Some m' \<Rightarrow> \<exists>s'. mem_Commit skl s ops = (None, s') \<and> cont (sklist s') = m'"
proof -
  let ?b = "fold (batch_do skl s) ops emptyBatch"
  have "berr emptyBatch = None" "wf_cache (cache emptyBatch)"
    by (simp_all add: emptyBatch_def wf_cache_def)
  note step = fold_batch_op[OF this, where ops = ops and s = s]
  have over: "overlay (cache emptyBatch) (cont (sklist s)) = cont (sklist s)"
    by (simp add: emptyBatch_def)
  show ?thesis
  proof (cases "apply_batch ops (cont (sklist s))")
    case None
    then show ?thesis using step by (auto simp: mem_Commit_def batch_Commit_def over)
  next
    case (Some m')
    then show ?thesis using step fold_commitEntry[of "cache ?b" s]
      by (auto simp: mem_Commit_def batch_Commit_def over)
  qed
qed

lemma batch_op_not_first:
  assumes "1 \<le> opCount b" "berr b \<noteq> Some (Conflict 0 k ov)"
  shows "1 \<le> opCount (batch_do skl s op b) \<and> berr (batch_do skl s op b) \<noteq> Some (Conflict 0 k ov)"
  using assms by (cases op) (auto simp: batch_defs split: option.splits)

lemma fold_batch_op_not_first:
  assumes "1 \<le> opCount b" "berr b \<noteq> Some (Conflict 0 k ov)"
  shows "berr (fold (batch_do skl s) ops b) \<noteq> Some (Conflict 0 k ov)"
  using assms
proof (induction ops arbitrary: b)
  case (Cons op ops)
  then show ?case using Cons.IH[of "batch_do skl s op b"] batch_op_not_first[OF Cons.prems] by simp
qed simp

lemma mem_Commit_conflict:
  assumes "mem_Commit skl s (PutIfNotExist k' w ttl # ops) = (Some (Conflict 0 k ov), s')"
  shows "ov = cont (sklist s) k'"
proof -
  let ?b = "batch_do skl s (PutIfNotExist k' w ttl) emptyBatch"
  have err: "berr (fold (batch_do skl s) ops ?b) = Some (Conflict 0 k ov)"
    using assms by (auto simp: mem_Commit_def batch_Commit_def split: option.splits)
  show ?thesis
  proof (cases "cont (sklist s) k'")
    case None
    then have "1 \<le> opCount ?b" "berr ?b = None" by (auto simp: batch_defs emptyBatch_def)
    then show ?thesis using err fold_batch_op_not_first[of ?b k ov s ops] by simp
  next
    case (Some old)
    then have "berr ?b = Some (Conflict 0 k' (Some old))" by (auto simp: batch_defs emptyBatch_def)
    then show ?thesis using err Some by (simp add: fold_batch_op_err)
  qed
qed

lemma walk_None [simp]: "walk skl l d e n None = []"
  by (cases n) (simp_all add: inRange_def)

lemma finite_dom_part: "finite {j \<in> dom (cont l). P j}"
  using cont_finite[of l] by simp

lemma walk_forward:
  assumes "cont l k = Some v" "card {j \<in> dom (cont l). k \<le> j} \<le> n"
  shows "walk skl l True e n (Some (k, v)) = entries_of (cont l) {k..<e}"
  using assms
proof (induction n arbitrary: k v)
  case 0
  then have "{j \<in> dom (cont l). k \<le> j} = {}" using cont_finite by simp
  then show ?case using 0(1) by blast
next
  case (Suc n)
  have k: "k \<in> dom (cont l)" using Suc.prems by blast
  show ?case
  proof (cases "k < e")
    case False
    then show ?thesis by (simp add: inRange_def entries_of_Nil)
  next
    case True
    show ?thesis
    proof (cases "skl_Next skl l k")
      case None
      have "x = k" if "cont l x = Some w" "k \<le> x" for x w
        using cont_next_None[OF k None] domI[of "cont l" x w] that by (simp add: antisym)
      then have "dom (cont l) \<inter> {k..<e} = insert k (dom (cont l) \<inter> {})" using k True by auto
      then have "entries_of (cont l) {k..<e} = (k, v) # entries_of (cont l) {}"
        using cont_finite Suc.prems(1) by (intro entries_of_least) auto
      then show ?thesis using None True by (simp add: inRange_def entries_of_Nil)
    next
      case (Some p)
      obtain k' v' where p: "p = (k', v')" by (cases p)
      note nxt = cont_next_Some[OF k Some[unfolded p]]
      have "k \<in> {j \<in> dom (cont l). k \<le> j} - {j \<in> dom (cont l). k' \<le> j}" using nxt k by (simp add: not_le)
      moreover have "{j \<in> dom (cont l). k' \<le> j} \<subseteq> {j \<in> dom (cont l). k \<le> j}"
        using nxt by (intro Collect_mono) auto
      ultimately have "{j \<in> dom (cont l). k' \<le> j} \<subset> {j \<in> dom (cont l). k \<le> j}" by blast
      then have "card {j \<in> dom (cont l). k' \<le> j} \<le> n"
        using psubset_card_mono[OF finite_dom_part, of "{j \<in> dom (cont l). k' \<le> j}" l "(\<le>) k"]
          Suc.prems(2) by linarith
      then have "walk skl l True e n (Some p) = entries_of (cont l) {k'..<e}"
        using Suc.IH nxt p by simp
      moreover have "k' \<le> x" if "cont l x = Some w" "x \<noteq> k" "k \<le> x" for x w
        using nxt that le_neq_trans[of k x] domI[of "cont l" x w] by auto
      then have "dom (cont l) \<inter> {k..<e} = insert k (dom (cont l) \<inter> {k'..<e})"
        using nxt k True by auto
      then have "entries_of (cont l) {k..<e} = (k, v) # entries_of (cont l) {k'..<e}"
        using cont_finite Suc.prems(1) nxt by (intro entries_of_least) auto
      ultimately show ?thesis using Some True by (simp add: inRange_def)
    qed
  qed
qed

lemma walk_reverse:
  assumes "cont l k = Some v" "card {j \<in> dom (cont l). j \<le> k} \<le> n"
  shows "walk skl l False e n (Some (k, v)) = rev (entries_of (cont l) {e<..k})"
  using assms
proof (induction n arbitrary: k v)
  case 0
  then have "{j \<in> dom (cont l). j \<le> k} = {}" using cont_finite by simp
  then show ?case using 0(1) by blast
next
  case (Suc n)
  have k: "k \<in> dom (cont l)" using Suc.prems by blast
  show ?case
  proof (cases "e < k")
    case False
    then show ?thesis by (simp add: inRange_def entries_of_Nil)
  next
    case True
    show ?thesis
    proof (cases "skl_Prev skl l k")
      case None
      have "x = k" if "cont l x = Some w" "x \<le> k" for x w
        using cont_prev_None[OF k None] domI[of "cont l" x w] that by (simp add: antisym)
      then have "dom (cont l) \<inter> {e<..k} = insert k (dom (cont l) \<inter> {})" using k True by auto
      then have "entries_of (cont l) {e<..k} = entries_of (cont l) {} @ [(k, v)]"
        using cont_finite Suc.prems(1) by (intro entries_of_greatest) auto
      then show ?thesis using None True by (simp add: inRange_def entries_of_Nil)
    next
      case (Some p)
      obtain k' v' where p: "p = (k', v')" by (cases p)
      note prv = cont_prev_Some[OF k Some[unfolded p]]
      have "k \<in> {j \<in> dom (cont l). j \<le> k} - {j \<in> dom (cont l). j \<le> k'}" using prv k by (simp add: not_le)
      moreover have "{j \<in> dom (cont l). j \<le> k'} \<subseteq> {j \<in> dom (cont l). j \<le> k}"
        using prv by (intro Collect_mono) auto
      ultimately have "{j \<in> dom (cont l). j \<le> k'} \<subset> {j \<in> dom (cont l). j \<le> k}" by blast
      then have "card {j \<in> dom (cont l). j \<le> k'} \<le> n"
        using psubset_card_mono[OF finite_dom_part, of "{j \<in> dom (cont l). j \<le> k'}" l "\<lambda>j. j \<le> k"]
          Suc.prems(2) by linarith
      then have "walk skl l False e n (Some p) = rev (entries_of (cont l) {e<..k'})"
        using Suc.IH prv p by simp
      moreover have "x \<le> k'" if "cont l x = Some w" "x \<noteq> k" "x \<le> k" for x w
        using prv that le_neq_trans[of x k] domI[of "cont l" x w] by auto
      then have "dom (cont l) \<inter> {e<..k} = insert k (dom (cont l) \<inter> {e<..k'})"
        using prv k True by auto
      then have "entries_of (cont l) {e<..k} = entries_of (cont l) {e<..k'} @ [(k, v)]"
        using cont_finite Suc.prems(1) prv by (intro entries_of_greatest) auto
      ultimately show ?thesis using Some True by (simp add: inRange_def)
    qed
  qed
qed

lemma card_le_Len: "card {j \<in> dom (cont l). P j} \<le> skl_Len skl l"
  using cont_finite by (auto simp: cont_len intro!: card_mono)

lemma newIter_state:
  "newIter skl s a b = (i, s') \<Longrightarrow> cont (sklist s') = cont (sklist s)"
  by (auto simp: newIter_def Let_def cont_get cont_set cont_remove fun_upd_idem split: option.splits)

text \<open>What the walk finds from the sentry is the range of the list without the sentry.\<close>

lemma newIter_forward:
  assumes "a < b" "newIter skl s a b = ((items, e), s')"
  shows "items = forward_range (cont (sklist s)) a b \<and> e = EOF"
proof (cases "cont (sklist s) a")
  case (Some v)
  then show ?thesis using assms walk_forward[OF Some card_le_Len]
    by (auto simp: newIter_def Let_def cont_get forward_range_def)
next
  case None
  let ?l = "skl_Set skl (sklist s) a placeholder"
  have l: "cont ?l = (cont (sklist s))(a \<mapsto> placeholder)" and a: "a \<in> dom (cont ?l)"
    by (simp_all add: cont_set)
  have items: "items = walk skl ?l True b (skl_Len skl ?l) (skl_Next skl ?l a)" and "e = EOF"
    using assms None by (auto simp: newIter_def Let_def cont_get)
  moreover have "walk skl ?l True b (skl_Len skl ?l) (skl_Next skl ?l a)
      = entries_of (cont (sklist s)) {a..<b}"
  proof (cases "skl_Next skl ?l a")
    case nxt: None
    have "cont (sklist s) x = None" if "a \<le> x" for x
    proof (rule ccontr)
      assume x: "cont (sklist s) x \<noteq> None"
      then have "x \<in> dom (cont ?l)" by (simp add: l domIff)
      then have "x = a" using cont_next_None[OF a nxt] that by (simp add: antisym)
      then show False using None x by simp
    qed
    then have "dom (cont (sklist s)) \<inter> {a..<b} = {}" by (fastforce simp: disjoint_iff)
    then show ?thesis using nxt by (simp add: entries_of_Nil)
  next
    case (Some p)
    obtain k v where p: "p = (k, v)" by (cases p)
    note nxt = cont_next_Some[OF a Some[unfolded p]]
    have *: "k \<le> j" if "cont (sklist s) j = Some w" "a \<le> j" for j w
    proof -
      have "j \<noteq> a" using that None by auto
      then have "a < j" "j \<in> dom (cont ?l)" using that by (simp_all add: l domIff)
      then show ?thesis using nxt by blast
    qed
    have "entries_of (cont ?l) {k..<b} = entries_of (cont (sklist s)) {a..<b}"
      using nxt None cont_finite * by (intro entries_of_eqI) (auto simp: l split: if_splits)
    then show ?thesis using walk_forward[OF _ card_le_Len, of ?l k v b] nxt Some p by simp
  qed
  ultimately show ?thesis by (simp add: forward_range_def)
qed

lemma newIter_reverse:
  assumes "\<not> a < b" "newIter skl s a b = ((items, e), s')"
  shows "items = reverse_range (cont (sklist s)) a b \<and> e = EOF"
proof (cases "cont (sklist s) a")
  case (Some v)
  then show ?thesis using assms walk_reverse[OF Some card_le_Len]
    by (auto simp: newIter_def Let_def cont_get reverse_range_def)
next
  case None
  let ?l = "skl_Set skl (sklist s) a placeholder"
  have l: "cont ?l = (cont (sklist s))(a \<mapsto> placeholder)" and a: "a \<in> dom (cont ?l)"
    by (simp_all add: cont_set)
  have items: "items = walk skl ?l False b (skl_Len skl ?l) (skl_Prev skl ?l a)" and "e = EOF"
    using assms None by (auto simp: newIter_def Let_def cont_get)
  moreover have "walk skl ?l False b (skl_Len skl ?l) (skl_Prev skl ?l a)
      = rev (entries_of (cont (sklist s)) {b<..a})"
  proof (cases "skl_Prev skl ?l a")
    case prv: None
    have "cont (sklist s) x = None" if "x \<le> a" for x
    proof (rule ccontr)
      assume x: "cont (sklist s) x \<noteq> None"
      then have "x \<in> dom (cont ?l)" by (simp add: l domIff)
      then have "x = a" using cont_prev_None[OF a prv] that by (simp add: antisym)
      then show False using None x by simp
    qed
    then have "dom (cont (sklist s)) \<inter> {b<..a} = {}" by (fastforce simp: disjoint_iff)
    then show ?thesis using prv by (simp add: entries_of_Nil)
  next
    case (Some p)
    obtain k v where p: "p = (k, v)" by (cases p)
    note prv = cont_prev_Some[OF a Some[unfolded p]]
    have *: "j \<le> k" if "cont (sklist s) j = Some w" "j \<le> a" for j w
    proof -
      have "j \<noteq> a" using that None by auto
      then have "j < a" "j \<in> dom (cont ?l)" using that by (simp_all add: l domIff)
      then show ?thesis using prv by blast
    qed
    have "entries_of (cont ?l) {b<..k} = entries_of (cont (sklist s)) {b<..a}"
      using prv None cont_finite * by (intro entries_of_eqI) (auto simp: l split: if_splits)
    then show ?thesis using walk_reverse[OF _ card_le_Len, of ?l k v b] prv Some p by simp
  qed
  ultimately show ?thesis by (simp add: reverse_range_def)
qed

lemma store_Del_eq: "store_Del skl s k = mem_Commit skl s [Del k]"
  by (simp add: store_Del_def mem_Commit_def)

lemma store_DelCurrent_eq: "store_DelCurrent skl s k v = mem_Commit skl s [DelCurrent k v]"
  by (simp add: store_DelCurrent_def mem_Commit_def)

lemma mem_Commit_may_apply:
  assumes "mem_Commit skl s ops = (e, s')"
  shows "may_apply e ops (cont (sklist s)) (cont (sklist s'))"
  using mem_Commit_cases[where ops = ops and s = s] assms
  by (auto simp: may_apply_def split: option.splits)

lemma mem_Commit_refuses:
  assumes "mem_Commit skl s ops = (Some err, s')"
  shows "errors_is err ErrCASFailed \<and> \<not> errors_is err ErrUncertainResult
         \<and> apply_batch ops (cont (sklist s)) = None"
  using mem_Commit_cases[where ops = ops and s = s] assms by (auto split: option.splits)

lemma newIter_forward_le:
  assumes "a \<le> b" "newIter skl s a b = ((items, e), s')"
  shows "items = forward_range (cont (sklist s)) a b \<and> e = EOF"
  using newIter_forward[OF _ assms(2)] newIter_reverse[OF _ assms(2)] assms(1)
  by (cases "a < b") (auto simp: reverse_range_def forward_range_def)

lemma memkv_simps:
  "kv_GetTimestampOracle (memkv skl) s = (Inr (nanos s), s)"
  "kv_GetPartitions (memkv skl) s a b = (Inr [\<lparr>Start = a, End = b\<rparr>], s)"
  "kv_Get (memkv skl) s k = (store_Get skl s k, s)"
  "kv_Iter (memkv skl) s a b ts lim = (Inr (fst (newIter skl s a b)), snd (newIter skl s a b))"
  "kv_Commit (memkv skl) s ops = mem_Commit skl s ops"
  "kv_Del (memkv skl) s k = mem_Commit skl s [Del k]"
  "kv_DelCurrent (memkv skl) s k v = mem_Commit skl s [DelCurrent k v]"
  by (simp_all add: memkv_def store_Del_eq store_DelCurrent_eq split_beta)

lemma mem_reverse_first:
  assumes "b < a" "kv_Iter (memkv skl) s a b ts lim = (Inr ((k, v) # items, err), s')"
  shows "cont (sklist s) k = Some v \<and> b < k \<and> (\<exists>rest. reverse_range (cont (sklist s)) a b = (k, v) # rest)"
proof -
  have it: "newIter skl s a b = (((k, v) # items, err), s')"
    using assms(2) by (auto simp: memkv_simps prod_eq_iff)
  then have eq: "reverse_range (cont (sklist s)) a b = (k, v) # items"
    using newIter_reverse[OF _ it] assms(1) by auto
  then have "(k, v) \<in> set (entries_of (cont (sklist s)) {b<..a})"
    unfolding reverse_range_def by (metis list.set_intros(1) set_rev)
  then show ?thesis using eq cont_finite by auto
qed

lemma mem_Commit_del: "mem_Commit skl s [Del k] = (Some err, s') \<Longrightarrow> False"
  using mem_Commit_refuses[of s "[Del k]" err s'] by simp

lemma newIter_EOF: "snd (fst (newIter skl s a b)) = EOF"
  using newIter_forward[of a b s] newIter_reverse[of a b s] by (metis prod.collapse)

end

text \<open>Whatever skip list keeps its documented behaviour gives a storage engine.\<close>

sublocale skiplist_spec \<subseteq> mem: kv_engine_reliable "memkv skl" "\<lambda>s. cont (sklist s)"
  "\<lambda>s ts. cont (sklist s)" "\<lambda>s. True"
proof (unfold_locales, goal_cases)
  case (1 s) show ?case by (rule cont_finite)
next
  case (2 s) show ?case by simp
next
  case (3 s r s') then show ?case by (simp add: memkv_simps)
next
  case (4 s ts s') then show ?case by simp
next
  case (5 s a b p s') then show ?case by (simp add: memkv_simps)
next
  case (6 s a b ps s') then show ?case by (auto simp: memkv_simps)
next
  case (7 s k g s') then show ?case by (simp add: memkv_simps)
next
  case (8 s k v s')
  then show ?case by (auto simp: memkv_simps store_Get_def cont_get split: option.splits)
next
  case (9 s k s')
  then show ?case by (auto simp: memkv_simps store_Get_def cont_get split: option.splits)
next
  case (10 s a b ts lim it s')
  then show ?case using newIter_state[of s a b "fst (newIter skl s a b)" s']
    by (auto simp: memkv_simps prod_eq_iff)
next
  case (11 s a b ts items err s')
  then have "newIter skl s a b = ((items, err), s')" by (auto simp: memkv_simps prod_eq_iff)
  then show ?case using newIter_forward_le 11(2) by blast
next
  case (12 s b a ts lim k v items err s')
  then show ?case using mem_reverse_first by blast
next
  case (13 s b a ts lim s')
  then have "newIter skl s a b = (([], EOF), s')" by (auto simp: memkv_simps prod_eq_iff)
  then show ?case using newIter_reverse[of a b s "[]" EOF s'] 13(2) by auto
next
  case (14 s a b ts lim err s') then show ?case by (simp add: memkv_simps)
next
  case (15 s a b ts lim items err s')
  then show ?case using newIter_EOF[of s a b] by (auto simp: memkv_simps prod_eq_iff)
next
  case (17 s ops err s')
  then show ?case using mem_Commit_refuses[of s ops err s'] by (simp add: memkv_simps)
next
  case (16 s ops e s')
  then show ?case by (simp add: memkv_simps mem_Commit_may_apply)
next
  case (18 s k' w ttl ops k ov s')
  then show ?case by (simp add: memkv_simps mem_Commit_conflict)
next
  case (19 s k e s')
  then show ?case by (simp add: memkv_simps mem_Commit_may_apply)
next
  case (20 s k v e s')
  then show ?case by (simp add: memkv_simps mem_Commit_may_apply)
next
  case (24 s k)
  then show ?case by (auto simp: memkv_simps store_Get_def cont_get split: option.splits)
next
  case (25 s a b ts lim)
  show ?case using newIter_EOF[of s a b] by (metis memkv_simps(4) prod.collapse)
next
  case (26 s ops err s')
  then show ?case by (simp add: memkv_simps mem_Commit_refuses)
next
  case (27 s k err s')
  then show ?case by (auto simp: memkv_simps dest: mem_Commit_del)
qed simp_all

section \<open>An instance\<close>

text \<open>
  A list of pairs with the operations of the skip list: it shows that the documented behaviour can be
  had, and lets concrete runs be evaluated.
\<close>

definition alist_next :: "(bytes \<times> bytes) list \<Rightarrow> bytes \<Rightarrow> kvpair option" where
  "alist_next l k =
     (let ks = filter (\<lambda>j. k < j) (map fst l)
      in if ks = [] then None else Some (Min (set ks), the (map_of l (Min (set ks)))))"

definition alist_prev :: "(bytes \<times> bytes) list \<Rightarrow> bytes \<Rightarrow> kvpair option" where
  "alist_prev l k =
     (let ks = filter (\<lambda>j. j < k) (map fst l)
      in if ks = [] then None else Some (Max (set ks), the (map_of l (Max (set ks)))))"

definition alist_skl :: "(bytes \<times> bytes) list skiplist" where
  "alist_skl = \<lparr>skl_Get = map_of, skl_Set = (\<lambda>l k v. AList.update k v l), skl_Remove = (\<lambda>l k. AList.delete k l),
     skl_Next = alist_next, skl_Prev = alist_prev, skl_Len = (\<lambda>l. length (remdups (map fst l)))\<rparr>"

lemma map_of_the: "k \<in> fst ` set l \<Longrightarrow> map_of l k = Some (the (map_of l k))"
  by (metis dom_map_of_conv_image_fst domD option.sel)

lemma alist_next_Some:
  assumes "alist_next l k = Some (k', v)"
  shows "map_of l k' = Some v \<and> k < k' \<and> (\<forall>j \<in> dom (map_of l). k < j \<longrightarrow> k' \<le> j)"
proof -
  let ?K = "set (filter (\<lambda>j. k < j) (map fst l))"
  have "?K \<noteq> {}" "k' = Min ?K" "v = the (map_of l k')"
    using assms unfolding alist_next_def Let_def set_empty by (auto split: if_splits)
  then have "k' \<in> ?K" "\<forall>j \<in> ?K. k' \<le> j" "v = the (map_of l k')" using Min_in[of ?K] Min_le[of ?K] by auto
  then show ?thesis using map_of_the[of k' l] by (auto simp: dom_map_of_conv_image_fst)
qed

lemma alist_prev_Some:
  assumes "alist_prev l k = Some (k', v)"
  shows "map_of l k' = Some v \<and> k' < k \<and> (\<forall>j \<in> dom (map_of l). j < k \<longrightarrow> j \<le> k')"
proof -
  let ?K = "set (filter (\<lambda>j. j < k) (map fst l))"
  have "?K \<noteq> {}" "k' = Max ?K" "v = the (map_of l k')"
    using assms unfolding alist_prev_def Let_def set_empty by (auto split: if_splits)
  then have "k' \<in> ?K" "\<forall>j \<in> ?K. j \<le> k'" "v = the (map_of l k')" using Max_in[of ?K] Max_ge[of ?K] by auto
  then show ?thesis using map_of_the[of k' l] by (auto simp: dom_map_of_conv_image_fst)
qed

lemma alist_edge:
  "alist_next l k = None \<Longrightarrow> \<forall>j \<in> dom (map_of l). j \<le> k"
  "alist_prev l k = None \<Longrightarrow> \<forall>j \<in> dom (map_of l). k \<le> j"
  by (auto simp: alist_next_def alist_prev_def Let_def filter_empty_conv dom_map_of_conv_image_fst not_less
      split: if_splits)

interpretation alist: skiplist_spec alist_skl map_of
proof (unfold_locales, goal_cases)
  case (3 l k v) show ?case by (simp add: alist_skl_def update_conv' fun_upd_def)
next
  case (4 l k) show ?case by (simp add: alist_skl_def delete_conv' fun_upd_def)
next
  case (9 l)
  show ?case by (simp add: alist_skl_def length_remdups_card_conv dom_map_of_conv_image_fst)
qed (auto simp: alist_skl_def finite_dom_map_of dest: alist_next_Some alist_prev_Some alist_edge)

end
