(* ===== verification/Proto.thy ===== *)
theory Proto
  imports KB_Prelude
begin

text \<open>
  The data the components exchange: the messages of the kubebrain protocol the code builds and
  reads (\<^verbatim>\<open>proto.KeyValue\<close>, \<^verbatim>\<open>proto.Event\<close> and the request and response types, with the fields the
  source uses), and \<^verbatim>\<open>common.WatchEvent\<close> of \<^verbatim>\<open>pkg/backend/common\<close>. A nil pointer is \<open>None\<close>.
\<close>

section \<open>Keys, values, events\<close>

record KeyValue =
  Key :: bytes
  Value :: bytes
  Revision :: rev

datatype EventType = Event_CREATE | Event_PUT | Event_DELETE

record Event =
  Type :: EventType
  Kv :: KeyValue
  EvRevision :: rev

record WatchEvent =
  WRevision :: rev
  WPrevRevision :: rev
  WResourceVerb :: EventType
  WValid :: bool
  WKey :: bytes
  WValue :: bytes
  WErr :: "error option"

section \<open>Requests and responses\<close>

record CreateRequest =
  CKey :: bytes
  CValue :: bytes
  CLease :: int

record CreateResponse =
  CRevision :: rev
  CSucceeded :: bool

record UpdateRequest =
  UKv :: KeyValue
  ULease :: int

record UpdateResponse =
  URevision :: rev
  USucceeded :: bool
  UKvOld :: "KeyValue option"

record DeleteRequest =
  DKey :: bytes
  DRevision :: rev

record DeleteResponse =
  DHeader :: rev
  DSucceeded :: bool
  DKv :: "KeyValue option"

record GetRequest =
  GKey :: bytes
  GRevision :: rev

record GetResponse =
  GHeader :: rev
  GKv :: "KeyValue option"

record RangeRequest =
  RKey :: bytes
  REnd :: bytes
  RRevision :: rev
  RLimit :: int

record RangeResponse =
  RHeader :: rev
  RKvs :: "KeyValue list"
  RMore :: bool

record CountResponse =
  CntHeader :: rev
  CntCount :: rev

record PartitionResponse =
  PHeader :: rev
  PNum :: int
  PKeys :: "bytes list"

record StreamRangeResponse =
  SHeader :: rev
  SKvs :: "KeyValue list"
  SMore :: bool
  SErr :: "error option"

end
