(* ===== verification/Ring.thy ===== *)
theory Ring
  imports Proto
begin

text \<open>
  \<^verbatim>\<open>pkg/backend/ring.go\<close>: the cache of the last events, a ring buffer over a fixed array, and
  \<^verbatim>\<open>FindEvents\<close>, which finds the events from a revision on by binary search (\<^verbatim>\<open>sort.Search\<close>). The
  ring implements the list of the last \<open>l\<close> events.

  The counters \<^verbatim>\<open>s\<close> and \<^verbatim>\<open>e\<close> are natural numbers: they start at 0, only grow, and would need
  \<open>2 ^ 63\<close> events to leave \<^verbatim>\<open>int64\<close>.
\<close>

section \<open>The ring\<close>

record Ring =
  rs :: nat
  re :: nat
  rl :: nat
  rarr :: "Event option list"

definition NewRing :: "nat \<Rightarrow> Ring" where
  "NewRing l = \<lparr>rs = 0, re = 0, rl = l, rarr = replicate l None\<rparr>"

definition index :: "Ring \<Rightarrow> nat \<Rightarrow> nat" where
  "index r i = i mod rl r"

definition Add :: "Event \<Rightarrow> Ring \<Rightarrow> Ring" where
  "Add event r =
     (let r1 = r\<lparr>rarr := (rarr r)[index r (re r) := Some event]\<rparr>;
          r2 = (if re r1 = rs r1 + rl r1 then r1\<lparr>rs := rs r1 + 1\<rparr> else r1)
      in r2\<lparr>re := re r2 + 1\<rparr>)"

definition Size :: "Ring \<Rightarrow> nat" where
  "Size r = rl r"

definition newest :: "Ring \<Rightarrow> Event option" where
  "newest r = rarr r ! index r (re r - 1)"

definition oldest :: "Ring \<Rightarrow> Event option" where
  "oldest r = rarr r ! index r (rs r)"

definition Reset :: "Ring \<Rightarrow> Ring" where
  "Reset r = r\<lparr>rs := 0, re := 0\<rparr>"

definition isEmpty :: "Ring \<Rightarrow> bool" where
  "isEmpty r \<longleftrightarrow> re r = 0"

section \<open>sort.Search and copy\<close>

text \<open>\<^verbatim>\<open>sort.Search(n, f)\<close> is \<open>search f 0 n\<close>: halve the interval until it is empty.\<close>

function search :: "(nat \<Rightarrow> bool) \<Rightarrow> nat \<Rightarrow> nat \<Rightarrow> nat" where
  "search f i j =
     (if i < j
      then let h = (i + j) div 2 in if \<not> f h then search f (h + 1) j else search f i h
      else i)"
  by pat_completeness auto
termination
  by (relation "measure (\<lambda>(f, i, j). j - i)") auto

declare search.simps [simp del]

text \<open>\<^verbatim>\<open>copy(dst, src)\<close>: the first \<open>min (len dst) (len src)\<close> elements.\<close>

definition copy :: "'a list \<Rightarrow> 'a list \<Rightarrow> 'a list" where
  "copy dst src = take (length dst) src @ drop (length src) dst"

lemma copy_full: "length src = length dst \<Longrightarrow> copy dst src = src"
  by (simp add: copy_def)

section \<open>Looking up events\<close>

record FindRet =
  fempty :: bool
  high :: bool
  low :: bool
  fnewest :: "Event option"
  foldest :: "Event option"
  fevents :: "Event option list"

definition emptyRet :: FindRet where
  "emptyRet = \<lparr>fempty = False, high = False, low = False, fnewest = None, foldest = None, fevents = []\<rparr>"

text \<open>
  \<^verbatim>\<open>FindEvents\<close>. The events of the ring are read through pointers; a nil one would be a run-time
  panic (\<open>None\<close>), as would be a slice bound out of range. (Inside the search every index is between \<^verbatim>\<open>s\<close>
  and \<^verbatim>\<open>e\<close>, where no slot is nil.)
\<close>

definition reached :: "Ring \<Rightarrow> rev \<Rightarrow> nat \<Rightarrow> bool" where
  "reached r revision i =
     (case rarr r ! index r (rs r + i) of None \<Rightarrow> False | Some ev \<Rightarrow> EvRevision ev \<ge> revision)"

definition FindEvents :: "Ring \<Rightarrow> rev \<Rightarrow> FindRet option" where
  "FindEvents r revision =
     (if isEmpty r then Some (emptyRet\<lparr>fempty := True\<rparr>)
      else case (newest r, oldest r) of
        (Some n, Some old) \<Rightarrow>
          (let ret = emptyRet\<lparr>fnewest := Some n, foldest := Some old\<rparr> in
           if revision > EvRevision n then Some (ret\<lparr>high := True\<rparr>)
           else if revision < EvRevision old then Some (ret\<lparr>low := True\<rparr>)
           else
             let idx = search (reached r revision) 0 (re r - rs r);
                 i0 = index r (rs r + idx);
                 i1 = index r (re r);
                 dst = replicate (re r - rs r - idx) None
             in if i1 > i0
                then Some (ret\<lparr>fevents := copy dst (take (i1 - i0) (drop i0 (rarr r)))\<rparr>)
                else if rl r - i0 > length dst then None
                else let d1 = copy dst (drop i0 (rarr r))
                     in Some (ret\<lparr>fevents := take (rl r - i0) d1
                                  @ copy (drop (rl r - i0) d1) (take i1 (rarr r))\<rparr>))
      | _ \<Rightarrow> None)"

section \<open>The list behind the ring\<close>

definition ring_inv :: "Ring \<Rightarrow> bool" where
  "ring_inv r \<longleftrightarrow> 0 < rl r \<and> length (rarr r) = rl r \<and> rs r \<le> re r \<and> re r - rs r \<le> rl r
     \<and> (0 < re r \<longrightarrow> rs r < re r)
     \<and> (\<forall>i. rs r \<le> i \<and> i < re r \<longrightarrow> rarr r ! (i mod rl r) \<noteq> None)"

definition ring_list :: "Ring \<Rightarrow> Event list" where
  "ring_list r = map (\<lambda>i. the (rarr r ! (i mod rl r))) [rs r..<re r]"

lemma length_ring_list [simp]: "length (ring_list r) = re r - rs r"
  by (simp add: ring_list_def)

lemma ring_list_nth: "i < re r - rs r \<Longrightarrow> ring_list r ! i = the (rarr r ! ((rs r + i) mod rl r))"
  by (simp add: ring_list_def)

lemma ring_slot:
  "ring_inv r \<Longrightarrow> i < re r - rs r \<Longrightarrow> rarr r ! ((rs r + i) mod rl r) = Some (ring_list r ! i)"
  by (auto simp: ring_inv_def ring_list_nth)

lemma NewRing_inv: "0 < l \<Longrightarrow> ring_inv (NewRing l)"
  by (simp add: ring_inv_def NewRing_def)

lemma Reset_inv: "ring_inv r \<Longrightarrow> ring_inv (Reset r) \<and> ring_list (Reset r) = []"
  by (simp add: ring_inv_def Reset_def ring_list_def)

text \<open>Two positions less than one turn apart do not share a slot.\<close>

lemma mod_neq: "(i::nat) < j \<Longrightarrow> j < i + l \<Longrightarrow> i mod l \<noteq> j mod l"
  by (metis add_diff_inverse_nat add_less_cancel_left dvd_minus_mod less_imp_not_less
      mod_eq_dvd_iff_nat nat_dvd_not_less order_less_imp_le zero_less_diff)

lemma Add_eq:
  "ring_inv r \<Longrightarrow> Add ev r = r\<lparr>rarr := (rarr r)[re r mod rl r := Some ev],
     rs := (if re r - rs r = rl r then rs r + 1 else rs r), re := re r + 1\<rparr>"
  by (auto simp: Add_def index_def Let_def ring_inv_def)

lemma Add_slot:
  assumes "ring_inv r" "rs r \<le> i" "i < re r" "re r - i < rl r"
  shows "rarr (Add ev r) ! (i mod rl r) = rarr r ! (i mod rl r)"
proof -
  have "re r < i + rl r" using assms by linarith
  then show ?thesis
    using assms mod_neq[of i "re r" "rl r"] by (auto simp: Add_eq ring_inv_def nth_list_update)
qed

lemma Add_inv:
  assumes "ring_inv r"
  shows "ring_inv (Add ev r)"
proof -
  have "rarr (Add ev r) ! (i mod rl r) \<noteq> None" if "rs (Add ev r) \<le> i" "i < re (Add ev r)" for i
  proof (cases "i = re r")
    case True
    then show ?thesis using assms by (simp add: Add_eq ring_inv_def)
  next
    case False
    then have "rs r \<le> i" "i < re r" "re r - i < rl r"
      using that assms by (auto simp: Add_eq ring_inv_def split: if_splits)
    then show ?thesis using assms Add_slot[OF assms] by (simp add: ring_inv_def)
  qed
  then show ?thesis using assms by (auto simp: ring_inv_def Add_eq)
qed

text \<open>Adding an event appends it to the list and drops the oldest one when the ring is full.\<close>

lemma ring_list_Add:
  assumes "ring_inv r"
  shows "ring_list (Add ev r) =
           (if length (ring_list r) = rl r then tl (ring_list r) else ring_list r) @ [ev]"
proof -
  let ?s = "rs (Add ev r)"
  have s: "rs r \<le> ?s" "?s \<le> re r" "re r - ?s < rl r" "re (Add ev r) = re r + 1" "rl (Add ev r) = rl r"
    using assms by (auto simp: Add_eq ring_inv_def)
  have "map (\<lambda>i. the (rarr (Add ev r) ! (i mod rl r))) [?s..<re r]
      = map (\<lambda>i. the (rarr r ! (i mod rl r))) [?s..<re r]"
    using s Add_slot[OF assms, of _ ev] by (intro map_cong) auto
  moreover have "rarr (Add ev r) ! (re r mod rl r) = Some ev"
    using assms by (simp add: Add_eq ring_inv_def)
  ultimately have "ring_list (Add ev r)
      = map (\<lambda>i. the (rarr r ! (i mod rl r))) [?s..<re r] @ [ev]"
    using s by (simp add: ring_list_def)
  moreover have "[?s..<re r] = (if re r - rs r = rl r then tl [rs r..<re r] else [rs r..<re r])"
    using assms by (auto simp: Add_eq ring_inv_def tl_upt)
  ultimately show ?thesis by (auto simp: ring_list_def map_tl[symmetric] tl_upt)
qed

lemma rl_Add [simp]: "rl (Add ev r) = rl r"
  by (simp add: Add_def Let_def)

text \<open>A ring that took the events \<open>evs\<close> holds the last \<open>l\<close> of them.\<close>

lemma tl_drop_snoc:
  assumes "0 < l" "l \<le> length L"
  shows "tl (drop (length L - l) L) @ [e] = drop (length (L @ [e]) - l) (L @ [e])"
  using assms by (simp add: tl_drop drop_Suc[symmetric] Suc_diff_le)

lemma fold_Add:
  assumes "ring_inv r"
  shows "ring_inv (fold Add evs r) \<and> rl (fold Add evs r) = rl r \<and>
         ring_list (fold Add evs r) =
           drop (length (ring_list r @ evs) - rl r) (ring_list r @ evs)"
  using assms
proof (induction evs rule: rev_induct)
  case Nil
  then have "re r - (rs r + rl r) = 0" by (auto simp: ring_inv_def)
  then show ?case using Nil by simp
next
  case (snoc ev evs)
  let ?r = "fold Add evs r"
  let ?L = "ring_list r @ evs"
  have inv: "ring_inv ?r" and l: "rl ?r = rl r" and L: "ring_list ?r = drop (length ?L - rl r) ?L"
    using snoc by auto
  have "ring_list (Add ev ?r) = drop (length (?L @ [ev]) - rl r) (?L @ [ev])"
  proof (cases "rl r \<le> length ?L")
    case True
    then have "length (ring_list ?r) = rl ?r" using L l by (metis diff_diff_cancel length_drop)
    then have "ring_list (Add ev ?r) = tl (drop (length ?L - rl r) ?L) @ [ev]"
      using ring_list_Add[OF inv] L by simp
    then show ?thesis using tl_drop_snoc[of "rl r" ?L ev] True snoc.prems by (simp only: ring_inv_def)
  next
    case False
    then have "length (ring_list ?r) \<noteq> rl ?r" using L l by (metis diff_is_0_eq' drop0 nat_le_linear order_refl)
    then show ?thesis using ring_list_Add[OF inv] L False by simp
  qed
  then show ?case using inv l Add_inv by simp
qed

section \<open>FindEvents\<close>

text \<open>Binary search finds the first index where a monotone predicate holds.\<close>

lemma search_self [simp]: "search f i i = i"
  by (simp add: search.simps)

lemma search_bounds: "i \<le> j \<Longrightarrow> i \<le> search f i j \<and> search f i j \<le> j"
proof (induction f i j rule: search.induct)
  case (1 f i j)
  show ?case
  proof (cases "i < j")
    case True
    let ?h = "(i + j) div 2"
    have "i \<le> ?h" "?h < j" using True by auto
    then show ?thesis using 1(1)[OF True refl] 1(2)[OF True refl] True
      by (cases "f ?h") (auto simp: search.simps[of f i j] Let_def)
  next
    case False
    then show ?thesis using 1(3) by simp
  qed
qed

lemma search_correct:
  assumes "\<And>a b. a \<le> b \<Longrightarrow> b < n \<Longrightarrow> f a \<Longrightarrow> f b"
    and "i \<le> j" "j \<le> n" "\<And>a. a < i \<Longrightarrow> \<not> f a" "\<And>a. j \<le> a \<Longrightarrow> a < n \<Longrightarrow> f a"
  shows "(\<forall>a < search f i j. \<not> f a) \<and> (\<forall>a. search f i j \<le> a \<and> a < n \<longrightarrow> f a)"
  using assms(2-5)
proof (induction "j - i" arbitrary: i j rule: less_induct)
  case less
  show ?case
  proof (cases "i < j")
    case True
    let ?h = "(i + j) div 2"
    have h: "i \<le> ?h" "?h < j" "?h < n" using True less.prems(2) by auto
    show ?thesis
    proof (cases "f ?h")
      case fh: True
      have e: "search f i j = search f i ?h" using True fh by (simp add: search.simps[of f i j])
      have "f a" if "?h \<le> a" "a < n" for a using assms(1)[OF that fh] .
      then show ?thesis unfolding e
        using h less.prems(3) by (intro less.hyps) auto
    next
      case fh: False
      have e: "search f i j = search f (?h + 1) j" using True fh by (simp add: search.simps[of f i j])
      have "\<not> f a" if "a < ?h + 1" for a
        using assms(1)[of a ?h] that h fh by auto
      then show ?thesis unfolding e
        using h less.prems(2,4) by (intro less.hyps) auto
    qed
  next
    case False
    then show ?thesis using less.prems by auto
  qed
qed


lemma mod_wrap:
  fixes b k l :: nat
  assumes "0 < l" "k \<le> l"
  shows "(b + k) mod l = (if b mod l + k < l then b mod l + k else b mod l + k - l)"
proof -
  have "(b + k) mod l = (b mod l + k) mod l" by (simp add: mod_add_left_eq)
  moreover have "b mod l + k - l < l" using assms mod_less_divisor[of l b] by linarith
  ultimately show ?thesis by (simp add: le_mod_geq)
qed

text \<open>The one or two \<^verbatim>\<open>copy\<close> calls read the slots \<open>b ..< b + n\<close> modulo \<open>l\<close>.\<close>

lemma ring_slice:
  fixes b l n :: nat and arr :: "'a option list"
  assumes "0 < l" "length arr = l" "0 < n" "n \<le> l"
  defines "i0 \<equiv> b mod l" and "i1 \<equiv> (b + n) mod l" and "dst \<equiv> replicate n None"
  defines "S \<equiv> map (\<lambda>j. arr ! (j mod l)) [b..<b + n]"
  shows "i1 > i0 \<Longrightarrow> copy dst (take (i1 - i0) (drop i0 arr)) = S"
    and "\<not> i1 > i0 \<Longrightarrow> take (l - i0) (copy dst (drop i0 arr))
           @ copy (drop (l - i0) (copy dst (drop i0 arr))) (take i1 arr) = S"
    and "\<not> i1 > i0 \<Longrightarrow> l - i0 \<le> n"
proof -
  have i0: "i0 < l" using assms by (simp add: i0_def)
  have w: "(b + k) mod l = (if i0 + k < l then i0 + k else i0 + k - l)" if "k \<le> n" for k
    using mod_wrap[of l k b] that assms by (simp add: i0_def)
  have i1: "i1 = (if i0 + n < l then i0 + n else i0 + n - l)" using w by (simp add: i1_def)
  { assume "i1 > i0"
    then have "i1 - i0 = n" "i0 + n < l" using i1 assms i0 by (auto split: if_splits)
    then show "copy dst (take (i1 - i0) (drop i0 arr)) = S"
      using w assms(2) by (intro nth_equalityI) (auto simp: copy_def S_def dst_def) }
  { assume "\<not> i1 > i0"
    then have n: "i0 + n = l + i1" using i1 assms i0 by (auto split: if_splits)
    then show ln: "l - i0 \<le> n" by simp
    have len: "length (copy dst (drop i0 arr)) = n" "take (l - i0) (copy dst (drop i0 arr)) = drop i0 arr"
      using assms(2) ln i0 by (auto simp: copy_def dst_def min_def)
    have i1n: "n - (l - i0) = i1" using n i0 by linarith
    have i1l: "i1 \<le> l" using assms(4) n i0 by linarith
    have "copy (drop (l - i0) (copy dst (drop i0 arr))) (take i1 arr) = take i1 arr"
      using len(1) i1n assms(2) i1l by (intro copy_full) simp
    moreover have "drop i0 arr @ take i1 arr = S"
      using w n i0 i1l assms(2) by (intro nth_equalityI) (auto simp: S_def nth_append add.commute)
    ultimately show "take (l - i0) (copy dst (drop i0 arr))
           @ copy (drop (l - i0) (copy dst (drop i0 arr))) (take i1 arr) = S"
      using len by simp }
qed

lemma newest_eq: "ring_inv r \<Longrightarrow> \<not> isEmpty r \<Longrightarrow> newest r = Some (last (ring_list r))"
  using ring_slot[of r "re r - rs r - 1"]
  by (auto simp: newest_def index_def isEmpty_def ring_inv_def last_conv_nth ring_list_def)

lemma oldest_eq: "ring_inv r \<Longrightarrow> \<not> isEmpty r \<Longrightarrow> oldest r = Some (hd (ring_list r))"
  using ring_slot[of r 0]
  by (auto simp: oldest_def index_def isEmpty_def ring_inv_def hd_conv_nth ring_list_def)

lemma isEmpty_iff: "ring_inv r \<Longrightarrow> isEmpty r \<longleftrightarrow> ring_list r = []"
  by (auto simp: isEmpty_def ring_inv_def ring_list_def)

lemma drop_filter_ge:
  assumes "sorted (map f xs)" "k \<le> length xs"
    and "\<forall>a < k. \<not> c \<le> f (xs ! a)" "\<forall>a. k \<le> a \<and> a < length xs \<longrightarrow> c \<le> f (xs ! a)"
  shows "drop k xs = filter (\<lambda>x. c \<le> f x) xs"
proof -
  have "filter (\<lambda>x. c \<le> f x) (take k xs) = []"
    using assms(2,3) by (auto simp: filter_empty_conv in_set_conv_nth)
  moreover have "filter (\<lambda>x. c \<le> f x) (drop k xs) = drop k xs"
    using assms(2,4) by (auto simp: filter_id_conv in_set_conv_nth)
  ultimately show ?thesis by (metis append_Nil append_take_drop_id filter_append)
qed


lemma FindEvents_slice:
  assumes inv: "ring_inv r" and ne: "\<not> isEmpty r"
    and rng: "\<not> revision > EvRevision (last (ring_list r))" "\<not> revision < EvRevision (hd (ring_list r))"
    and idx: "search (reached r revision) 0 (re r - rs r) = idx"
    and lt: "idx < re r - rs r"
  shows "FindEvents r revision =
    Some (emptyRet\<lparr>fnewest := Some (last (ring_list r)), foldest := Some (hd (ring_list r)),
                   fevents := map Some (drop idx (ring_list r))\<rparr>)"
proof -
  let ?n = "re r - rs r - idx"
  have l: "0 < rl r" "length (rarr r) = rl r" "?n \<le> rl r" "0 < ?n" and re: "re r = rs r + idx + ?n"
    using inv lt by (auto simp: ring_inv_def)
  have "map (\<lambda>j. rarr r ! (j mod rl r)) [rs r + idx..<rs r + idx + ?n] = map Some (drop idx (ring_list r))"
    using ring_slot[OF inv] lt by (intro nth_equalityI) (auto simp: add.assoc)
  note S = ring_slice[OF l(1,2,4,3), where b = "rs r + idx", unfolded this, folded re]
  show ?thesis
    using S rng ne newest_eq[OF inv ne] oldest_eq[OF inv ne]
    by (cases "re r mod rl r > (rs r + idx) mod rl r")
       (simp_all add: FindEvents_def Let_def idx index_def)
qed

lemma FindEvents_found:
  assumes inv: "ring_inv r" and ne: "\<not> isEmpty r"
    and srt: "sorted (map EvRevision (ring_list r))"
    and rng: "\<not> revision > EvRevision (last (ring_list r))" "\<not> revision < EvRevision (hd (ring_list r))"
  shows "FindEvents r revision =
    Some (emptyRet\<lparr>fnewest := Some (last (ring_list r)), foldest := Some (hd (ring_list r)),
                   fevents := map Some (filter (\<lambda>ev. revision \<le> EvRevision ev) (ring_list r))\<rparr>)"
proof -
  let ?L = "ring_list r"
  define f where "f = reached r revision"
  define idx where "idx = search f 0 (re r - rs r)"
  have f: "f a \<longleftrightarrow> revision \<le> EvRevision (?L ! a)" if "a < re r - rs r" for a
    using ring_slot[OF inv that] by (simp add: f_def reached_def index_def)
  have mono: "f b" if "a \<le> b" "b < re r - rs r" "f a" for a b
    using that f srt by (fastforce simp: sorted_iff_nth_mono)
  from search_correct[where f = f and n = "re r - rs r" and i = 0 and j = "re r - rs r", OF mono]
  have s: "\<forall>a < idx. \<not> f a" "\<forall>a. idx \<le> a \<and> a < re r - rs r \<longrightarrow> f a" by (auto simp: idx_def)
  have le: "idx \<le> re r - rs r" using search_bounds[of 0 "re r - rs r" f] by (simp add: idx_def)
  have L: "?L \<noteq> []" using ne inv isEmpty_iff by blast
  then have "re r - rs r - 1 < re r - rs r" by (simp flip: length_ring_list)
  then have "f (re r - rs r - 1)" using L rng(1) f[of "re r - rs r - 1"] by (auto simp: last_conv_nth)
  then have lt: "idx < re r - rs r" using s le L by (metis diff_less length_greater_0_conv length_ring_list less_one linorder_neqE_nat not_le)
  have "drop idx ?L = filter (\<lambda>ev. revision \<le> EvRevision ev) ?L"
    using s f lt by (intro drop_filter_ge[OF srt]) auto
  then show ?thesis
    using FindEvents_slice[OF inv ne rng _ lt] by (simp add: idx_def f_def)
qed


text \<open>What \<^verbatim>\<open>FindEvents\<close> promises over the list of cached events.\<close>

definition find_spec :: "Event list \<Rightarrow> rev \<Rightarrow> FindRet" where
  "find_spec L revision =
     (if L = [] then emptyRet\<lparr>fempty := True\<rparr>
      else let ret = emptyRet\<lparr>fnewest := Some (last L), foldest := Some (hd L)\<rparr> in
        if revision > EvRevision (last L) then ret\<lparr>high := True\<rparr>
        else if revision < EvRevision (hd L) then ret\<lparr>low := True\<rparr>
        else ret\<lparr>fevents := map Some (filter (\<lambda>ev. revision \<le> EvRevision ev) L)\<rparr>)"

lemma FindEvents_eq:
  assumes "ring_inv r" "sorted (map EvRevision (ring_list r))"
  shows "FindEvents r revision = Some (find_spec (ring_list r) revision)"
proof (cases "isEmpty r")
  case True
  then show ?thesis using assms isEmpty_iff by (auto simp: FindEvents_def find_spec_def)
next
  case False
  then have "ring_list r \<noteq> []" using assms isEmpty_iff by blast
  then show ?thesis
    using False FindEvents_found[OF assms(1) False assms(2)] newest_eq[OF assms(1) False] oldest_eq[OF assms(1) False]
    by (cases "revision > EvRevision (last (ring_list r)) \<or> revision < EvRevision (hd (ring_list r))")
       (auto simp: FindEvents_def find_spec_def Let_def)
qed

lemma fold_Add_NewRing:
  assumes "0 < l"
  shows "ring_inv (fold Add evs (NewRing l)) \<and> ring_list (fold Add evs (NewRing l)) = drop (length evs - l) evs"
proof -
  have "ring_list (NewRing l) = []" "rl (NewRing l) = l" by (simp_all add: ring_list_def NewRing_def)
  then show ?thesis using fold_Add[OF NewRing_inv[OF assms], of evs] by simp
qed

section \<open>Properties\<close>

definition sample_ring_event :: "rev \<Rightarrow> Event" where
  "sample_ring_event r =
     \<lparr>Type = Event_PUT, Kv = \<lparr>Key = [0x61], Value = [], Revision = r\<rparr>, EvRevision = r\<rparr>"

text \<open>C30: over the events it holds, sorted by revision as the collector adds them, \<^verbatim>\<open>FindEvents\<close> never
  panics, reports an empty cache, a revision above the newest or below the oldest event as such, and
  otherwise returns exactly the events from the revision on, in order.\<close>

theorem FindEvents_refines_list:
  assumes "0 < l" "sorted (map EvRevision evs)"
  shows "FindEvents (fold Add evs (NewRing l)) revision
         = Some (find_spec (drop (length evs - l) evs) revision)"
proof -
  let ?r = "fold Add evs (NewRing l)"
  have inv: "ring_inv ?r" and eq: "ring_list ?r = drop (length evs - l) evs"
    using fold_Add_NewRing[OF assms(1)] by auto
  have "sorted (map EvRevision (ring_list ?r))"
    using assms(2) by (simp add: eq sorted_wrt_drop drop_map[symmetric])
  then show ?thesis using FindEvents_eq[OF inv] by (simp add: eq)
qed

theorem FindEvents_refines_list_witness:
  "FindEvents (fold Add (map sample_ring_event [1, 2, 3, 4]) (NewRing 3)) 3
   = Some (emptyRet\<lparr>fnewest := Some (sample_ring_event 4), foldest := Some (sample_ring_event 2),
                    fevents := map Some (map sample_ring_event [3, 4])\<rparr>)"
proof -
  have "sorted (map EvRevision (map sample_ring_event [1, 2, 3, 4]))"
    by (simp add: sample_ring_event_def)
  from FindEvents_refines_list[OF _ this, of 3 3] show ?thesis
    by (simp add: find_spec_def sample_ring_event_def)
qed

end
