(* ===== verification/Mvcc.thy ===== *)
theory Mvcc
  imports Storage Proto
begin

text \<open>
  What the stored map means to a reader: the versions of a user key, the latest one at a revision,
  and what is visible there. The invariant \<open>mvcc_inv\<close> ties the revision key of a user key to its
  versions; \<open>put_version\<close> is the one write all operations of the backend perform.
\<close>

section \<open>Constants of \<^verbatim>\<open>pkg/backend/util.go\<close>\<close>

definition tombStoneBytes :: bytes where
  "tombStoneBytes = bytes_of_string ''tombstone''"

definition events :: bytes where
  "events = bytes_of_string ''/events/''"

definition eventsTTL :: int where
  "eventsTTL = 3600"

definition maxUint64 :: "rev \<Rightarrow> rev \<Rightarrow> rev" where
  "maxUint64 a b = (if a > b then a else b)"

definition minUint64 :: "rev \<Rightarrow> rev \<Rightarrow> rev" where
  "minUint64 a b = (if a < b then a else b)"

section \<open>Versions\<close>

definition versions_upto :: "kvmap \<Rightarrow> bytes \<Rightarrow> rev \<Rightarrow> rev set" where
  "versions_upto m k R = {r. 0 < r \<and> r \<le> R \<and> m (EncodeObjectKey k r) \<noteq> None}"

definition latest :: "kvmap \<Rightarrow> bytes \<Rightarrow> rev \<Rightarrow> rev option" where
  "latest m k R = (if versions_upto m k R = {} then None else Some (Max (versions_upto m k R)))"

definition visible :: "kvmap \<Rightarrow> bytes \<Rightarrow> rev \<Rightarrow> (bytes \<times> rev) option" where
  "visible m k R =
     (case latest m k R of
        None \<Rightarrow> None
      | Some r \<Rightarrow> (case m (EncodeObjectKey k r) of
                    None \<Rightarrow> None
                  | Some v \<Rightarrow> if v = tombStoneBytes then None else Some (v, r)))"

lemma latest_Some_iff:
  "latest m k R = Some r \<longleftrightarrow>
     0 < r \<and> r \<le> R \<and> m (EncodeObjectKey k r) \<noteq> None
     \<and> (\<forall>r'. r < r' \<and> r' \<le> R \<longrightarrow> m (EncodeObjectKey k r') = None)"
proof -
  let ?S = "versions_upto m k R"
  have fin: "finite ?S" by simp
  have "Max ?S = r \<longleftrightarrow> r \<in> ?S \<and> (\<forall>r' \<in> ?S. r' \<le> r)" if "?S \<noteq> {}"
    using Max_eq_iff[OF fin that, of r] by auto
  moreover have "(\<forall>r' \<in> ?S. r' \<le> r) \<longleftrightarrow> (\<forall>r'. r < r' \<and> r' \<le> R \<longrightarrow> m (EncodeObjectKey k r') = None)"
    if "0 < r"
  proof -
    have "0 < r'" if "r < r'" for r' using \<open>0 < r\<close> that by simp
    then show ?thesis by (fastforce simp: versions_upto_def not_le[symmetric])
  qed
  ultimately show ?thesis
    by (cases "?S = {}") (auto simp: latest_def versions_upto_def)
qed

lemma latest_None_iff:
  "latest m k R = None \<longleftrightarrow> (\<forall>r. 0 < r \<and> r \<le> R \<longrightarrow> m (EncodeObjectKey k r) = None)"
  by (auto simp: latest_def versions_upto_def)

lemma visible_Some_iff:
  "visible m k R = Some (v, r) \<longleftrightarrow>
     latest m k R = Some r \<and> m (EncodeObjectKey k r) = Some v \<and> v \<noteq> tombStoneBytes"
  by (auto simp: visible_def split: option.splits)

lemma visible_None_iff:
  "visible m k R = None \<longleftrightarrow>
     (\<forall>r. latest m k R = Some r \<longrightarrow> m (EncodeObjectKey k r) = Some tombStoneBytes)"
proof (cases "latest m k R")
  case (Some r)
  then have "m (EncodeObjectKey k r) \<noteq> None" by (simp add: latest_Some_iff)
  then show ?thesis using Some by (auto simp: visible_def split: if_splits)
qed (simp add: visible_def)

lemma visible_bounds: "visible m k R = Some (v, r) \<Longrightarrow> 0 < r \<and> r \<le> R"
  by (auto simp: visible_Some_iff latest_Some_iff)

lemma latest_cong:
  assumes "\<And>r. 0 < r \<Longrightarrow> r \<le> R \<Longrightarrow> m (EncodeObjectKey k r) = m' (EncodeObjectKey k r)"
  shows "latest m k R = latest m' k R"
proof -
  have "versions_upto m k R = versions_upto m' k R" using assms by (auto simp: versions_upto_def)
  then show ?thesis by (simp add: latest_def)
qed

lemma visible_cong:
  assumes "\<And>r. 0 < r \<Longrightarrow> r \<le> R \<Longrightarrow> m (EncodeObjectKey k r) = m' (EncodeObjectKey k r)"
  shows "visible m k R = visible m' k R"
proof -
  have eq: "latest m k R = latest m' k R" using assms by (intro latest_cong) auto
  show ?thesis
  proof (cases "latest m k R")
    case (Some r)
    then have "m (EncodeObjectKey k r) = m' (EncodeObjectKey k r)"
      using assms by (auto simp: latest_Some_iff)
    then show ?thesis using eq[symmetric] Some by (simp add: visible_def)
  qed (use eq in \<open>simp add: visible_def\<close>)
qed

section \<open>Writing a version\<close>

text \<open>The value of a revision key: the revision, with a trailing zero byte once the key is deleted.\<close>

definition index_val :: "rev \<Rightarrow> bool \<Rightarrow> bytes" where
  "index_val r deleted = uint64ToBytes r @ (if deleted then [0] else [])"

definition put_version :: "bytes \<Rightarrow> rev \<Rightarrow> bool \<Rightarrow> bytes \<Rightarrow> kvmap \<Rightarrow> kvmap" where
  "put_version k r deleted v m =
     m(EncodeRevisionKey k \<mapsto> index_val r deleted, EncodeObjectKey k r \<mapsto> v)"

lemma ParseRevision_index_val [simp]: "ParseRevision (index_val r d) = Inr (r, d)"
  by (cases d) (simp_all add: index_val_def)

lemma index_val_inject [simp]: "index_val r d = index_val r' d' \<longleftrightarrow> r = r' \<and> d = d'"
proof
  assume "index_val r d = index_val r' d'"
  then have "ParseRevision (index_val r d) = ParseRevision (index_val r' d')" by (rule arg_cong)
  then show "r = r' \<and> d = d'" by simp
qed simp

lemma put_version_object:
  "r' \<noteq> 0 \<Longrightarrow> put_version k r d v m (EncodeObjectKey k' r') =
     (if k' = k \<and> r' = r then Some v else m (EncodeObjectKey k' r'))"
  by (auto simp: put_version_def EncodeRevisionKey_def)

lemma put_version_index:
  "r \<noteq> 0 \<Longrightarrow> put_version k r d v m (EncodeRevisionKey k') =
     (if k' = k then Some (index_val r d) else m (EncodeRevisionKey k'))"
  by (auto simp: put_version_def EncodeRevisionKey_def)

definition fresh_for :: "kvmap \<Rightarrow> bytes \<Rightarrow> rev \<Rightarrow> bool" where
  "fresh_for m k r \<longleftrightarrow> 0 < r \<and> (\<forall>r'. r \<le> r' \<longrightarrow> m (EncodeObjectKey k r') = None)"

lemma put_version_later:
  assumes "fresh_for m k r" "r < r'"
  shows "put_version k r d v m (EncodeObjectKey k r') = None"
proof -
  have "r' \<noteq> 0" "r' \<noteq> r" using assms by auto
  then show ?thesis using assms by (simp add: put_version_object fresh_for_def)
qed

lemma visible_put_version:
  assumes "fresh_for m k r"
  shows "visible (put_version k r d v m) k' R =
    (if k' = k \<and> r \<le> R then (if v = tombStoneBytes then None else Some (v, r)) else visible m k' R)"
proof (cases "k' = k \<and> r \<le> R")
  case True
  have "latest (put_version k r d v m) k R = Some r"
    using assms True put_version_later[OF assms]
    by (auto simp: latest_Some_iff fresh_for_def put_version_object)
  then show ?thesis using assms True by (auto simp: visible_def fresh_for_def put_version_object)
next
  case False
  then show ?thesis by (auto intro!: visible_cong simp: put_version_object)
qed

section \<open>The store invariant\<close>

text \<open>
  Every stored key that starts with the magic bytes is the encoding of a user key whose bytes are all
  above the separator; what the backend stores beside them (the compaction record, the election
  record) is long enough to be told apart.

  The revision key of a user key names its newest version: with no deletion flag that version is
  visible, with one nothing is. A user key with no revision key has nothing visible either (what is
  left of it is waiting to be compacted).
\<close>

definition wf_store :: "kvmap \<Rightarrow> bool" where
  "wf_store m \<longleftrightarrow>
     (\<forall>ik. m ik \<noteq> None \<longrightarrow> (\<exists>k r. wf_key k \<and> ik = EncodeObjectKey k r)
                         \<or> (4 \<le> length ik \<and> take 4 ik \<noteq> magicBytes))"

definition index_names :: "kvmap \<Rightarrow> bytes \<Rightarrow> rev \<Rightarrow> bool \<Rightarrow> bool" where
  "index_names m k r d \<longleftrightarrow> 0 < r \<and> (\<forall>r' > r. m (EncodeObjectKey k r') = None)
     \<and> (d \<longrightarrow> visible m k MaxUint64 = None)
     \<and> (\<not> d \<longrightarrow> (\<exists>v. visible m k MaxUint64 = Some (v, r)))"

definition index_ok :: "kvmap \<Rightarrow> bytes \<Rightarrow> bool" where
  "index_ok m k \<longleftrightarrow>
     (case m (EncodeRevisionKey k) of
        None \<Rightarrow> visible m k MaxUint64 = None
      | Some bs \<Rightarrow> \<exists>r d. bs = index_val r d \<and> index_names m k r d)"

definition mvcc_inv :: "kvmap \<Rightarrow> bool" where
  "mvcc_inv m \<longleftrightarrow> wf_store m \<and> (\<forall>k. wf_key k \<longrightarrow> index_ok m k)"

lemma le_MaxUint64 [simp]: "(r :: rev) \<le> MaxUint64"
  by (simp add: MaxUint64_def)

lemma wf_store_put_version:
  "wf_store m \<Longrightarrow> wf_key k \<Longrightarrow> wf_store (put_version k r d v m)"
  unfolding wf_store_def put_version_def EncodeRevisionKey_def by auto

lemma index_ok_put_version:
  assumes fr: "fresh_for m k r" and ok: "index_ok m k'" and d: "d \<longleftrightarrow> v = tombStoneBytes"
  shows "index_ok (put_version k r d v m) k'"
proof (cases "k' = k")
  case True
  have r: "0 < r" using fr by (simp add: fresh_for_def)
  have "index_names (put_version k r d v m) k r d"
    unfolding index_names_def using r put_version_later[OF fr] visible_put_version[OF fr, of d v k MaxUint64] d
    by auto
  then show ?thesis using True r by (auto simp: index_ok_def put_version_index)
next
  case False
  have "put_version k r d v m (EncodeObjectKey k' r') = m (EncodeObjectKey k' r')" for r'
    using False by (simp add: put_version_def EncodeRevisionKey_def)
  moreover have "visible (put_version k r d v m) k' MaxUint64 = visible m k' MaxUint64"
    using visible_put_version[OF fr] False by simp
  ultimately have "index_names (put_version k r d v m) k' = index_names m k'"
    by (simp add: index_names_def fun_eq_iff)
  then show ?thesis
    using ok False put_version_index[of r k d v m k'] fr visible_put_version[OF fr, of d v k' MaxUint64]
    by (auto simp: index_ok_def fresh_for_def split: option.splits)
qed

lemma mvcc_inv_put_version:
  assumes "mvcc_inv m" "fresh_for m k r" "wf_key k" "d \<longleftrightarrow> v = tombStoneBytes"
  shows "mvcc_inv (put_version k r d v m)"
  using assms by (auto simp: mvcc_inv_def wf_store_put_version index_ok_put_version)


lemma mvcc_inv_empty: "mvcc_inv Map.empty"
  by (simp add: mvcc_inv_def wf_store_def index_ok_def visible_None_iff latest_Some_iff)

lemma fresh_for_empty: "0 < r \<Longrightarrow> fresh_for Map.empty k r"
  by (simp add: fresh_for_def)

end
