(* ===== verification/Tso.thy ===== *)
theory Tso
  imports KB_Prelude
begin

text \<open>
  \<^verbatim>\<open>pkg/backend/tso/tso.go\<close>: the revision allocator. Each operation is one definition; the atomic
  instructions of \<^verbatim>\<open>Commit\<close> are taken together.
\<close>

record naiveTSO =
  committedRevision :: rev
  dealRevision :: rev

definition NewTSO :: naiveTSO where
  "NewTSO = \<lparr>committedRevision = 0, dealRevision = 0\<rparr>"

definition GetRevision :: "naiveTSO \<Rightarrow> rev" where
  "GetRevision n = committedRevision n"

definition Deal :: "naiveTSO \<Rightarrow> (error + rev) \<times> naiveTSO" where
  "Deal n = (Inr (dealRevision n + 1), n\<lparr>dealRevision := dealRevision n + 1\<rparr>)"

definition Commit :: "rev \<Rightarrow> naiveTSO \<Rightarrow> naiveTSO" where
  "Commit revision n =
     (let n1 = n\<lparr>committedRevision := revision\<rparr>;
          preTSO = dealRevision n1
      in if preTSO < revision then n1\<lparr>dealRevision := revision\<rparr> else n1)"

definition Init :: "rev \<Rightarrow> naiveTSO \<Rightarrow> naiveTSO" where
  "Init start n = n\<lparr>committedRevision := start, dealRevision := start\<rparr>"

text \<open>No committed revision is ahead of the dealt ones, whatever is committed.\<close>

definition tso_inv :: "naiveTSO \<Rightarrow> bool" where
  "tso_inv n \<longleftrightarrow> committedRevision n \<le> dealRevision n"

lemma NewTSO_inv: "tso_inv NewTSO"
  by (simp add: tso_inv_def NewTSO_def)

lemma Init_inv: "tso_inv (Init start n)"
  by (simp add: tso_inv_def Init_def)

lemma Commit_inv: "tso_inv (Commit r n)"
  by (auto simp: tso_inv_def Commit_def Let_def)

lemma unat_MaxUint64: "unat MaxUint64 = 2 ^ 64 - 1"
  by (simp add: MaxUint64_def unsigned_minus_1_eq_mask mask_eq_exp_minus_1)

lemma unat_succ:
  assumes "(d :: rev) < MaxUint64"
  shows "unat (d + 1) = unat d + 1"
proof -
  have "unat d < 2 ^ 64 - 1" using assms by (simp add: word_less_nat_alt unat_MaxUint64)
  then show ?thesis by (simp add: unat_word_ariths)
qed

lemma succ_greater: "(d :: rev) < MaxUint64 \<Longrightarrow> d < d + 1"
  by (simp add: word_less_nat_alt unat_succ)

lemma Deal_inv: "tso_inv n \<Longrightarrow> dealRevision n < MaxUint64 \<Longrightarrow> tso_inv (snd (Deal n))"
  using succ_greater[of "dealRevision n"] by (auto simp: tso_inv_def Deal_def)

end
