(* ===== verification/RetryQueue.thy ===== *)
theory RetryQueue
  imports Proto
begin

text \<open>
  \<^verbatim>\<open>pkg/backend/retry/queue.go\<close>: the linked queue of uncertain operations. The nodes live in an
  explicit store of addresses, as \<^verbatim>\<open>push\<close> links a new node behind the node \<^verbatim>\<open>tail\<close> points to. The
  locale \<open>fifo\<close> is the contract its clients use; \<open>events_of\<close> is the list the queue stands for.
\<close>

section \<open>The contract of a FIFO queue\<close>

locale fifo =
  fixes inv :: "'q \<Rightarrow> bool"
    and content :: "'q \<Rightarrow> 'e list"
    and enq :: "'e \<Rightarrow> 'q \<Rightarrow> 'q"
    and deq :: "'q \<Rightarrow> 'q"
    and front :: "'q \<Rightarrow> 'e option"
  assumes enq_inv: "inv q \<Longrightarrow> inv (enq e q)"
    and enq_content: "inv q \<Longrightarrow> content (enq e q) = content q @ [e]"
    and deq_inv: "inv q \<Longrightarrow> content q \<noteq> [] \<Longrightarrow> inv (deq q)"
    and deq_content: "inv q \<Longrightarrow> content q \<noteq> [] \<Longrightarrow> content (deq q) = tl (content q)"
    and front_content: "inv q \<Longrightarrow> front q = (if content q = [] then None else Some (hd (content q)))"
begin

text \<open>A queue sorted by some measure stays sorted, and its front is the least element.\<close>

lemma sorted_enq:
  assumes "inv q" "sorted_wrt (<) (map f (content q))" "\<And>x. x \<in> set (content q) \<Longrightarrow> f x < f e"
  shows "sorted_wrt (<) (map f (content (enq e q)))"
  using assms by (auto simp: enq_content sorted_wrt_append)

lemma sorted_deq:
  assumes "inv q" "sorted_wrt (<) (map f (content q))" "content q \<noteq> []"
  shows "sorted_wrt (<) (map f (content (deq q)))"
  using assms by (cases "content q") (auto simp: deq_content)

lemma front_least:
  assumes "inv q" "sorted_wrt (<) (map f (content q))" "x \<in> set (content q)"
  shows "\<exists>y. front q = Some y \<and> (f y :: 'o :: linorder) \<le> f x"
  using assms by (cases "content q") (auto simp: front_content)

text \<open>Everything comes out in the order it went in.\<close>

lemma fold_enq: "inv q \<Longrightarrow> inv (fold enq es q) \<and> content (fold enq es q) = content q @ es"
  by (induction es arbitrary: q) (auto simp: enq_inv enq_content)

lemma deq_all: "inv q \<Longrightarrow> n \<le> length (content q) \<Longrightarrow>
    inv ((deq ^^ n) q) \<and> content ((deq ^^ n) q) = drop n (content q)"
proof (induction n)
  case (Suc n)
  then have "inv ((deq ^^ n) q)" "content ((deq ^^ n) q) = drop n (content q)" by auto
  moreover from this have "content ((deq ^^ n) q) \<noteq> []" using Suc.prems by simp
  ultimately show ?case by (simp add: deq_inv deq_content tl_drop drop_Suc)
qed simp

lemma fifo_order:
  assumes "inv q" "content q = []" "n < length es"
  shows "front ((deq ^^ n) (fold enq es q)) = Some (es ! n)"
  using assms fold_enq[OF assms(1), of es] deq_all[of "fold enq es q" n]
  by (simp add: front_content hd_drop_conv_nth)

end

section \<open>The linked queue\<close>

text \<open>\<open>nodes\<close> is the store of nodes, \<open>alloc\<close> the next free address; times are in nanoseconds.\<close>

record eventNode =
  event :: WatchEvent
  time :: int
  next_node :: "nat option"

record eventQueue =
  queueSize :: int
  head :: "nat option"
  tail :: "nat option"
  nodes :: "nat \<Rightarrow> eventNode option"
  alloc :: nat

definition emptyQueue :: eventQueue where
  "emptyQueue = \<lparr>queueSize = 0, head = None, tail = None, nodes = \<lambda>a. None, alloc = 0\<rparr>"

definition size_queue :: "eventQueue \<Rightarrow> int" where
  "size_queue e = queueSize e"

definition newEventNode :: "WatchEvent \<Rightarrow> int \<Rightarrow> eventNode" where
  "newEventNode ev now = \<lparr>event = ev, time = now, next_node = None\<rparr>"

definition push :: "WatchEvent \<times> int \<Rightarrow> eventQueue \<Rightarrow> eventQueue" where
  "push et e =
     (let node = alloc e;
          e1 = e\<lparr>nodes := (nodes e)(node \<mapsto> newEventNode (fst et) (snd et)), alloc := node + 1\<rparr>;
          e2 = e1\<lparr>queueSize := queueSize e1 + 1\<rparr>;
          e3 = (if head e2 = None then e2\<lparr>head := Some node\<rparr> else e2);
          e4 = (case tail e3 of
                  None \<Rightarrow> e3
                | Some t \<Rightarrow> e3\<lparr>nodes := (nodes e3)
                    (t := map_option (\<lambda>nd. nd\<lparr>next_node := Some node\<rparr>) (nodes e3 t))\<rparr>)
      in e4\<lparr>tail := Some node\<rparr>)"

text \<open>\<^verbatim>\<open>e.head.next\<close> dereferences \<^verbatim>\<open>head\<close>; the callers pop only after they saw a head.\<close>

definition pop :: "eventQueue \<Rightarrow> eventQueue" where
  "pop e =
     (let e1 = e\<lparr>queueSize := queueSize e - 1\<rparr> in
      if queueSize e1 = 0 then e1\<lparr>head := None, tail := None\<rparr>
      else e1\<lparr>head := (case head e1 of None \<Rightarrow> None
                       | Some h \<Rightarrow> (case nodes e1 h of None \<Rightarrow> None | Some nd \<Rightarrow> next_node nd))\<rparr>)"

definition getHead :: "eventQueue \<Rightarrow> (WatchEvent \<times> int) option" where
  "getHead e =
     (case head e of None \<Rightarrow> None
      | Some h \<Rightarrow> map_option (\<lambda>nd. (event nd, time nd)) (nodes e h))"

section \<open>The list behind the links\<close>

text \<open>\<open>chain ns as\<close>: the addresses \<open>as\<close> are linked in this order, the last one to nothing.\<close>

fun chain :: "(nat \<Rightarrow> eventNode option) \<Rightarrow> nat list \<Rightarrow> bool" where
  "chain ns [] \<longleftrightarrow> True"
| "chain ns [a] \<longleftrightarrow> (\<exists>nd. ns a = Some nd \<and> next_node nd = None)"
| "chain ns (a # b # as) \<longleftrightarrow> (\<exists>nd. ns a = Some nd \<and> next_node nd = Some b) \<and> chain ns (b # as)"

fun follow :: "(nat \<Rightarrow> eventNode option) \<Rightarrow> nat \<Rightarrow> nat option \<Rightarrow> nat list" where
  "follow ns 0 p = []"
| "follow ns (Suc n) None = []"
| "follow ns (Suc n) (Some a) =
     a # (case ns a of None \<Rightarrow> [] | Some nd \<Rightarrow> follow ns n (next_node nd))"

definition addrs :: "eventQueue \<Rightarrow> nat list" where
  "addrs e = follow (nodes e) (nat (queueSize e)) (head e)"

definition entry :: "(nat \<Rightarrow> eventNode option) \<Rightarrow> nat \<Rightarrow> WatchEvent \<times> int" where
  "entry ns a = (event (the (ns a)), time (the (ns a)))"

definition entries :: "eventQueue \<Rightarrow> (WatchEvent \<times> int) list" where
  "entries e = map (entry (nodes e)) (addrs e)"

definition queue_inv :: "eventQueue \<Rightarrow> bool" where
  "queue_inv e \<longleftrightarrow> (let as = addrs e in
     queueSize e = int (length as) \<and> chain (nodes e) as \<and> distinct as \<and> (\<forall>a \<in> set as. a < alloc e)
     \<and> head e = (if as = [] then None else Some (hd as))
     \<and> tail e = (if as = [] then None else Some (last as)))"

lemma chain_nodes: "chain ns as \<Longrightarrow> a \<in> set as \<Longrightarrow> \<exists>nd. ns a = Some nd"
  by (induction ns as rule: chain.induct) auto

lemma follow_chain:
  "chain ns as \<Longrightarrow> follow ns (length as) (if as = [] then None else Some (hd as)) = as"
proof (induction ns as rule: chain.induct)
  case (2 ns a)
  then show ?case by auto
qed auto

lemma chain_cong: "chain ns as \<Longrightarrow> (\<And>a. a \<in> set as \<Longrightarrow> ns' a = ns a) \<Longrightarrow> chain ns' as"
  by (induction ns as rule: chain.induct) auto

lemma chain_snoc:
  assumes "chain ns as" "distinct as" "as \<noteq> []" "n \<notin> set as" "next_node nd = None"
  shows "chain ((ns(n \<mapsto> nd))(last as := map_option (\<lambda>x. x\<lparr>next_node := Some n\<rparr>) ((ns(n \<mapsto> nd)) (last as))))
           (as @ [n])"
  using assms
proof (induction ns as rule: chain.induct)
  case (3 ns a b as)
  then have "a \<noteq> last (b # as)" by (metis distinct.simps(2) last_in_set list.distinct(1))
  then show ?case using 3 by auto
qed auto

text \<open>The witness form of the invariant: some address list satisfies it.\<close>

lemma queue_invI:
  assumes "queueSize e = int (length as)" "chain (nodes e) as" "distinct as" "\<forall>a \<in> set as. a < alloc e"
    and "head e = (if as = [] then None else Some (hd as))"
    and "tail e = (if as = [] then None else Some (last as))"
  shows "queue_inv e \<and> addrs e = as"
proof -
  have "addrs e = as" using follow_chain[OF assms(2)] assms(1,5) by (simp add: addrs_def)
  then show ?thesis using assms by (simp add: queue_inv_def Let_def)
qed


lemma emptyQueue_inv: "queue_inv emptyQueue \<and> entries emptyQueue = []"
  by (simp add: queue_inv_def entries_def addrs_def emptyQueue_def)

lemma entry_link [simp]:
  "entry (ns(t := map_option (\<lambda>x. x\<lparr>next_node := p\<rparr>) (ns t))) a = entry ns a" if "ns a \<noteq> None"
  using that by (auto simp: entry_def)

lemma push_empty:
  assumes "queue_inv e" "addrs e = []"
  shows "queue_inv (push et e) \<and> entries (push et e) = [et]"
proof -
  have e: "head e = None" "tail e = None" "queueSize e = 0" using assms by (auto simp: queue_inv_def)
  have "queue_inv (push et e) \<and> addrs (push et e) = [alloc e]"
    using e by (intro queue_invI) (simp_all add: push_def newEventNode_def Let_def)
  then show ?thesis using e by (simp add: entries_def entry_def push_def newEventNode_def Let_def)
qed

lemma push_nonempty:
  assumes "queue_inv e" "addrs e \<noteq> []"
  shows "queue_inv (push et e) \<and> entries (push et e) = entries e @ [et]"
proof -
  let ?as = "addrs e" and ?n = "alloc e" and ?nd = "newEventNode (fst et) (snd et)"
  let ?ns = "((nodes e)(?n \<mapsto> ?nd))
     (last ?as := map_option (\<lambda>x. x\<lparr>next_node := Some ?n\<rparr>) (((nodes e)(?n \<mapsto> ?nd)) (last ?as)))"
  have I: "queueSize e = int (length ?as)" "chain (nodes e) ?as" "distinct ?as" "\<forall>a \<in> set ?as. a < ?n"
    "head e = Some (hd ?as)" "tail e = Some (last ?as)"
    using assms by (auto simp: queue_inv_def Let_def)
  then have n: "?n \<notin> set ?as" by blast
  have p: "push et e = e\<lparr>nodes := ?ns, alloc := ?n + 1, queueSize := queueSize e + 1, tail := Some ?n\<rparr>"
    using I by (simp add: push_def Let_def)
  have "chain ?ns (?as @ [?n])"
    using chain_snoc[OF I(2,3) assms(2) n] by (simp add: newEventNode_def)
  then have "queue_inv (push et e) \<and> addrs (push et e) = ?as @ [?n]"
    using I n assms(2) unfolding p by (intro queue_invI) auto
  moreover have "entry ?ns a = entry (nodes e) a" if "a \<in> set ?as" for a
    using chain_nodes[OF I(2) that] n that by (auto simp: entry_def)
  moreover have "entry ?ns ?n = et"
    using n assms(2) last_in_set[OF assms(2)] by (auto simp: entry_def newEventNode_def)
  ultimately show ?thesis unfolding entries_def p by simp
qed

lemma pop_refines:
  assumes "queue_inv e" "entries e \<noteq> []"
  shows "queue_inv (pop e) \<and> entries (pop e) = tl (entries e)"
proof -
  obtain a as where as: "addrs e = a # as" using assms(2) by (cases "addrs e") (auto simp: entries_def)
  then have I: "queueSize e = int (length (a # as))" "chain (nodes e) (a # as)" "distinct (a # as)"
    "\<forall>a \<in> set (a # as). a < alloc e" "head e = Some a" "tail e = Some (last (a # as))"
    using assms(1) by (auto simp: queue_inv_def Let_def)
  have "queue_inv (pop e) \<and> addrs (pop e) = as"
  proof (cases as)
    case Nil
    then show ?thesis using I by (intro queue_invI) (simp_all add: pop_def Let_def)
  next
    case (Cons b bs)
    then obtain nd where "nodes e a = Some nd" "next_node nd = Some b" using I by auto
    then show ?thesis using I Cons by (intro queue_invI) (auto simp: pop_def Let_def)
  qed
  moreover have "nodes (pop e) = nodes e" by (simp add: pop_def Let_def)
  ultimately show ?thesis using as by (simp add: entries_def)
qed

lemma getHead_refines:
  assumes "queue_inv e"
  shows "getHead e = (if entries e = [] then None else Some (hd (entries e)))"
proof (cases "addrs e")
  case (Cons a as)
  then have "head e = Some a" "chain (nodes e) (a # as)" using assms by (auto simp: queue_inv_def Let_def)
  then show ?thesis using Cons chain_nodes[of "nodes e" "a # as" a]
    by (auto simp: getHead_def entries_def entry_def)
qed (use assms in \<open>auto simp: queue_inv_def getHead_def entries_def Let_def\<close>)

interpretation rq: fifo queue_inv entries push pop getHead
proof (unfold_locales, goal_cases)
  case (1 q e)
  then show ?case using push_empty push_nonempty by (cases "addrs q = []") blast+
next
  case (2 q e)
  then show ?case using push_empty[OF 2] push_nonempty[OF 2] by (cases "addrs q = []") (auto simp: entries_def)
qed (use pop_refines getHead_refines in auto)

lemma size_entries: "queue_inv e \<Longrightarrow> size_queue e = int (length (entries e))"
  by (auto simp: queue_inv_def Let_def size_queue_def entries_def)

section \<open>Property\<close>

text \<open>The linked retry queue is a FIFO queue: after pushing \<open>es\<close> into an empty queue, the head that is
  seen after \<open>n\<close> pops is the \<open>n\<close>-th of them, and the size is what is left.\<close>

lemma retry_queue_fifo:
  assumes "n < length es"
  shows "getHead ((pop ^^ n) (fold push es emptyQueue)) = Some (es ! n)
    \<and> size_queue ((pop ^^ n) (fold push es emptyQueue)) = int (length es - n)"
proof -
  have e: "queue_inv emptyQueue" "entries emptyQueue = []" using emptyQueue_inv by auto
  have f: "queue_inv (fold push es emptyQueue)" "entries (fold push es emptyQueue) = es"
    using rq.fold_enq[OF e(1), of es] e(2) by auto
  then show ?thesis
    using rq.fifo_order[OF e assms] rq.deq_all[of "fold push es emptyQueue" n] assms
    by (simp add: size_entries)
qed

end
