(* ===== verification/Range.thy ===== *)
theory Range
  imports Mvcc Tso MemKV
begin

text \<open>
  The point reads of \<^verbatim>\<open>pkg/backend/range.go\<close>: \<^verbatim>\<open>getInternalVal\<close>, which looks for the newest version
  of a key by one step of a reverse iterator, and \<^verbatim>\<open>get\<close>, which hides tombstones. Go's triple
  \<^verbatim>\<open>(val, modRevision, err)\<close> is a triple here, with \<open>None\<close> for a nil value and a nil error.
\<close>

type_synonym get_ret = "bytes option \<times> rev \<times> error option"

definition getInternalVal ::
    "'s kv_storage \<Rightarrow> 's \<Rightarrow> bytes \<Rightarrow> rev \<Rightarrow> (get_ret \<times> 's) option" where
  "getInternalVal kv s key revision =
     (let revision = (if revision = 0 then MaxUint64 else revision);
          startKey = EncodeObjectKey key revision;
          endKey = EncodeObjectKey key 0;
          (it, s1) = kv_Iter kv s startKey endKey 0 1
      in case it of
           Inl err \<Rightarrow> Some ((None, 0, Some err), s1)
         | Inr ([], err) \<Rightarrow>
             if err = EOF then Some ((None, 0, Some ErrKeyNotFound), s1)
             else Some ((None, 0, Some err), s1)
         | Inr ((ik, val) # _, _) \<Rightarrow>
             (case Decode ik of
                None \<Rightarrow> None
              | Some (Inl _) \<Rightarrow> Some ((None, 0, Some ErrKeyNotFound), s1)
              | Some (Inr (userKey, modRev)) \<Rightarrow>
                  if modRev = 0 \<or> userKey \<noteq> key then Some ((None, 0, Some ErrKeyNotFound), s1)
                  else Some ((Some val, modRev, None), s1)))"

definition getLatestInternalVal :: "'s kv_storage \<Rightarrow> 's \<Rightarrow> bytes \<Rightarrow> (get_ret \<times> 's) option" where
  "getLatestInternalVal kv s key = getInternalVal kv s key 0"

definition get :: "'s kv_storage \<Rightarrow> 's \<Rightarrow> bytes \<Rightarrow> rev \<Rightarrow> (get_ret \<times> 's) option" where
  "get kv s key revision =
     (case getInternalVal kv s key revision of
        None \<Rightarrow> None
      | Some ((val, modRevision, err), s1) \<Rightarrow>
          if val = Some tombStoneBytes then Some ((None, modRevision, Some ErrKeyNotFound), s1)
          else Some ((val, modRevision, err), s1))"

section \<open>The reverse range of a user key\<close>

lemma reverse_range_Cons:
  assumes "finite (dom m)" "reverse_range m a b = (k, v) # rest"
  shows "m k = Some v \<and> b < k \<and> k \<le> a \<and> (\<forall>j w. m j = Some w \<and> b < j \<and> j \<le> a \<longrightarrow> j \<le> k)"
proof -
  have eq: "entries_of m {b<..a} = rev rest @ [(k, v)]"
    using assms(2) unfolding reverse_range_def by (simp add: rev_swap)
  then have "(k, v) \<in> set (entries_of m {b<..a})" by simp
  then have "m k = Some v" "b < k" "k \<le> a" using assms(1) by auto
  moreover have "j \<le> k" if "m j = Some w" "b < j" "j \<le> a" for j w
  proof -
    have "(j, w) \<in> set (rev rest @ [(k, v)])" using that assms(1) eq[symmetric] by auto
    moreover have "\<forall>x \<in> set rest. fst x < k"
      using sorted_entries_of[of m "{b<..a}"] by (auto simp: eq sorted_wrt_append)
    ultimately show ?thesis by fastforce
  qed
  ultimately show ?thesis by blast
qed

lemma reverse_range_Nil:
  assumes "finite (dom m)" "reverse_range m a b = []"
  shows "b < j \<Longrightarrow> j \<le> a \<Longrightarrow> m j = None"
proof (rule ccontr)
  assume j: "b < j" "j \<le> a" "m j \<noteq> None"
  then obtain w where "m j = Some w" by blast
  then have "(j, w) \<in> set (entries_of m {b<..a})" using j assms(1) by simp
  then show False using assms(2) by (simp add: reverse_range_def)
qed

lemma between_versions:
  assumes "wf_store m" "wf_key k" "m ik \<noteq> None" "EncodeObjectKey k 0 < ik" "ik \<le> EncodeObjectKey k R"
  shows "\<exists>r. ik = EncodeObjectKey k r \<and> 0 < r \<and> r \<le> R"
proof -
  let ?a = "magicBytes @ k @ [splitByte]"
  have "\<exists>t. ik = ?a @ t"
  proof (cases "ik = EncodeObjectKey k R")
    case False
    then have "?a @ uint64ToBytes 0 \<le> ik" "ik < ?a @ uint64ToBytes R"
      using assms(4,5) by (auto simp: EncodeObjectKey_def)
    from between_append[OF this] show ?thesis by blast
  qed (simp add: EncodeObjectKey_def)
  then have "take 4 ik = magicBytes" by (auto simp: take_append)
  then obtain k' r where k': "wf_key k'" "ik = EncodeObjectKey k' r"
    using assms(1,3) unfolding wf_store_def by blast
  then have "k < k' \<or> k = k' \<and> 0 < r" "k' < k \<or> k' = k \<and> r \<le> R"
    using assms(2,4,5) by (simp_all add: EncodeObjectKey_less_iff EncodeObjectKey_le_iff)
  then show ?thesis using k' by (metis order_less_asym)
qed

lemma Enc_zero_less: "0 < R \<Longrightarrow> EncodeObjectKey k 0 < EncodeObjectKey k R"
  by (simp add: EncodeObjectKey_def)

lemma Enc_le_same: "EncodeObjectKey k r \<le> EncodeObjectKey k R \<longleftrightarrow> r \<le> R"
  by (metis EncodeObjectKey_def append_less_cancel linorder_not_le uint64ToBytes_less_iff)

lemma reverse_range_latest:
  assumes "finite (dom m)" "wf_store m" "wf_key k" "0 < R"
  shows "(case reverse_range m (EncodeObjectKey k R) (EncodeObjectKey k 0) of
            [] \<Rightarrow> latest m k R = None
          | (ik, v) # rest \<Rightarrow> \<exists>r. ik = EncodeObjectKey k r \<and> latest m k R = Some r \<and> m ik = Some v)"
proof (cases "reverse_range m (EncodeObjectKey k R) (EncodeObjectKey k 0)")
  case Nil
  then show ?thesis
    using reverse_range_Nil[OF assms(1) Nil] by (simp add: latest_None_iff Enc_zero_less Enc_le_same)
next
  case (Cons p rest)
  obtain ik v where p: "p = (ik, v)" by (cases p)
  note first = reverse_range_Cons[OF assms(1) Cons[unfolded p]]
  then obtain r where r: "ik = EncodeObjectKey k r" "0 < r" "r \<le> R"
    using between_versions[OF assms(2,3), of ik R] by auto
  have "m (EncodeObjectKey k r') = None" if "r < r'" "r' \<le> R" for r'
  proof (rule ccontr)
    assume "m (EncodeObjectKey k r') \<noteq> None"
    moreover have "EncodeObjectKey k 0 < EncodeObjectKey k r'" using r that by (intro Enc_zero_less) auto
    ultimately have "EncodeObjectKey k r' \<le> EncodeObjectKey k r"
      using first r that by (auto simp: Enc_le_same)
    then show False using that by (simp add: Enc_le_same)
  qed
  then have "latest m k R = Some r" using r first by (auto simp: latest_Some_iff)
  then show ?thesis using Cons p first r by auto
qed


section \<open>Reads answer what is visible\<close>

text \<open>The revision a read is about: \<open>0\<close> asks for the newest.\<close>

definition read_rev :: "rev \<Rightarrow> rev" where
  "read_rev R = (if R = 0 then MaxUint64 else R)"

lemma read_rev_pos [simp]: "0 < read_rev R"
  by (auto simp: read_rev_def MaxUint64_def word_gt_0)

lemma read_rev_0 [simp]: "read_rev 0 = MaxUint64"
  by (simp add: read_rev_def)

definition internal_answer :: "kvmap \<Rightarrow> bytes \<Rightarrow> rev \<Rightarrow> get_ret \<Rightarrow> bool" where
  "internal_answer m key R ret =
     (case ret of (val, r, err) \<Rightarrow>
        (case err of
           None \<Rightarrow> latest m key R = Some r \<and> m (EncodeObjectKey key r) = val
         | Some e \<Rightarrow> val = None \<and> r = 0 \<and> (errors_is e ErrKeyNotFound \<longrightarrow> latest m key R = None)))"

definition answer :: "kvmap \<Rightarrow> bytes \<Rightarrow> rev \<Rightarrow> get_ret \<Rightarrow> bool" where
  "answer m key R ret =
     (case ret of (val, r, err) \<Rightarrow>
        (case err of
           None \<Rightarrow> \<exists>v. val = Some v \<and> visible m key R = Some (v, r)
         | Some e \<Rightarrow> val = None \<and> (errors_is e ErrKeyNotFound \<longrightarrow> visible m key R = None)))"

lemma answer_of_internal:
  assumes "internal_answer m key R (val, r, err)"
  shows "answer m key R (if val = Some tombStoneBytes then (None, r, Some ErrKeyNotFound) else (val, r, err))"
proof (cases err)
  case None
  then have "latest m key R = Some r" "m (EncodeObjectKey key r) = val" "val \<noteq> None"
    using assms by (auto simp: internal_answer_def latest_Some_iff)
  then show ?thesis using None by (auto simp: answer_def visible_def)
next
  case (Some e)
  then show ?thesis using assms by (auto simp: internal_answer_def answer_def visible_def)
qed

context kv_engine
begin

lemma getInternalVal_reads:
  assumes s: "ok s" "wf_store (view s)" and key: "wf_key key"
  shows "\<exists>ret s'. getInternalVal kv s key R = Some (ret, s') \<and> ok s' \<and> view s' = view s \<and> snap s' = snap s
           \<and> internal_answer (view s) key (read_rev R) ret"
proof -
  let ?a = "EncodeObjectKey key (read_rev R)" and ?b = "EncodeObjectKey key 0"
  obtain it s1 where it: "kv_Iter kv s ?a ?b 0 1 = (it, s1)" by fastforce
  note st = iter_state[OF s(1) it]
  have lt: "?b < ?a" by (simp add: Enc_zero_less)
  note fin = finite_view[OF s(1)] and now = snap_now[OF s(1)]
  note rr = reverse_range_latest[OF fin s(2) key read_rev_pos[of R]]
  have unf: "getInternalVal kv s key R = (case it of
           Inl err \<Rightarrow> Some ((None, 0, Some err), s1)
         | Inr ([], err) \<Rightarrow>
             if err = EOF then Some ((None, 0, Some ErrKeyNotFound), s1)
             else Some ((None, 0, Some err), s1)
         | Inr ((ik, val) # _, _) \<Rightarrow>
             (case Decode ik of
                None \<Rightarrow> None
              | Some (Inl _) \<Rightarrow> Some ((None, 0, Some ErrKeyNotFound), s1)
              | Some (Inr (userKey, modRev)) \<Rightarrow>
                  if modRev = 0 \<or> userKey \<noteq> key then Some ((None, 0, Some ErrKeyNotFound), s1)
                  else Some ((Some val, modRev, None), s1)))"
    using it by (simp add: getInternalVal_def read_rev_def Let_def)
  show ?thesis
  proof (cases it)
    case (Inl err)
    then show ?thesis using st iter_error[OF s(1)] it by (simp add: unf internal_answer_def)
  next
    case (Inr its)
    obtain items err where its: "its = (items, err)" by (cases its)
    show ?thesis
    proof (cases items)
      case Nil
      have "latest (view s) key (read_rev R) = None" if "err = EOF"
        using iter_reverse_none[OF s(1) lt, of 0 1 s1] it Inr its Nil that rr now by simp
      then show ?thesis
        using st next_error[OF s(1)] it Inr its Nil by (simp add: unf internal_answer_def)
    next
      case (Cons p rest)
      obtain ik v where p: "p = (ik, v)" by (cases p)
      from iter_reverse_first[OF s(1) lt, of 0 1 ik v rest err s1] it Inr its Cons p now
      have v: "view s ik = Some v"
        and alt: "(?b < ik \<and> (\<exists>rest. reverse_range (view s) ?a ?b = (ik, v) # rest))
                  \<or> (ik \<le> ?b \<and> reverse_range (view s) ?a ?b = [])" by simp_all
      from alt show ?thesis
      proof
        assume "?b < ik \<and> (\<exists>rest. reverse_range (view s) ?a ?b = (ik, v) # rest)"
        then obtain r where r: "ik = EncodeObjectKey key r" "latest (view s) key (read_rev R) = Some r"
          using rr by auto
        then have "0 < r" by (simp add: latest_Some_iff)
        then show ?thesis using st v r Inr its Cons p by (simp add: unf internal_answer_def)
      next
        assume none: "ik \<le> ?b \<and> reverse_range (view s) ?a ?b = []"
        then have "latest (view s) key (read_rev R) = None" using rr by simp
        moreover have "Decode ik \<noteq> None"
          using v s(2) by (auto simp: wf_store_def Decode_panics_iff)
        moreover have "r = 0 \<or> k \<noteq> key" if "Decode ik = Some (Inr (k, r))" for k r
          using Decode_SomeInr[OF that] none by (auto simp: Enc_le_same)
        ultimately show ?thesis using st Inr its Cons p
          by (auto simp: unf internal_answer_def split: sum.splits option.splits)
      qed
    qed
  qed
qed

lemma get_reads:
  assumes "ok s" "wf_store (view s)" "wf_key key"
  shows "\<exists>ret s'. get kv s key R = Some (ret, s') \<and> ok s' \<and> view s' = view s \<and> snap s' = snap s
           \<and> answer (view s) key (read_rev R) ret"
proof -
  obtain val r err s' where g: "getInternalVal kv s key R = Some ((val, r, err), s')" "ok s'"
      "view s' = view s" "snap s' = snap s" "internal_answer (view s) key (read_rev R) (val, r, err)"
    using getInternalVal_reads[OF assms, of R] by force
  then show ?thesis using answer_of_internal[OF g(5)] by (auto simp: get_def)
qed

end


context kv_engine_reliable
begin

lemma get_reliable:
  assumes "ok s" "get kv s key R = Some ((v, r, Some e), s')"
  shows "e = ErrKeyNotFound"
proof -
  have "kv_Iter kv s a b 0 1 \<noteq> (Inl err, s1)" "kv_Iter kv s a b 0 1 = (Inr (items, err), s1) \<Longrightarrow> err = EOF" for a b items err s1
    using iter_answers[OF assms(1), of a b 0 1] by auto
  then show ?thesis using assms(2)
    by (auto simp: get_def getInternalVal_def Let_def split: option.splits prod.splits sum.splits list.splits if_splits)
qed

end

section \<open>A sample store\<close>

text \<open>The memory engine holding one user key, written at revision 5.\<close>

definition sample_key :: bytes where
  "sample_key = bytes_of_string ''/a''"

definition sample_store :: "(bytes \<times> bytes) list memstore" where
  "sample_store =
     \<lparr>sklist = [(EncodeObjectKey sample_key 5, [1, 2]), (EncodeRevisionKey sample_key, index_val 5 False)],
      timers = [], nanos = 0\<rparr>"

abbreviation mem_view :: "(bytes \<times> bytes) list memstore \<Rightarrow> kvmap" where
  "mem_view s \<equiv> map_of (sklist s)"

lemma wf_sample_key: "wf_key sample_key"
  by (simp add: wf_key_def sample_key_def bytes_of_string_def splitByte_def)

lemma view_sample_store: "mem_view sample_store = put_version sample_key 5 False [1, 2] Map.empty"
  by (simp add: sample_store_def put_version_def fun_eq_iff EncodeRevisionKey_def)

lemma sample_value: "[1, 2] \<noteq> tombStoneBytes"
  by (simp add: tombStoneBytes_def bytes_of_string_def)

lemma mvcc_inv_sample_store: "mvcc_inv (mem_view sample_store)"
  unfolding view_sample_store
  by (rule mvcc_inv_put_version)
     (simp_all add: mvcc_inv_empty fresh_for_empty wf_sample_key sample_value)

lemma wf_store_sample_store: "wf_store (mem_view sample_store)"
  using mvcc_inv_sample_store by (simp add: mvcc_inv_def)

lemma visible_sample_store:
  "visible (mem_view sample_store) k R = (if k = sample_key \<and> 5 \<le> R then Some ([1, 2], 5) else None)"
  unfolding view_sample_store
  by (simp add: visible_put_version fresh_for_empty sample_value visible_None_iff latest_Some_iff)

end
