(* ===== verification/Backend.thy ===== *)
theory Backend
  imports Range Ring RetryQueue "HOL-Library.Signed_Division"
begin

text \<open>
  \<^verbatim>\<open>pkg/backend/backend.go\<close> and the parts of \<^verbatim>\<open>util.go\<close> and \<^verbatim>\<open>txn.go\<close> that work on the backend's
  own state: revision dealing, the ring buffer between writers and the collector, and the collector
  loop. \<^verbatim>\<open>Get\<close> of \<^verbatim>\<open>range.go\<close> is here too, as it reads only the state and the engine.

  The backend is a record threaded through its operations. A run-time panic is \<open>None\<close>.
\<close>

section \<open>Configuration\<close>

definition historyCapacity :: int where
  "historyCapacity = 200000"

definition watchersChanCapacity :: rev where
  "watchersChanCapacity = 100000"

definition eventBatchSize :: nat where
  "eventBatchSize = 300"

record Config =
  EnableEtcdCompatibility :: bool
  Prefix :: bytes
  Identity :: bytes
  SkippedPrefixes :: "bytes list"
  WatchCacheSize :: int

definition complete :: "Config \<Rightarrow> Config" where
  "complete c = (if WatchCacheSize c \<le> 0 then c\<lparr>WatchCacheSize := historyCapacity\<rparr> else c)"

definition getCompactKey :: "bytes \<Rightarrow> bytes" where
  "getCompactKey p = p @ bytes_of_string ''/'' @ bytes_of_string ''compact_key''"

text \<open>\<^verbatim>\<open>scanner.Config\<close>; \<^verbatim>\<open>TTL\<close> is a duration in nanoseconds.\<close>

record ScannerConfig =
  CompactKey :: bytes
  Tombstone :: bytes
  TTL :: int

definition getScannerConfig :: "Config \<Rightarrow> ScannerConfig" where
  "getScannerConfig c =
     \<lparr>CompactKey = getCompactKey (Prefix c), Tombstone = tombStoneBytes, TTL = 1000000000 * eventsTTL\<rparr>"

section \<open>State\<close>

text \<open>\<^verbatim>\<open>compactRecord\<close> of \<^verbatim>\<open>pkg/backend/scanner/compact.go\<close>; its queue is the list \<open>compactHistories\<close>.\<close>

record compactRecord =
  cr_revision :: rev
  cr_time :: int

text \<open>
  \<open>kvState\<close> is the state of the storage engine. \<open>watchEventsRingBuffer\<close> is the slice of atomic
  slots, \<open>pending\<close> the part \<^verbatim>\<open>events[:cnt]\<close> of the collector's local buffer, \<open>watchChan\<close> what was sent on
  the channel, oldest first. \<open>clock\<close> is what \<^verbatim>\<open>time.Now\<close> returns.
\<close>

record 's backend =
  kvState :: 's
  tso :: naiveTSO
  config :: Config
  watchEventsRingBuffer :: "nat \<Rightarrow> WatchEvent option"
  watchCache :: Ring
  pending :: "Event list"
  watchChan :: "Event list list"
  retryQueue :: eventQueue
  compactHistories :: "compactRecord list"
  clock :: int

definition NewBackend :: "'s \<Rightarrow> Config \<Rightarrow> int \<Rightarrow> 's backend" where
  "NewBackend s conf now =
     (let conf = complete conf in
      \<lparr>kvState = s, tso = NewTSO, config = conf, watchEventsRingBuffer = (\<lambda>i. None),
       watchCache = NewRing (nat (WatchCacheSize conf)), pending = [], watchChan = [],
       retryQueue = emptyQueue, compactHistories = [], clock = now\<rparr>)"

definition GetCurrentRevision :: "'s backend \<Rightarrow> rev" where
  "GetCurrentRevision b = GetRevision (tso b)"

definition SetCurrentRevision :: "rev \<Rightarrow> 's backend \<Rightarrow> 's backend" where
  "SetCurrentRevision revision b = b\<lparr>tso := Commit revision (tso b)\<rparr>"

section \<open>Dealing revisions\<close>

text \<open>Go's pair of a revision and an error; both are meaningful when the revision drifted back.\<close>

definition deal :: "rev \<Rightarrow> 's backend \<Rightarrow> (rev \<times> error option) \<times> 's backend" where
  "deal prevRevision b =
     (case Deal (tso b) of
        (Inl err, t) \<Rightarrow> ((0, Some err), b\<lparr>tso := t\<rparr>)
      | (Inr r, t) \<Rightarrow>
          if prevRevision > 0 \<and> r < prevRevision then ((r, Some ErrRevisionDriftBack), b\<lparr>tso := t\<rparr>)
          else ((r, None), b\<lparr>tso := t\<rparr>))"

definition mustDeal :: "rev \<Rightarrow> 's backend \<Rightarrow> rev \<times> 's backend" where
  "mustDeal prevRev b = (case deal prevRev b of ((r, _), b') \<Rightarrow> (r, b'))"

section \<open>From writers to the collector\<close>

text \<open>
  \<^verbatim>\<open>notify\<close>. The distance to the committed revision is an unsigned subtraction, the slot index a
  signed remainder; a negative one would be out of range.
\<close>

definition notify ::
    "bytes \<Rightarrow> bytes \<Rightarrow> rev \<Rightarrow> rev \<Rightarrow> bool \<Rightarrow> EventType \<Rightarrow> error option \<Rightarrow> 's backend \<Rightarrow> 's backend option" where
  "notify key val revision preRevision valid eventType err b =
     (if revision = 0 then Some b
      else
        let watchEvent = \<lparr>WRevision = revision, WPrevRevision = preRevision, WResourceVerb = eventType,
                          WValid = valid, WKey = key, WValue = val, WErr = err\<rparr>;
            i = sint revision smod sint watchersChanCapacity
        in if revision - GetCurrentRevision b \<ge> watchersChanCapacity then None
           else if i < 0 then None
           else Some (b\<lparr>watchEventsRingBuffer := (watchEventsRingBuffer b)(nat i \<mapsto> watchEvent)\<rparr>))"

definition eventOf :: "WatchEvent \<Rightarrow> Event" where
  "eventOf watchEvent =
     \<lparr>Type = WResourceVerb watchEvent,
      Kv = (if WResourceVerb watchEvent = Event_DELETE
            then \<lparr>Key = WKey watchEvent, Value = WValue watchEvent, Revision = WPrevRevision watchEvent\<rparr>
            else \<lparr>Key = WKey watchEvent, Value = WValue watchEvent, Revision = WRevision watchEvent\<rparr>),
      EvRevision = WRevision watchEvent\<rparr>"

text \<open>The end of the outer loop's body: hand the collected events to the channel.\<close>

definition flushEvents :: "'s backend \<Rightarrow> 's backend" where
  "flushEvents b =
     (if pending b \<noteq> [] then b\<lparr>watchChan := watchChan b @ [pending b], pending := []\<rparr> else b)"

definition Append :: "WatchEvent \<Rightarrow> 's backend \<Rightarrow> 's backend" where
  "Append watchEvent b = b\<lparr>retryQueue := push (watchEvent, clock b) (retryQueue b)\<rparr>"

definition isUncertain :: "error option \<Rightarrow> bool" where
  "isUncertain err \<longleftrightarrow> (case err of None \<Rightarrow> False | Some e \<Rightarrow> errors_is e ErrUncertainResult)"

text \<open>
  One round of the inner loop of \<^verbatim>\<open>collectStorageWriteEvents\<close>, or, when it is left, the rest of the
  outer loop's body. The goroutine repeats this forever.
\<close>

definition collectStep :: "'s backend \<Rightarrow> 's backend" where
  "collectStep b =
     (if length (pending b) < eventBatchSize then
        let idx = (GetCurrentRevision b + 1) mod watchersChanCapacity in
        case watchEventsRingBuffer b (unat idx) of
          None \<Rightarrow> if pending b = [] then b else flushEvents b
        | Some watchEvent \<Rightarrow>
            let b1 = b\<lparr>watchEventsRingBuffer :=
                  (watchEventsRingBuffer b)(unat (WRevision watchEvent mod watchersChanCapacity) := None)\<rparr>
            in if \<not> WValid watchEvent then
                 let b2 = (if isUncertain (WErr watchEvent) then Append watchEvent b1 else b1)
                 in SetCurrentRevision (WRevision watchEvent) b2
               else
                 let b2 = SetCurrentRevision (WRevision watchEvent) b1;
                     e = eventOf watchEvent
                 in b2\<lparr>pending := pending b2 @ [e], watchCache := Add e (watchCache b2)\<rparr>
      else flushEvents b)"

section \<open>Slots\<close>

text \<open>
  Revisions below \<open>2 ^ 63\<close> are non-negative as \<^verbatim>\<open>int64\<close>; writer and collector then agree on the slot of a
  revision.
\<close>

definition capNat :: nat where
  "capNat = 100000"

definition int64_ok :: "rev \<Rightarrow> bool" where
  "int64_ok r \<longleftrightarrow> unat r < 2 ^ 63"

lemma sint_nonneg: "int64_ok r \<Longrightarrow> sint r = int (unat r)"
proof -
  assume "int64_ok r"
  then have "int (unat r) < int (2 ^ 63)" unfolding int64_ok_def by (simp only: of_nat_less_iff)
  moreover have "uint r = int (unat r)" by simp
  ultimately have u: "0 \<le> uint r" "uint r < 2 ^ 63" by (simp_all only: of_nat_power of_nat_numeral of_nat_0_le_iff)
  then have "uint r div 2 ^ 63 = 0" by (simp only: div_pos_pos_trivial)
  then have "\<not> bit (uint r) 63" by (simp only: bit_iff_odd) simp
  then have "sint r = take_bit 63 (uint r)" by (simp add: sint_uint signed_take_bit_eq_if_positive)
  also have "\<dots> = uint r" using u by (simp only: take_bit_int_eq_self)
  finally show ?thesis by simp
qed

lemma unat_watchersChanCapacity [simp]: "unat watchersChanCapacity = capNat"
  by (simp add: watchersChanCapacity_def capNat_def)

lemma unat_slot: "unat (r mod watchersChanCapacity) = unat r mod capNat"
  by (simp add: unat_mod)

lemma signed_slot:
  assumes "int64_ok r"
  shows "sint r smod sint watchersChanCapacity = int (unat r mod capNat)"
proof -
  have "sint watchersChanCapacity = int capNat"
    using sint_nonneg[of watchersChanCapacity] by (simp add: int64_ok_def capNat_def)
  then show ?thesis using sint_nonneg[OF assms] by (simp add: smod_mod_positive zmod_int)
qed

lemma notify_cases:
  assumes "int64_ok revision" "revision \<noteq> 0" "revision - GetCurrentRevision b < watchersChanCapacity"
  shows "notify key val revision pre valid ty err b =
    Some (b\<lparr>watchEventsRingBuffer := (watchEventsRingBuffer b)(unat revision mod capNat \<mapsto>
       \<lparr>WRevision = revision, WPrevRevision = pre, WResourceVerb = ty, WValid = valid, WKey = key,
        WValue = val, WErr = err\<rparr>)\<rparr>)"
  using assms by (simp add: notify_def signed_slot not_le Let_def)

lemma notify_frame:
  assumes "notify key val revision pre valid ty err b = Some b'"
  shows "kvState b' = kvState b \<and> tso b' = tso b \<and> config b' = config b \<and> watchCache b' = watchCache b
    \<and> pending b' = pending b \<and> watchChan b' = watchChan b \<and> retryQueue b' = retryQueue b"
  using assms by (auto simp: notify_def Let_def split: if_splits)

lemma deal_eq:
  "deal prev b = (let r = dealRevision (tso b) + 1 in
     ((r, if 0 < prev \<and> r < prev then Some ErrRevisionDriftBack else None),
      b\<lparr>tso := (tso b)\<lparr>dealRevision := r\<rparr>\<rparr>))"
  by (simp add: deal_def Deal_def Let_def)

lemma mustDeal_eq:
  "mustDeal prev b = (dealRevision (tso b) + 1, b\<lparr>tso := (tso b)\<lparr>dealRevision := dealRevision (tso b) + 1\<rparr>\<rparr>)"
  by (simp add: mustDeal_def deal_eq Let_def)

section \<open>Get\<close>

definition Get :: "'s kv_storage \<Rightarrow> GetRequest \<Rightarrow> 's backend \<Rightarrow> ((error + GetResponse) \<times> 's backend) option" where
  "Get kv r b =
     (let curRev = GetRevision (tso b);
          requireRev = GRevision r
      in case get kv (kvState b) (GKey r) requireRev of
           None \<Rightarrow> None
         | Some ((val, modRev, err), s) \<Rightarrow>
             let b = b\<lparr>kvState := s\<rparr> in
             if err = Some ErrKeyNotFound then Some (Inr \<lparr>GHeader = curRev, GKv = None\<rparr>, b)
             else case err of
                    Some e \<Rightarrow> Some (Inl e, b)
                  | None \<Rightarrow>
                      let curRev = (if modRev > curRev then modRev else curRev)
                      in Some (Inr \<lparr>GHeader = curRev,
                                    GKv = map_option (\<lambda>v. \<lparr>Key = GKey r, Value = v, Revision = modRev\<rparr>) val\<rparr>, b))"

text \<open>
  \<^verbatim>\<open>Get\<close> never panics and changes nothing that can be read; when it answers, it answers exactly
  what is visible at the requested revision (the newest for \<open>0\<close>), no value when nothing is, and its
  header is no older than the value's revision.
\<close>

lemma Get_law:
  assumes "kv_engine kv view snap ok" "ok (kvState b)" "wf_store (view (kvState b))" "wf_key (GKey r)"
  shows "\<exists>res b'. Get kv r b = Some (res, b') \<and> ok (kvState b') \<and> view (kvState b') = view (kvState b)
           \<and> (\<forall>resp. res = Inr resp \<longrightarrow>
                 map_option (\<lambda>kv. (Value kv, Revision kv)) (GKv resp)
                   = visible (view (kvState b)) (GKey r) (read_rev (GRevision r))
                 \<and> (\<forall>kv. GKv resp = Some kv \<longrightarrow> Key kv = GKey r \<and> Revision kv \<le> GHeader resp))"
proof -
  obtain val r' err s' where g: "get kv (kvState b) (GKey r) (GRevision r) = Some ((val, r', err), s')"
      "ok s'" "view s' = view (kvState b)"
      "answer (view (kvState b)) (GKey r) (read_rev (GRevision r)) (val, r', err)"
    using kv_engine.get_reads[OF assms, of "GRevision r"] by force
  then show ?thesis
    by (cases err) (auto simp: Get_def Let_def answer_def)
qed


definition sample_config :: Config where
  "sample_config = \<lparr>EnableEtcdCompatibility = True, Prefix = bytes_of_string ''/registry'', Identity = [],
     SkippedPrefixes = [], WatchCacheSize = 10\<rparr>"

definition sample_backend :: "(bytes \<times> bytes) list memstore backend" where
  "sample_backend = SetCurrentRevision 5 (NewBackend sample_store sample_config 0)"

lemma kvState_sample_backend [simp]: "kvState sample_backend = sample_store"
  by (simp add: sample_backend_def NewBackend_def SetCurrentRevision_def Let_def)

end
