(* ===== verification/Creator.thy ===== *)
theory Creator
  imports Mvcc
begin

text \<open>
  \<^verbatim>\<open>pkg/backend/creator/naive.go\<close>: creating a key, which first tries to put a fresh revision key and,
  when one is there already, takes the place of a deleted one.
\<close>

definition creator_create ::
    "'s kv_storage \<Rightarrow> 's \<Rightarrow> bytes \<Rightarrow> bytes \<Rightarrow> bytes \<Rightarrow> bytes \<Rightarrow> int \<Rightarrow> error option \<times> 's" where
  "creator_create kv s revisionKey objectKey val revision lease =
     kv_Commit kv s [PutIfNotExist revisionKey revision lease, Put objectKey val lease]"

definition creator_update ::
    "'s kv_storage \<Rightarrow> 's \<Rightarrow> bytes \<Rightarrow> bytes \<Rightarrow> bytes \<Rightarrow> bytes \<Rightarrow> bytes \<Rightarrow> int \<Rightarrow> error option \<times> 's" where
  "creator_update kv s revisionKey objectKey val newRevision oldRev lease =
     kv_Commit kv s [CAS revisionKey newRevision oldRev lease, Put objectKey val lease]"

text \<open>What follows once the stored revision value is known.\<close>

definition replaceDeleted ::
    "'s kv_storage \<Rightarrow> 's \<Rightarrow> bytes \<Rightarrow> bytes \<Rightarrow> rev \<Rightarrow> int \<Rightarrow> bytes \<Rightarrow> error option \<times> 's" where
  "replaceDeleted kv s key val revision ttl oldRev =
     (case ParseRevision oldRev of
        Inl parseErr \<Rightarrow> (Some parseErr, s)
      | Inr (prevRevision, isTombstone) \<Rightarrow>
          if isTombstone \<and> prevRevision < revision
          then creator_update kv s (EncodeRevisionKey key) (EncodeObjectKey key revision) val
                 (uint64ToBytes revision) oldRev ttl
          else (Some ErrCASFailed, s))"

text \<open>
  The stored revision value after a failed comparison: the one a conflict on the first operation
  carries (nil reads as an empty slice), or else the one the engine returns.
\<close>

definition storedRevision :: "'s kv_storage \<Rightarrow> 's \<Rightarrow> bytes \<Rightarrow> error \<Rightarrow> (error + bytes) \<times> 's" where
  "storedRevision kv s key err =
     (case err of
        Conflict idx ck cv \<Rightarrow>
          if idx = 0 then (Inr (case cv of None \<Rightarrow> [] | Some v \<Rightarrow> v), s)
          else kv_Get kv s (EncodeRevisionKey key)
      | _ \<Rightarrow> kv_Get kv s (EncodeRevisionKey key))"

definition CreateWithTTL ::
    "'s kv_storage \<Rightarrow> 's \<Rightarrow> bytes \<Rightarrow> bytes \<Rightarrow> rev \<Rightarrow> int \<Rightarrow> error option \<times> 's" where
  "CreateWithTTL kv s key val revision ttl =
     (let revisionKey = EncodeRevisionKey key;
          objectKey = EncodeObjectKey key revision;
          revisionBytes = uint64ToBytes revision
      in case creator_create kv s revisionKey objectKey val revisionBytes ttl of
           (None, s1) \<Rightarrow> (None, s1)
         | (Some err, s1) \<Rightarrow>
             if errors_is err ErrCASFailed then
               (case storedRevision kv s1 key err of
                  (Inl getErr, s2) \<Rightarrow>
                    if errors_is getErr ErrKeyNotFound
                    then creator_create kv s2 revisionKey objectKey val revisionBytes ttl
                    else (Some ErrUnavailable, s2)
                | (Inr oldRev, s2) \<Rightarrow> replaceDeleted kv s2 key val revision ttl oldRev)
             else (Some err, s1))"

definition creator_Create ::
    "'s kv_storage \<Rightarrow> 's \<Rightarrow> bytes \<Rightarrow> bytes \<Rightarrow> rev \<Rightarrow> error option \<times> 's" where
  "creator_Create kv s key val revision = CreateWithTTL kv s key val revision 0"

section \<open>The effect of a guarded write\<close>

text \<open>
  A write is a partial function on stored maps, \<open>None\<close> when its guard fails. \<open>outcome e w m m'\<close>: the
  maps before and after an attempt at \<open>w\<close> that returned the error \<open>e\<close>.
\<close>

definition outcome :: "error option \<Rightarrow> (kvmap \<Rightarrow> kvmap option) \<Rightarrow> kvmap \<Rightarrow> kvmap \<Rightarrow> bool" where
  "outcome e w m m' \<longleftrightarrow>
     (case e of
        None \<Rightarrow> w m = Some m'
      | Some err \<Rightarrow> m' = m \<or> (errors_is err ErrUncertainResult \<and> w m = Some m'))"

lemma outcome_batch: "outcome e (apply_batch ops) = may_apply e ops"
  by (auto simp: outcome_def may_apply_def fun_eq_iff)

lemma outcome_mono:
  "outcome e w m m' \<Longrightarrow> (\<And>x. w m = Some x \<Longrightarrow> w' m = Some x) \<Longrightarrow> outcome e w' m m'"
  by (auto simp: outcome_def split: option.splits)

lemma outcome_same [simp]: "outcome (Some err) w m m"
  by (simp add: outcome_def)

lemma outcome_certain:
  "outcome (Some err) w m m' \<Longrightarrow> \<not> errors_is err ErrUncertainResult \<Longrightarrow> m' = m"
  by (simp add: outcome_def)

text \<open>A refused comparison is a certain answer.\<close>

definition cas_certain :: "error option \<Rightarrow> bool" where
  "cas_certain e \<longleftrightarrow> (\<forall>err. e = Some err \<longrightarrow> errors_is err ErrCASFailed \<longrightarrow> \<not> errors_is err ErrUncertainResult)"

definition create_write :: "bytes \<Rightarrow> rev \<Rightarrow> bytes \<Rightarrow> kvmap \<Rightarrow> kvmap option" where
  "create_write key r val m =
     (case m (EncodeRevisionKey key) of
        None \<Rightarrow> Some (put_version key r False val m)
      | Some bs \<Rightarrow> (case ParseRevision bs of
                     Inr (r0, True) \<Rightarrow> if r0 < r then Some (put_version key r False val m) else None
                   | _ \<Rightarrow> None))"

definition cas_write :: "bytes \<Rightarrow> bytes \<Rightarrow> rev \<Rightarrow> bool \<Rightarrow> bytes \<Rightarrow> kvmap \<Rightarrow> kvmap option" where
  "cas_write old key r d val m =
     (if m (EncodeRevisionKey key) = Some old then Some (put_version key r d val m) else None)"

lemma apply_batch_create:
  "apply_batch [PutIfNotExist (EncodeRevisionKey key) (uint64ToBytes r) ttl, Put (EncodeObjectKey key r) val ttl] m
     = (if m (EncodeRevisionKey key) = None then Some (put_version key r False val m) else None)"
  by (simp add: put_version_def index_val_def)

lemma apply_batch_cas:
  "apply_batch [CAS (EncodeRevisionKey key) (index_val r d) old ttl, Put (EncodeObjectKey key r) val ttl]
     = cas_write old key r d val"
  by (simp add: put_version_def cas_write_def fun_eq_iff)

lemma index_val_live: "uint64ToBytes r = index_val r False"
  by (simp add: index_val_def)

lemma outcome_create:
  "outcome e (apply_batch [PutIfNotExist (EncodeRevisionKey key) (uint64ToBytes r) ttl,
                           Put (EncodeObjectKey key r) val ttl]) m m'
   \<Longrightarrow> outcome e (create_write key r val) m m'"
  by (erule outcome_mono)
     (simp only: apply_batch_create create_write_def option.case split: if_splits, simp)

lemma outcome_replace:
  assumes "outcome e (cas_write old key r False val) m m'" "ParseRevision old = Inr (r0, True)" "r0 < r"
  shows "outcome e (create_write key r val) m m'"
  using assms(1)
  by (rule outcome_mono) (use assms(2,3) in \<open>auto simp: cas_write_def create_write_def split: if_splits\<close>)

context kv_engine
begin

lemma creator_create_outcome:
  assumes "ok s" "creator_create kv s (EncodeRevisionKey key) (EncodeObjectKey key r) val (uint64ToBytes r) ttl = (e, s')"
  shows "ok s' \<and> outcome e (create_write key r val) (view s) (view s') \<and> cas_certain e"
  using commit_law[OF assms(1) assms(2)[unfolded creator_create_def]]
    commit_cas[OF assms(1)] assms(2)
  by (auto simp: outcome_batch[symmetric] cas_certain_def creator_create_def intro: outcome_create)

lemma storedRevision_state:
  assumes "ok s" "storedRevision kv s key err = (g, s')"
  shows "ok s' \<and> view s' = view s"
proof -
  have "s' = s \<or> kv_Get kv s (EncodeRevisionKey key) = (g, s')"
    using assms(2) by (cases err) (auto simp: storedRevision_def split: if_splits)
  then show ?thesis using get_state[OF assms(1)] assms(1) by blast
qed

lemma commit_cas_certain: "ok s \<Longrightarrow> kv_Commit kv s ops = (e, s') \<Longrightarrow> cas_certain e"
  using commit_cas by (auto simp: cas_certain_def)

lemma replaceDeleted_outcome:
  assumes "ok s" "replaceDeleted kv s key val r ttl old = (e, s')"
  shows "ok s' \<and> outcome e (create_write key r val) (view s) (view s') \<and> cas_certain e"
proof (cases "\<exists>r0. ParseRevision old = Inr (r0, True) \<and> r0 < r")
  case True
  then obtain r0 where r0: "ParseRevision old = Inr (r0, True)" "r0 < r" by blast
  then have "kv_Commit kv s [CAS (EncodeRevisionKey key) (index_val r False) old ttl,
                             Put (EncodeObjectKey key r) val ttl] = (e, s')"
    using assms(2) by (simp add: replaceDeleted_def creator_update_def index_val_live)
  from commit_law[OF assms(1) this] commit_cas_certain[OF assms(1) this] show ?thesis
    using outcome_replace[OF _ r0] by (simp add: outcome_batch[symmetric] apply_batch_cas)
next
  case False
  then show ?thesis using assms
    by (auto simp: replaceDeleted_def cas_certain_def ParseRevision_def split: sum.splits option.splits if_splits)
qed

text \<open>A create either takes effect once or not at all, and says which unless it is uncertain.\<close>

lemma CreateWithTTL_outcome:
  assumes "ok s" "CreateWithTTL kv s key val r ttl = (e, s')"
  shows "ok s' \<and> outcome e (create_write key r val) (view s) (view s') \<and> cas_certain e"
proof -
  obtain e1 s1 where c: "creator_create kv s (EncodeRevisionKey key) (EncodeObjectKey key r) val (uint64ToBytes r) ttl
      = (e1, s1)" by fastforce
  note c1 = creator_create_outcome[OF assms(1) c]
  show ?thesis
  proof (cases "\<exists>err. e1 = Some err \<and> errors_is err ErrCASFailed")
    case False
    then have "(e, s') = (e1, s1)" using assms(2) c by (auto simp: CreateWithTTL_def Let_def split: option.splits)
    then show ?thesis using c1 by simp
  next
    case True
    then obtain err where err: "e1 = Some err" "errors_is err ErrCASFailed" by blast
    then have "\<not> errors_is err ErrUncertainResult"
      using commit_cas[OF assms(1)] c by (auto simp: creator_create_def)
    then have same: "view s1 = view s" and ok1: "ok s1" using c1 err outcome_certain by blast+
    obtain g s2 where g: "storedRevision kv s1 key err = (g, s2)" by fastforce
    have s2: "ok s2" "view s2 = view s" using storedRevision_state[OF ok1 g] same by auto
    have "CreateWithTTL kv s key val r ttl = (case g of
         Inl getErr \<Rightarrow>
           if errors_is getErr ErrKeyNotFound
           then creator_create kv s2 (EncodeRevisionKey key) (EncodeObjectKey key r) val (uint64ToBytes r) ttl
           else (Some ErrUnavailable, s2)
       | Inr old \<Rightarrow> replaceDeleted kv s2 key val r ttl old)"
      using c err g by (simp add: CreateWithTTL_def Let_def)
    then show ?thesis
      using assms(2) s2 creator_create_outcome[OF s2(1), of key r val ttl e s']
        replaceDeleted_outcome[OF s2(1), of key val r ttl _ e s']
      by (auto simp: cas_certain_def split: sum.splits if_splits)
  qed
qed

end


context kv_engine_reliable
begin

lemma storedRevision_reliable:
  assumes "ok s" "creator_create kv s (EncodeRevisionKey key) ok' val r ttl = (Some err, s1)"
    and "view s (EncodeRevisionKey key) = Some bs"
  shows "\<exists>s2. storedRevision kv s1 key err = (Inr bs, s2)"
proof -
  have ok1: "ok s1" and "may_apply (Some err) [PutIfNotExist (EncodeRevisionKey key) r ttl, Put ok' val ttl] (view s) (view s1)"
    using commit_law[OF assms(1)] assms(2) by (auto simp: creator_create_def)
  then have "view s1 = view s"
    using assms(3) by (auto simp: may_apply_def)
  then have get: "\<exists>s2. kv_Get kv s1 (EncodeRevisionKey key) = (Inr bs, s2)"
    using get_answers[OF ok1, of "EncodeRevisionKey key"] assms(3) by simp
  show ?thesis
  proof (cases "\<exists>ck cv. err = Conflict 0 ck cv")
    case True
    then obtain ck cv where "err = Conflict 0 ck cv" by blast
    moreover from this have "cv = Some bs"
      using commit_conflict[OF assms(1)] assms(2,3) unfolding creator_create_def by metis
    ultimately show ?thesis by (simp add: storedRevision_def)
  next
    case False
    then show ?thesis using get by (cases err) (auto simp: storedRevision_def)
  qed
qed

text \<open>When nothing but the comparison can fail, a refused create means the key is there.\<close>

lemma CreateWithTTL_refuses:
  assumes "ok s" "CreateWithTTL kv s key val r ttl = (Some err, s')" "index_ok (view s) key"
  shows "create_write key r val (view s) = None \<and> errors_is err ErrCASFailed"
proof -
  obtain e1 s1 where c: "creator_create kv s (EncodeRevisionKey key) (EncodeObjectKey key r) val (uint64ToBytes r) ttl
      = (e1, s1)" by fastforce
  note c1 = creator_create_outcome[OF assms(1) c]
  obtain err1 where e1: "e1 = Some err1" using assms(2) c by (cases e1) (auto simp: CreateWithTTL_def)
  have cas: "errors_is err1 ErrCASFailed" and "view s (EncodeRevisionKey key) \<noteq> None"
    using commit_answers[OF assms(1) c[unfolded creator_create_def e1]] by (auto split: if_splits)
  then obtain bs where bs: "view s (EncodeRevisionKey key) = Some bs" by blast
  then obtain r0 d where rd: "bs = index_val r0 d" using assms(3) by (auto simp: index_ok_def)
  have same: "view s1 = view s" "ok s1"
    using c1 e1 commit_cas[OF assms(1) c[unfolded creator_create_def e1] cas] outcome_certain by blast+
  obtain s2 where s2: "storedRevision kv s1 key err1 = (Inr bs, s2)"
    using storedRevision_reliable[OF assms(1) c[unfolded e1] bs] by blast
  have st2: "ok s2" "view s2 = view s" using storedRevision_state[OF same(2) s2] same(1) by auto
  have fin: "replaceDeleted kv s2 key val r ttl bs = (Some err, s')"
    using assms(2) c e1 cas s2 by (simp add: CreateWithTTL_def Let_def)
  show ?thesis
  proof (cases "d \<and> r0 < r")
    case True
    then have "kv_Commit kv s2 [CAS (EncodeRevisionKey key) (index_val r False) bs ttl,
                                Put (EncodeObjectKey key r) val ttl] = (Some err, s')"
      using fin rd by (simp add: replaceDeleted_def creator_update_def index_val_live)
    from commit_answers[OF st2(1) this] show ?thesis
      using bs st2 by (simp add: apply_batch_cas cas_write_def)
  next
    case False
    then show ?thesis using fin rd bs by (auto simp: replaceDeleted_def create_write_def split: bool.splits)
  qed
qed

end

end
