(* ===== verification/Txn.thy ===== *)
theory Txn
  imports Backend Creator
begin

text \<open>
  \<^verbatim>\<open>pkg/backend/txn.go\<close>: the three writes. Each deals a revision, runs one guarded batch and notifies
  the collector. The maps before and after a write are related to what is visible, so the writes
  refine updates of an abstract multi-version map.
\<close>

section \<open>Operations\<close>

text \<open>\<^verbatim>\<open>KeyVal\<close>; a nil slice is the empty list.\<close>

record KeyVal =
  kvKey :: bytes
  kvVal :: bytes
  kvRevision :: rev

definition emptyKeyVal :: KeyVal where
  "emptyKeyVal = \<lparr>kvKey = [], kvVal = [], kvRevision = 0\<rparr>"

text \<open>\<^verbatim>\<open>fmt.Errorf\<close> with the two revisions.\<close>

definition newerErr :: error where
  "newerErr = OtherErr ''cas failed, new revision is %d existing revision is %d''"

definition create ::
    "'s kv_storage \<Rightarrow> bytes \<Rightarrow> bytes \<Rightarrow> int \<Rightarrow> 's backend \<Rightarrow> (rev \<times> error option) \<times> 's backend" where
  "create kv key val lease b =
     (case deal 0 b of
        ((_, Some err), b1) \<Rightarrow> ((0, Some err), b1)
      | ((revision, None), b1) \<Rightarrow>
          let ttl = (if bytes_contains key events then eventsTTL else lease);
              (err, s) = (if ttl \<noteq> 0 then CreateWithTTL kv (kvState b1) key val revision ttl
                          else creator_Create kv (kvState b1) key val revision)
          in ((revision, err), b1\<lparr>kvState := s\<rparr>))"

definition update ::
    "'s kv_storage \<Rightarrow> rev \<Rightarrow> bytes \<Rightarrow> bytes \<Rightarrow> int \<Rightarrow> 's backend \<Rightarrow> (rev \<times> error option) \<times> 's backend" where
  "update kv oldRevision key val lease b =
     (case deal oldRevision b of
        ((_, Some err), b1) \<Rightarrow> ((0, Some err), b1)
      | ((newRevision, None), b1) \<Rightarrow>
          let objectKey = EncodeObjectKey key newRevision;
              revisionKey = EncodeRevisionKey key;
              oldRevisionBytes = uint64ToBytes oldRevision;
              newRevisionBytes = uint64ToBytes newRevision;
              (err, s) = kv_Commit kv (kvState b1)
                           [CAS revisionKey newRevisionBytes oldRevisionBytes 0, Put objectKey val 0]
          in ((newRevision, err), b1\<lparr>kvState := s\<rparr>))"

definition delete ::
    "'s kv_storage \<Rightarrow> rev \<Rightarrow> bytes \<Rightarrow> 's backend \<Rightarrow> ((rev \<times> KeyVal \<times> error option) \<times> 's backend) option" where
  "delete kv oldRevision key b =
     (case get kv (kvState b) key 0 of
        None \<Rightarrow> None
      | Some ((_, _, Some err), s) \<Rightarrow>
          (case mustDeal oldRevision (b\<lparr>kvState := s\<rparr>) of
             (getRev, b1) \<Rightarrow> Some ((getRev, emptyKeyVal, Some err), b1))
      | Some ((oldVal, modRevision, None), s) \<Rightarrow>
          (case deal oldRevision (b\<lparr>kvState := s\<rparr>) of
             ((_, Some err), b1) \<Rightarrow> Some ((0, emptyKeyVal, Some err), b1)
           | ((newRevision, None), b1) \<Rightarrow>
               let old = \<lparr>kvKey = key, kvVal = (case oldVal of None \<Rightarrow> [] | Some v \<Rightarrow> v), kvRevision = modRevision\<rparr> in
               if oldRevision > 0 \<and> oldRevision \<noteq> modRevision
               then Some ((newRevision, old, Some ErrCASFailed), b1)
               else
                 let expectedRevision = (if oldRevision \<le> 0 then modRevision else oldRevision) in
                 if newRevision \<le> modRevision then Some ((newRevision, old, Some newerErr), b1)
                 else
                   let objectKey = EncodeObjectKey key newRevision;
                       revisionKey = EncodeRevisionKey key;
                       expectedRevisionBytes = uint64ToBytes expectedRevision;
                       newRevisionBytes = uint64ToBytes newRevision @ [0];
                       (err, s) = kv_Commit kv (kvState b1)
                                    [CAS revisionKey newRevisionBytes expectedRevisionBytes 0,
                                     Put objectKey tombStoneBytes 0]
                   in Some ((newRevision, old, err), b1\<lparr>kvState := s\<rparr>)))"

definition isCASFailed :: "error option \<Rightarrow> bool" where
  "isCASFailed err \<longleftrightarrow> (case err of None \<Rightarrow> False | Some e \<Rightarrow> errors_is e ErrCASFailed)"

definition Create ::
    "'s kv_storage \<Rightarrow> CreateRequest \<Rightarrow> 's backend \<Rightarrow> ((error + CreateResponse) \<times> 's backend) option" where
  "Create kv r b =
     (let ((revision, err), b1) = create kv (CKey r) (CValue r) (CLease r) b in
      case notify (CKey r) (CValue r) revision 0 (err = None) Event_CREATE err b1 of
        None \<Rightarrow> None
      | Some b2 \<Rightarrow>
          if isCASFailed err then Some (Inr \<lparr>CRevision = revision, CSucceeded = False\<rparr>, b2)
          else case err of
                 Some e \<Rightarrow> Some (Inl e, b2)
               | None \<Rightarrow> Some (Inr \<lparr>CRevision = revision, CSucceeded = True\<rparr>, b2))"

text \<open>The write behind \<^verbatim>\<open>Update\<close>: a create when no previous revision is given.\<close>

definition update_body :: "'s kv_storage \<Rightarrow> UpdateRequest \<Rightarrow> 's backend \<Rightarrow> (rev \<times> error option) \<times> 's backend" where
  "update_body kv req b =
     (if Revision (UKv req) = 0 then create kv (Key (UKv req)) (Value (UKv req)) (ULease req) b
      else update kv (Revision (UKv req)) (Key (UKv req)) (Value (UKv req)) (ULease req) b)"

text \<open>The answer of \<^verbatim>\<open>Update\<close> after a failed comparison: the latest value.\<close>

definition update_conflict ::
    "'s kv_storage \<Rightarrow> bytes \<Rightarrow> rev \<Rightarrow> 's backend \<Rightarrow> ((error + UpdateResponse) \<times> 's backend) option" where
  "update_conflict kv key curRev b =
     (case get kv (kvState b) key 0 of
        None \<Rightarrow> None
      | Some ((v, modRevision, getErr), s) \<Rightarrow>
          let b1 = b\<lparr>kvState := s\<rparr> in
          case getErr of
            Some e \<Rightarrow>
              if errors_is e ErrKeyNotFound
              then Some (Inr \<lparr>URevision = curRev, USucceeded = False, UKvOld = None\<rparr>, b1)
              else Some (Inl e, b1)
          | None \<Rightarrow>
              Some (Inr \<lparr>URevision = maxUint64 curRev modRevision, USucceeded = False,
                         UKvOld = Some \<lparr>Key = key, Value = (case v of None \<Rightarrow> [] | Some x \<Rightarrow> x),
                                        Revision = modRevision\<rparr>\<rparr>, b1))"

definition Update ::
    "'s kv_storage \<Rightarrow> UpdateRequest \<Rightarrow> 's backend \<Rightarrow> ((error + UpdateResponse) \<times> 's backend) option" where
  "Update kv req b =
     (let key = Key (UKv req); val = Value (UKv req); prevRev = Revision (UKv req);
          ((curRev, err), b1) = update_body kv req b
      in case notify key val curRev prevRev (err = None)
                (if prevRev = 0 then Event_CREATE else Event_PUT) err b1 of
           None \<Rightarrow> None
         | Some b2 \<Rightarrow>
             if isCASFailed err then update_conflict kv key curRev b2
             else case err of
                    Some e \<Rightarrow> Some (Inl e, b2)
                  | None \<Rightarrow> Some (Inr \<lparr>URevision = curRev, USucceeded = True, UKvOld = None\<rparr>, b2))"

text \<open>The answer of \<^verbatim>\<open>Delete\<close> after a failed comparison.\<close>

definition delete_conflict ::
    "'s kv_storage \<Rightarrow> bytes \<Rightarrow> rev \<Rightarrow> KeyVal \<Rightarrow> 's backend \<Rightarrow> ((error + DeleteResponse) \<times> 's backend) option" where
  "delete_conflict kv key newRev old b =
     (case get kv (kvState b) key 0 of
        None \<Rightarrow> None
      | Some ((v, modRevision, getErr), s) \<Rightarrow>
          let b1 = b\<lparr>kvState := s\<rparr> in
          if getErr \<noteq> None
          then Some (Inr \<lparr>DHeader = newRev, DSucceeded = False,
                          DKv = Some \<lparr>Key = key, Value = kvVal old, Revision = kvRevision old\<rparr>\<rparr>, b1)
          else Some (Inr \<lparr>DHeader = maxUint64 newRev modRevision, DSucceeded = False,
                          DKv = Some \<lparr>Key = key, Value = (case v of None \<Rightarrow> [] | Some x \<Rightarrow> x),
                                      Revision = modRevision\<rparr>\<rparr>, b1))"

definition Delete ::
    "'s kv_storage \<Rightarrow> DeleteRequest \<Rightarrow> 's backend \<Rightarrow> ((error + DeleteResponse) \<times> 's backend) option" where
  "Delete kv req b =
     (case delete kv (DRevision req) (DKey req) b of
        None \<Rightarrow> None
      | Some ((newRev, old, err), b1) \<Rightarrow>
          (case notify (DKey req) (kvVal old) newRev (kvRevision old) (err = None) Event_DELETE err b1 of
             None \<Rightarrow> None
           | Some b2 \<Rightarrow>
               if err = Some ErrKeyNotFound
               then Some (Inr \<lparr>DHeader = newRev, DSucceeded = False, DKv = None\<rparr>, b2)
               else if isCASFailed err then delete_conflict kv (DKey req) newRev old b2
               else case err of
                      Some e \<Rightarrow> Some (Inl e, b2)
                    | None \<Rightarrow>
                        Some (Inr \<lparr>DHeader = newRev, DSucceeded = True,
                                   DKv = Some \<lparr>Key = kvKey old, Value = kvVal old,
                                               Revision = kvRevision old\<rparr>\<rparr>, b2)))"

section \<open>The abstract multi-version map\<close>

text \<open>
  What is visible of each key at each revision, and the effect of writing \<open>vo\<close> (\<open>None\<close> for a
  deletion) to \<open>key\<close> at revision \<open>r\<close>.
\<close>

type_synonym mvmap = "bytes \<Rightarrow> rev \<Rightarrow> (bytes \<times> rev) option"

definition abs_write :: "bytes \<Rightarrow> rev \<Rightarrow> bytes option \<Rightarrow> mvmap \<Rightarrow> mvmap" where
  "abs_write key r vo V = (\<lambda>k R. if k = key \<and> r \<le> R then map_option (\<lambda>v. (v, r)) vo else V k R)"

text \<open>No stored revision is ahead of the dealt ones.\<close>

definition bounded :: "kvmap \<Rightarrow> rev \<Rightarrow> bool" where
  "bounded m d \<longleftrightarrow> (\<forall>k r. m (EncodeObjectKey k r) \<noteq> None \<longrightarrow> r \<le> d)
     \<and> (\<forall>k r del. m (EncodeRevisionKey k) = Some (index_val r del) \<longrightarrow> r \<le> d)"

definition store_ok :: "('s \<Rightarrow> kvmap) \<Rightarrow> ('s \<Rightarrow> bool) \<Rightarrow> 's backend \<Rightarrow> bool" where
  "store_ok view ok b \<longleftrightarrow> ok (kvState b) \<and> mvcc_inv (view (kvState b))
     \<and> bounded (view (kvState b)) (dealRevision (tso b))"

text \<open>The next revision exists, is a valid slot index, and the ring buffer has room for it.\<close>

definition room :: "'s backend \<Rightarrow> bool" where
  "room b \<longleftrightarrow> unat (dealRevision (tso b)) + 1 < 2 ^ 63
     \<and> dealRevision (tso b) + 1 - committedRevision (tso b) < watchersChanCapacity"

lemma store_ok_frame:
  "kvState b' = kvState b \<Longrightarrow> tso b' = tso b \<Longrightarrow> store_ok view ok b \<Longrightarrow> store_ok view ok b'"
  by (simp add: store_ok_def)

lemma room_next:
  assumes "room b"
  shows "dealRevision (tso b) < MaxUint64" "int64_ok (dealRevision (tso b) + 1)"
    "dealRevision (tso b) + 1 \<noteq> 0" "dealRevision (tso b) < dealRevision (tso b) + 1"
proof -
  show d: "dealRevision (tso b) < MaxUint64"
    using assms by (simp add: room_def word_less_nat_alt unat_MaxUint64)
  show "int64_ok (dealRevision (tso b) + 1)"
    using assms unat_succ[OF d] by (simp add: int64_ok_def room_def)
  show "dealRevision (tso b) < dealRevision (tso b) + 1" by (rule succ_greater[OF d])
  then show "dealRevision (tso b) + 1 \<noteq> 0" by auto
qed

lemma bounded_fresh:
  assumes "bounded m d" "d < MaxUint64"
  shows "fresh_for m k (d + 1)"
proof -
  have "d < d + 1" using succ_greater[OF assms(2)] .
  then have "m (EncodeObjectKey k r') = None" if "d + 1 \<le> r'" for r'
    using assms(1) that unfolding bounded_def by (meson leD less_le_trans)
  moreover have "d + 1 \<noteq> 0" using \<open>d < d + 1\<close> by auto
  ultimately show ?thesis by (simp add: fresh_for_def word_gt_0)
qed

lemma bounded_mono: "bounded m d \<Longrightarrow> d \<le> d' \<Longrightarrow> bounded m d'"
  unfolding bounded_def by (meson order_trans)

lemma bounded_put_version:
  assumes "bounded m d" "d \<le> r" "0 < r"
  shows "bounded (put_version k r del v m) r"
proof -
  have "bounded m r" using assms bounded_mono by blast
  moreover have "r' \<le> r" if "put_version k r del v m (EncodeObjectKey k' r') \<noteq> None" for k' r'
    using that \<open>bounded m r\<close> assms(3)
    by (cases "r' = 0") (auto simp: put_version_object bounded_def split: if_splits)
  moreover have "r' \<le> r" if "put_version k r del v m (EncodeRevisionKey k') = Some (index_val r' del')" for k' r' del'
  proof (cases "k' = k")
    case True
    then show ?thesis using that assms(3) by (simp add: put_version_index)
  next
    case False
    then have "m (EncodeRevisionKey k') = Some (index_val r' del')"
      using that assms(3) by (simp add: put_version_index)
    then show ?thesis using \<open>bounded m r\<close> unfolding bounded_def by blast
  qed
  ultimately show ?thesis unfolding bounded_def[of "put_version k r del v m"] by blast
qed

lemma visible_abs_write:
  assumes "fresh_for m k r" "vo = (if v = tombStoneBytes then None else Some v)"
  shows "visible (put_version k r del v m) = abs_write k r vo (visible m)"
  using visible_put_version[OF assms(1)] assms(2) by (auto simp: abs_write_def fun_eq_iff)

section \<open>Guards and what is visible\<close>

lemma create_write_SomeD: "create_write key r val m = Some m' \<Longrightarrow> m' = put_version key r False val m"
  by (auto simp: create_write_def split: option.splits sum.splits bool.splits if_splits)

lemma create_write_guard:
  assumes "index_ok m key" "create_write key r val m = Some m'"
  shows "visible m key MaxUint64 = None"
  using assms
  by (auto simp: index_ok_def create_write_def index_names_def split: option.splits sum.splits bool.splits if_splits)

lemma create_write_enabled:
  assumes "index_ok m key" "bounded m d" "d < r" "visible m key MaxUint64 = None"
  shows "create_write key r val m \<noteq> None"
proof (cases "m (EncodeRevisionKey key)")
  case (Some bs)
  then obtain r0 del where bs: "bs = index_val r0 del" "index_names m key r0 del"
    using assms(1) by (auto simp: index_ok_def)
  then have "del" using assms(4) by (auto simp: index_names_def)
  moreover have "r0 < r" using assms(2,3) Some bs(1) unfolding bounded_def by (metis le_less_trans)
  ultimately show ?thesis using Some bs by (simp add: create_write_def)
qed (simp add: create_write_def)

lemma cas_guard:
  assumes "index_ok m key"
  shows "m (EncodeRevisionKey key) = Some (index_val old False) \<longleftrightarrow> (\<exists>v. visible m key MaxUint64 = Some (v, old))"
  using assms by (auto simp: index_ok_def index_names_def split: option.splits)

lemma cas_write_SomeD: "cas_write old key r del val m = Some m' \<Longrightarrow>
    m (EncodeRevisionKey key) = Some old \<and> m' = put_version key r del val m"
  by (auto simp: cas_write_def split: if_splits)


section \<open>One guarded write\<close>

text \<open>
  A write attempted at the next revision \<open>d + 1\<close>: whatever the engine answers, the store invariant
  holds again, and either nothing or exactly this write became visible.
\<close>

lemma outcome_visible:
  assumes m: "mvcc_inv m" "bounded m d" "d < MaxUint64" and key: "wf_key key"
    and o: "outcome e w m m'" and w: "\<And>x. w m = Some x \<Longrightarrow> x = put_version key (d + 1) del v m"
    and del: "del \<longleftrightarrow> v = tombStoneBytes" and vo: "vo = (if del then None else Some v)"
  shows "mvcc_inv m' \<and> bounded m' (d + 1)
    \<and> (case e of
         None \<Rightarrow> w m \<noteq> None \<and> visible m' = abs_write key (d + 1) vo (visible m)
       | Some err \<Rightarrow> m' = m \<or> (errors_is err ErrUncertainResult \<and> w m \<noteq> None
                       \<and> visible m' = abs_write key (d + 1) vo (visible m)))"
proof -
  note fr = bounded_fresh[OF m(2,3), of key]
  have gt: "d < d + 1" "0 < d + 1" using succ_greater[OF m(3)] fr by (auto simp: fresh_for_def)
  have put: "mvcc_inv (put_version key (d + 1) del v m) \<and> bounded (put_version key (d + 1) del v m) (d + 1)
      \<and> visible (put_version key (d + 1) del v m) = abs_write key (d + 1) vo (visible m)"
    using mvcc_inv_put_version[OF m(1) fr key del] bounded_put_version[OF m(2) _ gt(2)] gt(1)
      visible_abs_write[OF fr, of vo v del] del vo by auto
  have same: "bounded m (d + 1)" using bounded_mono[OF m(2)] gt(1) by simp
  show ?thesis
  proof (cases e)
    case None
    then have "w m = Some m'" using o by (simp add: outcome_def)
    then show ?thesis using w put None by simp
  next
    case (Some err)
    then have "m' = m \<or> (errors_is err ErrUncertainResult \<and> w m = Some m')" using o by (simp add: outcome_def)
    then show ?thesis
    proof
      assume "m' = m"
      then show ?thesis using Some m(1) same by simp
    next
      assume u: "errors_is err ErrUncertainResult \<and> w m = Some m'"
      then have "m' = put_version key (d + 1) del v m" using w by blast
      then show ?thesis using Some u put by simp
    qed
  qed
qed

lemma create_eq:
  "create kv key val lease b =
     (let r = dealRevision (tso b) + 1;
          (err, s) = CreateWithTTL kv (kvState b) key val r (if bytes_contains key events then eventsTTL else lease)
      in ((r, err), b\<lparr>tso := (tso b)\<lparr>dealRevision := r\<rparr>, kvState := s\<rparr>))"
  by (simp add: create_def deal_eq Let_def creator_Create_def split: prod.splits)

lemma update_eq:
  "update kv old key val lease b =
     (let r = dealRevision (tso b) + 1; b1 = b\<lparr>tso := (tso b)\<lparr>dealRevision := r\<rparr>\<rparr> in
      if 0 < old \<and> r < old then ((0, Some ErrRevisionDriftBack), b1)
      else let (err, s) = kv_Commit kv (kvState b) [CAS (EncodeRevisionKey key) (index_val r False) (index_val old False) 0,
                                                   Put (EncodeObjectKey key r) val 0]
           in ((r, err), b1\<lparr>kvState := s\<rparr>))"
  by (simp add: update_def deal_eq Let_def index_val_live split: prod.splits)

lemma notify_room:
  assumes "room b" "tso b1 = (tso b)\<lparr>dealRevision := dealRevision (tso b) + 1\<rparr>"
  shows "\<exists>b2. notify key val (dealRevision (tso b) + 1) pre valid ty err b1 = Some b2
           \<and> kvState b2 = kvState b1 \<and> tso b2 = tso b1"
  using notify_cases[OF room_next(2,3)[OF assms(1)], of b1 key val pre valid ty err] assms
  by (simp add: GetCurrentRevision_def GetRevision_def room_def)


section \<open>The writes refine the abstract map\<close>

text \<open>
  \<open>wrote\<close>: how a write of \<open>vo\<close> to \<open>key\<close> at revision \<open>r\<close> shows in the visible map, given the error
  \<open>e\<close> the attempt ended with and the condition \<open>g\<close> it was guarded by.
\<close>

definition wrote :: "bytes \<Rightarrow> rev \<Rightarrow> bytes option \<Rightarrow> bool \<Rightarrow> error option \<Rightarrow> mvmap \<Rightarrow> mvmap \<Rightarrow> bool" where
  "wrote key r vo g e V V' \<longleftrightarrow>
     (case e of
        None \<Rightarrow> g \<and> V' = abs_write key r vo V
      | Some err \<Rightarrow> V' = V \<or> (errors_is err ErrUncertainResult \<and> g \<and> V' = abs_write key r vo V))"

lemma create_wrote:
  assumes eng: "kv_engine kv view snap ok" and b: "store_ok view ok b" "room b"
    and key: "wf_key key" and val: "val \<noteq> tombStoneBytes"
    and c: "create kv key val lease b = ((r, e), b')"
  shows "r = dealRevision (tso b) + 1 \<and> tso b' = (tso b)\<lparr>dealRevision := r\<rparr> \<and> store_ok view ok b' \<and> cas_certain e
    \<and> wrote key r (Some val) (visible (view (kvState b)) key MaxUint64 = None) e
         (visible (view (kvState b))) (visible (view (kvState b')))"
proof -
  let ?d = "dealRevision (tso b)" and ?m = "view (kvState b)"
  obtain s where s: "CreateWithTTL kv (kvState b) key val (?d + 1)
      (if bytes_contains key events then eventsTTL else lease) = (e, s)"
    and r: "r = ?d + 1" and b': "b' = b\<lparr>tso := (tso b)\<lparr>dealRevision := r\<rparr>, kvState := s\<rparr>"
    using c by (auto simp: create_eq Let_def split: prod.splits)
  have m: "ok (kvState b)" "mvcc_inv ?m" "bounded ?m ?d" using b(1) by (auto simp: store_ok_def)
  then have ix: "index_ok ?m key" using key by (simp add: mvcc_inv_def)
  have o: "ok s" "outcome e (create_write key (?d + 1) val) ?m (view s)" "cas_certain e"
    using kv_engine.CreateWithTTL_outcome[OF eng m(1) s] by auto
  have "mvcc_inv (view s) \<and> bounded (view s) (?d + 1) \<and> (case e of
         None \<Rightarrow> create_write key (?d + 1) val ?m \<noteq> None \<and> visible (view s) = abs_write key (?d + 1) (Some val) (visible ?m)
       | Some err \<Rightarrow> view s = ?m \<or> (errors_is err ErrUncertainResult \<and> create_write key (?d + 1) val ?m \<noteq> None
                       \<and> visible (view s) = abs_write key (?d + 1) (Some val) (visible ?m)))"
    using val create_write_SomeD by (intro outcome_visible[OF m(2,3) room_next(1)[OF b(2)] key o(2)]) auto
  then show ?thesis
    using o(1,3) r b' create_write_guard[OF ix, of "?d + 1" val]
    by (auto simp: store_ok_def wrote_def split: option.splits)
qed

text \<open>
  \<^verbatim>\<open>Create\<close> on any engine that keeps the storage contract. It never panics while the ring buffer has
  room, it keeps the store invariant, and it answers with the revision it dealt. A success means
  nothing of the key was visible and the key now has the value from that revision on, with every other
  read unchanged; a failed comparison and any certain error mean nothing changed; an uncertain one means one
  of the two.
\<close>

lemma Create_law:
  assumes "kv_engine kv view snap ok" "store_ok view ok b" "room b"
    and "wf_key (CKey req)" "CValue req \<noteq> tombStoneBytes"
  shows "\<exists>res b'. Create kv req b = Some (res, b') \<and> store_ok view ok b' \<and>
    (let V = visible (view (kvState b)); V' = visible (view (kvState b')); r = dealRevision (tso b) + 1 in
     case res of
       Inr resp \<Rightarrow> CRevision resp = r \<and>
         (if CSucceeded resp
          then V (CKey req) MaxUint64 = None \<and> V' = abs_write (CKey req) r (Some (CValue req)) V
          else V' = V)
     | Inl err \<Rightarrow> wrote (CKey req) r (Some (CValue req)) (V (CKey req) MaxUint64 = None) (Some err) V V')"
proof -
  obtain r e b1 where c: "create kv (CKey req) (CValue req) (CLease req) b = ((r, e), b1)"
    by (metis prod.collapse)
  note w = create_wrote[OF assms c]
  then obtain b2 where n: "notify (CKey req) (CValue req) r 0 (e = None) Event_CREATE e b1 = Some b2"
      "kvState b2 = kvState b1" "tso b2 = tso b1"
    using notify_room[OF assms(3), of b1] by metis
  have st: "store_ok view ok b2" using w store_ok_frame[OF n(2,3)] by blast
  show ?thesis
  proof (cases e)
    case None
    then show ?thesis using c n w st by (auto simp: Create_def isCASFailed_def wrote_def Let_def)
  next
    case (Some err)
    show ?thesis
    proof (cases "errors_is err ErrCASFailed")
      case True
      then have "\<not> errors_is err ErrUncertainResult" using w Some by (simp add: cas_certain_def)
      then show ?thesis using Some True c n w st by (auto simp: Create_def isCASFailed_def wrote_def Let_def)
    next
      case False
      then show ?thesis using Some c n w st by (auto simp: Create_def isCASFailed_def wrote_def Let_def)
    qed
  qed
qed


lemma create_succeeds:
  assumes rel: "kv_engine_reliable kv view snap ok" and b: "store_ok view ok b" "room b"
    and key: "wf_key key" and c: "create kv key val lease b = ((r, e), b')"
    and e: "e = Some err"
  shows "errors_is err ErrCASFailed \<and> visible (view (kvState b)) key MaxUint64 \<noteq> None"
proof -
  let ?d = "dealRevision (tso b)" and ?m = "view (kvState b)"
  have m: "ok (kvState b)" "index_ok ?m key" "bounded ?m ?d"
    using b(1) key by (auto simp: store_ok_def mvcc_inv_def)
  obtain s where "CreateWithTTL kv (kvState b) key val (?d + 1)
      (if bytes_contains key events then eventsTTL else lease) = (Some err, s)"
    using c e by (auto simp: create_eq Let_def split: prod.splits)
  from kv_engine_reliable.CreateWithTTL_refuses[OF rel m(1) this m(2)] show ?thesis
    using create_write_enabled[OF m(2,3) room_next(4)[OF b(2)], of val] by blast
qed

text \<open>
  on an engine that is never unavailable, \<^verbatim>\<open>Create\<close> always answers, and it succeeds exactly when
  nothing of the key is visible at the newest revision: a key that was never written, or that was
  deleted, compacted or not.
\<close>

lemma Create_answers:
  assumes "kv_engine_reliable kv view snap ok" "store_ok view ok b" "room b"
    and "wf_key (CKey req)" "CValue req \<noteq> tombStoneBytes"
  shows "\<exists>resp b'. Create kv req b = Some (Inr resp, b')
           \<and> (CSucceeded resp \<longleftrightarrow> visible (view (kvState b)) (CKey req) MaxUint64 = None)"
proof -
  have eng: "kv_engine kv view snap ok" using assms(1) by (simp add: kv_engine_reliable_def)
  obtain r e b1 where c: "create kv (CKey req) (CValue req) (CLease req) b = ((r, e), b1)"
    by (metis prod.collapse)
  note w = create_wrote[OF eng assms(2-5) c]
  then obtain b2 where n: "notify (CKey req) (CValue req) r 0 (e = None) Event_CREATE e b1 = Some b2"
    using notify_room[OF assms(3), of b1] by metis
  show ?thesis
  proof (cases e)
    case None
    then show ?thesis using c n w by (simp add: Create_def isCASFailed_def wrote_def Let_def)
  next
    case (Some err)
    then show ?thesis using c n create_succeeds[OF assms(1-4) c Some]
      by (simp add: Create_def isCASFailed_def Let_def)
  qed
qed

section \<open>Update\<close>

text \<open>
  The condition an update is guarded by: \<open>0\<close> asks for a key that is not there, any other revision
  for the key's current one.
\<close>

definition expects :: "rev \<Rightarrow> (bytes \<times> rev) option \<Rightarrow> bool" where
  "expects prev cur \<longleftrightarrow> (if prev = 0 then cur = None else \<exists>v. cur = Some (v, prev))"

lemma commit_wrote:
  assumes eng: "kv_engine kv view snap ok" and b: "store_ok view ok b" "room b" and key: "wf_key key"
    and del: "del \<longleftrightarrow> v = tombStoneBytes" and d: "d = dealRevision (tso b)"
    and c: "kv_Commit kv (kvState b) [CAS (EncodeRevisionKey key) (index_val (d + 1) del) (index_val old False) 0,
              Put (EncodeObjectKey key (d + 1)) v 0] = (e, s)"
  shows "store_ok view ok (b\<lparr>tso := (tso b)\<lparr>dealRevision := d + 1\<rparr>, kvState := s\<rparr>) \<and> cas_certain e
    \<and> wrote key (d + 1) (if del then None else Some v) (\<exists>v. visible (view (kvState b)) key MaxUint64 = Some (v, old)) e
         (visible (view (kvState b))) (visible (view s))"
proof -
  let ?m = "view (kvState b)"
  have m: "ok (kvState b)" "mvcc_inv ?m" "bounded ?m d" using b(1) d by (auto simp: store_ok_def)
  then have ix: "index_ok ?m key" using key by (simp add: mvcc_inv_def)
  have o: "ok s" "outcome e (cas_write (index_val old False) key (d + 1) del v) ?m (view s)"
    using kv_engine.commit_law[OF eng m(1) c] by (auto simp: outcome_batch[symmetric] apply_batch_cas)
  have "mvcc_inv (view s) \<and> bounded (view s) (d + 1) \<and> (case e of
         None \<Rightarrow> cas_write (index_val old False) key (d + 1) del v ?m \<noteq> None
                 \<and> visible (view s) = abs_write key (d + 1) (if del then None else Some v) (visible ?m)
       | Some err \<Rightarrow> view s = ?m \<or> (errors_is err ErrUncertainResult
                       \<and> cas_write (index_val old False) key (d + 1) del v ?m \<noteq> None
                       \<and> visible (view s) = abs_write key (d + 1) (if del then None else Some v) (visible ?m)))"
    using del d room_next(1)[OF b(2)] cas_write_SomeD
    by (intro outcome_visible[OF m(2,3) _ key o(2)]) auto
  moreover have "cas_write (index_val old False) key (d + 1) del v ?m \<noteq> None \<Longrightarrow>
      \<exists>v. visible ?m key MaxUint64 = Some (v, old)"
    using cas_guard[OF ix, of old] by (auto simp: cas_write_def split: if_splits)
  ultimately show ?thesis
    using o(1) kv_engine.commit_cas_certain[OF eng m(1) c]
    by (auto simp: store_ok_def wrote_def split: option.splits)
qed

lemma update_wrote:
  assumes eng: "kv_engine kv view snap ok" and b: "store_ok view ok b" "room b" and key: "wf_key key"
    and val: "val \<noteq> tombStoneBytes" and old: "0 < old" "old \<le> dealRevision (tso b) + 1"
    and u: "update kv old key val lease b = ((r, e), b')"
  shows "r = dealRevision (tso b) + 1 \<and> tso b' = (tso b)\<lparr>dealRevision := r\<rparr> \<and> store_ok view ok b' \<and> cas_certain e
    \<and> wrote key r (Some val) (\<exists>v. visible (view (kvState b)) key MaxUint64 = Some (v, old)) e
         (visible (view (kvState b))) (visible (view (kvState b')))"
proof -
  let ?d = "dealRevision (tso b)"
  obtain s where s: "kv_Commit kv (kvState b) [CAS (EncodeRevisionKey key) (index_val (?d + 1) False) (index_val old False) 0,
              Put (EncodeObjectKey key (?d + 1)) val 0] = (e, s)"
    and r: "r = ?d + 1" and b': "b' = b\<lparr>tso := (tso b)\<lparr>dealRevision := r\<rparr>, kvState := s\<rparr>"
    using u old by (auto simp: update_eq Let_def split: prod.splits if_splits)
  show ?thesis using commit_wrote[OF eng b key _ refl s] val r b' by simp
qed


lemma update_body_wrote:
  assumes "kv_engine kv view snap ok" "store_ok view ok b" "room b" "wf_key (Key (UKv req))"
    and "Value (UKv req) \<noteq> tombStoneBytes" "Revision (UKv req) \<le> dealRevision (tso b) + 1"
    and "update_body kv req b = ((r, e), b')"
  shows "r = dealRevision (tso b) + 1 \<and> tso b' = (tso b)\<lparr>dealRevision := r\<rparr> \<and> store_ok view ok b' \<and> cas_certain e
    \<and> wrote (Key (UKv req)) r (Some (Value (UKv req)))
         (expects (Revision (UKv req)) (visible (view (kvState b)) (Key (UKv req)) MaxUint64)) e
         (visible (view (kvState b))) (visible (view (kvState b')))"
proof (cases "Revision (UKv req) = 0")
  case True
  then show ?thesis
    using create_wrote[OF assms(1-5)] assms(7) by (simp add: update_body_def expects_def)
next
  case False
  then show ?thesis
    using update_wrote[OF assms(1-5) _ assms(6)] assms(7) by (simp add: update_body_def expects_def word_gt_0)
qed

lemma wrote_same: "wrote key r vo g (Some err) V V" by (simp add: wrote_def)

lemma wrote_cas: "wrote key r vo g (Some err) V V' \<Longrightarrow> cas_certain (Some err) \<Longrightarrow>
    errors_is err ErrCASFailed \<Longrightarrow> V' = V"
  by (auto simp: wrote_def cas_certain_def)

text \<open>What a failed comparison leaves to the handler: a read of the key in an unchanged store.\<close>

lemma get_after_cas:
  assumes eng: "kv_engine kv view snap ok" and st: "store_ok view ok b" and key: "wf_key key"
  shows "\<exists>v r e s. get kv (kvState b) key 0 = Some ((v, r, e), s) \<and> store_ok view ok (b\<lparr>kvState := s\<rparr>)
           \<and> view s = view (kvState b) \<and> answer (view (kvState b)) key MaxUint64 (v, r, e)"
  using kv_engine.get_reads[OF eng _ _ key, of "kvState b" 0] st
  by (fastforce simp: store_ok_def mvcc_inv_def)

text \<open>
  \<^verbatim>\<open>Update\<close> on any engine that keeps the storage contract, for a previous revision that is not ahead
  of the dealt ones. A success means the key's current revision was the expected one (or, for \<open>0\<close>, that
  nothing was visible) and the key has the new value from the dealt revision on; a failed comparison
  changes nothing and hands back exactly what is visible; any certain error changes nothing.
\<close>

lemma Update_law:
  assumes "kv_engine kv view snap ok" "store_ok view ok b" "room b" "wf_key (Key (UKv req))"
    and "Value (UKv req) \<noteq> tombStoneBytes" "Revision (UKv req) \<le> dealRevision (tso b) + 1"
  shows "\<exists>res b'. Update kv req b = Some (res, b') \<and> store_ok view ok b' \<and>
    (let V = visible (view (kvState b)); V' = visible (view (kvState b')); r = dealRevision (tso b) + 1;
         key = Key (UKv req); g = expects (Revision (UKv req)) (V key MaxUint64) in
     case res of
       Inr resp \<Rightarrow>
         (if USucceeded resp then URevision resp = r \<and> g \<and> V' = abs_write key r (Some (Value (UKv req))) V
          else V' = V \<and> map_option (\<lambda>kv. (Value kv, Revision kv)) (UKvOld resp) = V key MaxUint64)
     | Inl err \<Rightarrow> wrote key r (Some (Value (UKv req))) g (Some err) V V')"
proof -
  let ?key = "Key (UKv req)" and ?ty = "if Revision (UKv req) = 0 then Event_CREATE else Event_PUT"
  obtain r e b1 where u: "update_body kv req b = ((r, e), b1)" by (metis prod.collapse)
  note w = update_body_wrote[OF assms u]
  then obtain b2 where n: "notify ?key (Value (UKv req)) r (Revision (UKv req)) (e = None) ?ty e b1 = Some b2"
      "kvState b2 = kvState b1" "tso b2 = tso b1"
    using notify_room[OF assms(3), of b1] by metis
  have st: "store_ok view ok b2" using w store_ok_frame[OF n(2,3)] by blast
  have unf: "Update kv req b =
     (if isCASFailed e then update_conflict kv ?key r b2
      else case e of Some e \<Rightarrow> Some (Inl e, b2)
           | None \<Rightarrow> Some (Inr \<lparr>URevision = r, USucceeded = True, UKvOld = None\<rparr>, b2))"
    using u n by (simp add: Update_def Let_def)
  show ?thesis
  proof (cases e)
    case None
    then show ?thesis unfolding unf using w n st by (simp add: isCASFailed_def wrote_def Let_def)
  next
    case (Some err)
    show ?thesis
    proof (cases "errors_is err ErrCASFailed")
      case True
      obtain v mr ge s where g: "get kv (kvState b2) ?key 0 = Some ((v, mr, ge), s)"
          "store_ok view ok (b2\<lparr>kvState := s\<rparr>)" "view s = view (kvState b2)"
          "answer (view (kvState b2)) ?key MaxUint64 (v, mr, ge)"
        using get_after_cas[OF assms(1) st assms(4)] by blast
      have same: "visible (view (kvState b1)) = visible (view (kvState b))"
        using w Some True wrote_cas by blast
      then show ?thesis unfolding unf using Some True g n
        by (cases ge) (auto simp: isCASFailed_def update_conflict_def answer_def wrote_same Let_def)
    next
      case False
      then show ?thesis unfolding unf using Some w n st by (auto simp: isCASFailed_def Let_def)
    qed
  qed
qed


text \<open>
  on an engine that is never unavailable, \<^verbatim>\<open>Update\<close> always answers, and it succeeds exactly when the
  key's current revision is the expected one (for \<open>0\<close>: when the key is absent).
\<close>

lemma Update_answers:
  assumes rel: "kv_engine_reliable kv view snap ok" and b: "store_ok view ok b" "room b"
    and key: "wf_key (Key (UKv req))" and val: "Value (UKv req) \<noteq> tombStoneBytes"
    and prev: "Revision (UKv req) \<le> dealRevision (tso b) + 1"
  shows "\<exists>resp b'. Update kv req b = Some (Inr resp, b')
    \<and> (USucceeded resp \<longleftrightarrow> expects (Revision (UKv req)) (visible (view (kvState b)) (Key (UKv req)) MaxUint64))"
proof -
  let ?d = "dealRevision (tso b)" and ?m = "view (kvState b)" and ?key = "Key (UKv req)"
  have eng: "kv_engine kv view snap ok" using rel by (simp add: kv_engine_reliable_def)
  obtain r e b1 where u: "update_body kv req b = ((r, e), b1)" by (metis prod.collapse)
  note w = update_body_wrote[OF eng b key val prev u]
  then obtain b2 where n: "notify ?key (Value (UKv req)) r (Revision (UKv req)) (e = None)
      (if Revision (UKv req) = 0 then Event_CREATE else Event_PUT) e b1 = Some b2" "kvState b2 = kvState b1" "tso b2 = tso b1"
    using notify_room[OF b(2), of b1] by metis
  have st: "store_ok view ok b2" using w store_ok_frame[OF n(2,3)] by blast
  have ix: "index_ok ?m ?key" "ok (kvState b)" using b(1) key by (auto simp: store_ok_def mvcc_inv_def)
  have refused: "errors_is err ErrCASFailed \<and> \<not> expects (Revision (UKv req)) (visible ?m ?key MaxUint64)"
    if e: "e = Some err" for err
  proof (cases "Revision (UKv req) = 0")
    case True
    then show ?thesis
      using create_succeeds[OF rel b key _ e] u by (auto simp: update_body_def expects_def)
  next
    case False
    then obtain s where "kv_Commit kv (kvState b) [CAS (EncodeRevisionKey ?key) (index_val (?d + 1) False)
         (index_val (Revision (UKv req)) False) 0, Put (EncodeObjectKey ?key (?d + 1)) (Value (UKv req)) 0] = (Some err, s)"
      using u e prev by (auto simp: update_body_def update_eq Let_def split: prod.splits if_splits)
    from kv_engine_reliable.commit_answers[OF rel ix(2) this] show ?thesis
      using False cas_guard[OF ix(1), of "Revision (UKv req)"]
      by (auto simp: apply_batch_cas cas_write_def expects_def split: if_splits)
  qed
  show ?thesis
  proof (cases e)
    case None
    then show ?thesis using w n u by (auto simp: Update_def isCASFailed_def wrote_def Let_def)
  next
    case (Some err)
    obtain v mr ge s where g: "get kv (kvState b2) ?key 0 = Some ((v, mr, ge), s)"
      using get_after_cas[OF eng st key] by blast
    moreover have "e = ErrKeyNotFound" if "ge = Some e" for e
      using kv_engine_reliable.get_reliable[OF rel _ g[unfolded that]] st by (simp add: store_ok_def)
    ultimately show ?thesis using refused[OF Some] Some n u
      by (cases ge) (auto simp: Update_def isCASFailed_def update_conflict_def Let_def)
  qed
qed

section \<open>Delete\<close>

definition deletes :: "rev \<Rightarrow> (bytes \<times> rev) option \<Rightarrow> bool" where
  "deletes prev cur \<longleftrightarrow> (\<exists>v r. cur = Some (v, r) \<and> (prev = 0 \<or> prev = r))"

lemma delete_wrote:
  assumes eng: "kv_engine kv view snap ok" and b: "store_ok view ok b" "room b" and key: "wf_key key"
    and prev: "old \<le> dealRevision (tso b) + 1"
  shows "\<exists>r kvl e b'. delete kv old key b = Some ((r, kvl, e), b')
    \<and> r = dealRevision (tso b) + 1 \<and> tso b' = (tso b)\<lparr>dealRevision := r\<rparr> \<and> store_ok view ok b'
    \<and> wrote key r None (deletes old (visible (view (kvState b)) key MaxUint64)) e
         (visible (view (kvState b))) (visible (view (kvState b')))
    \<and> (isCASFailed e \<longrightarrow> visible (view (kvState b')) = visible (view (kvState b)))
    \<and> (e = None \<longrightarrow> kvKey kvl = key \<and> visible (view (kvState b)) key MaxUint64 = Some (kvVal kvl, kvRevision kvl))"
proof -
  let ?d = "dealRevision (tso b)" and ?m = "view (kvState b)"
  note gt = room_next(4)[OF b(2)]
  obtain v mr ge s where g: "get kv (kvState b) key 0 = Some ((v, mr, ge), s)"
      "store_ok view ok (b\<lparr>kvState := s\<rparr>)" "view s = ?m" "answer ?m key MaxUint64 (v, mr, ge)"
    using get_after_cas[OF eng b(1) key] by blast
  let ?b1 = "b\<lparr>kvState := s\<rparr>" and ?b2 = "b\<lparr>kvState := s, tso := (tso b)\<lparr>dealRevision := ?d + 1\<rparr>\<rparr>"
  have st2: "store_ok view ok ?b2"
    using g(2) bounded_mono[of "view s" ?d "?d + 1"] gt by (simp add: store_ok_def)
  show ?thesis
  proof (cases ge)
    case (Some err)
    then show ?thesis using g(1,3) st2
      by (simp add: delete_def mustDeal_eq wrote_same)
  next
    case None
    then obtain v0 where v: "v = Some v0" "visible ?m key MaxUint64 = Some (v0, mr)"
      using g(4) by (auto simp: answer_def)
    then have mr: "mr \<le> ?d" "mr \<noteq> 0" using b(1) visible_bounds[OF v(2)]
      by (auto simp: store_ok_def bounded_def visible_Some_iff latest_Some_iff)
    have nd: "\<not> (0 < old \<and> ?d + 1 < old)" using prev by auto
    show ?thesis
    proof (cases "old = 0 \<or> old = mr")
      case False
      then show ?thesis using g(1,3) st2 None nd
        by (simp add: delete_def deal_eq Let_def wrote_same word_gt_0)
    next
      case True
      obtain e s' where c: "kv_Commit kv s [CAS (EncodeRevisionKey key) (index_val (?d + 1) True) (index_val mr False) 0,
              Put (EncodeObjectKey key (?d + 1)) tombStoneBytes 0] = (e, s')" by fastforce
      have room: "room ?b1" using b(2) by (simp add: room_def)
      have w: "store_ok view ok (?b2\<lparr>kvState := s'\<rparr>)" "cas_certain e"
          "wrote key (?d + 1) None (\<exists>v. visible ?m key MaxUint64 = Some (v, mr)) e (visible ?m) (visible (view s'))"
        using commit_wrote[OF eng g(2) room key, of True tombStoneBytes ?d mr e s'] c g(3) by simp_all
      have "delete kv old key b = Some ((?d + 1, \<lparr>kvKey = key, kvVal = v0, kvRevision = mr\<rparr>, e), ?b2\<lparr>kvState := s'\<rparr>)"
        using g(1) None v nd True mr gt c
        by (auto simp: delete_def deal_eq Let_def index_val_def word_gt_0)
      moreover have "deletes old (visible ?m key MaxUint64)" using v True by (auto simp: deletes_def)
      moreover have "isCASFailed e \<Longrightarrow> visible (view s') = visible ?m"
        using w(2,3) wrote_cas by (auto simp: isCASFailed_def split: option.splits)
      ultimately show ?thesis using w v by (auto simp: wrote_def split: option.splits)
    qed
  qed
qed


text \<open>
  \<^verbatim>\<open>Delete\<close> on any engine that keeps the storage contract, for a previous revision that is not ahead
  of the dealt ones. A success means the key was visible, at the expected revision if one was given,
  the response carries exactly the deleted value and revision, and from the dealt revision on nothing
  of the key is visible while older reads are unchanged; anything else but an uncertain error changes
  nothing.
\<close>

lemma Delete_law:
  assumes "kv_engine kv view snap ok" "store_ok view ok b" "room b" "wf_key (DKey req)"
    and "DRevision req \<le> dealRevision (tso b) + 1"
  shows "\<exists>res b'. Delete kv req b = Some (res, b') \<and> store_ok view ok b' \<and>
    (let V = visible (view (kvState b)); V' = visible (view (kvState b')); r = dealRevision (tso b) + 1;
         key = DKey req; g = deletes (DRevision req) (V key MaxUint64) in
     case res of
       Inr resp \<Rightarrow>
         (if DSucceeded resp
          then DHeader resp = r \<and> g \<and> V' = abs_write key r None V
               \<and> map_option (\<lambda>kv. (Value kv, Revision kv)) (DKv resp) = V key MaxUint64
          else V' = V)
     | Inl err \<Rightarrow> wrote key r None g (Some err) V V')"
proof -
  obtain r kvl e b1 where d: "delete kv (DRevision req) (DKey req) b = Some ((r, kvl, e), b1)"
    and w: "r = dealRevision (tso b) + 1" "tso b1 = (tso b)\<lparr>dealRevision := r\<rparr>" "store_ok view ok b1"
      "wrote (DKey req) r None (deletes (DRevision req) (visible (view (kvState b)) (DKey req) MaxUint64)) e
         (visible (view (kvState b))) (visible (view (kvState b1)))"
      "isCASFailed e \<longrightarrow> visible (view (kvState b1)) = visible (view (kvState b))"
      "e = None \<longrightarrow> kvKey kvl = DKey req \<and> visible (view (kvState b)) (DKey req) MaxUint64 = Some (kvVal kvl, kvRevision kvl)"
    using delete_wrote[OF assms] by blast
  obtain b2 where n: "notify (DKey req) (kvVal kvl) r (kvRevision kvl) (e = None) Event_DELETE e b1 = Some b2"
      "kvState b2 = kvState b1" "tso b2 = tso b1"
    using notify_room[OF assms(3), of b1] w(1,2) by metis
  note st = store_ok_frame[OF n(2,3) w(3)]
  show ?thesis
  proof (cases e)
    case None
    then show ?thesis using d n st w by (auto simp: Delete_def isCASFailed_def wrote_def Let_def)
  next
    case (Some err)
    have nf: "visible (view (kvState b1)) = visible (view (kvState b))" if "err = ErrKeyNotFound"
      using w(4) Some that by (simp add: wrote_def)
    obtain v mr ge s where g: "get kv (kvState b2) (DKey req) 0 = Some ((v, mr, ge), s)"
        "store_ok view ok (b2\<lparr>kvState := s\<rparr>)" "view s = view (kvState b2)"
      using get_after_cas[OF assms(1) st assms(4)] by blast
    then show ?thesis using Some d n st w nf
      by (cases "err = ErrKeyNotFound"; cases "isCASFailed e")
         (auto simp: Delete_def delete_conflict_def isCASFailed_def Let_def)
  qed
qed

lemma delete_answers:
  assumes rel: "kv_engine_reliable kv view snap ok" and b: "store_ok view ok b" "room b" and key: "wf_key key"
    and prev: "old \<le> dealRevision (tso b) + 1" and d: "delete kv old key b = Some ((r, kvl, Some err), b')"
  shows "\<not> deletes old (visible (view (kvState b)) key MaxUint64) \<and> (err = ErrKeyNotFound \<or> errors_is err ErrCASFailed)"
proof -
  let ?d = "dealRevision (tso b)" and ?m = "view (kvState b)"
  have eng: "kv_engine kv view snap ok" using rel by (simp add: kv_engine_reliable_def)
  have m: "ok (kvState b)" "index_ok ?m key" using b(1) key by (auto simp: store_ok_def mvcc_inv_def)
  obtain v mr ge s where g: "get kv (kvState b) key 0 = Some ((v, mr, ge), s)" "view s = ?m" "ok s"
      "answer ?m key MaxUint64 (v, mr, ge)"
    using get_after_cas[OF eng b(1) key] by (auto simp: store_ok_def)
  show ?thesis
  proof (cases ge)
    case (Some e)
    then have "e = ErrKeyNotFound" using kv_engine_reliable.get_reliable[OF rel m(1)] g(1) by blast
    then show ?thesis using Some g d by (auto simp: delete_def mustDeal_eq answer_def deletes_def)
  next
    case None
    then obtain v0 where v: "v = Some v0" "visible ?m key MaxUint64 = Some (v0, mr)"
      using g(4) by (auto simp: answer_def)
    then have "mr \<le> ?d" "mr \<noteq> 0" using b(1) visible_bounds[OF v(2)]
      by (auto simp: store_ok_def bounded_def visible_Some_iff latest_Some_iff)
    then have mr: "\<not> ?d + 1 \<le> mr" "mr \<noteq> 0" using room_next(4)[OF b(2)] by auto
    have nd: "\<not> (0 < old \<and> ?d + 1 < old)" using prev by auto
    show ?thesis
    proof (cases "old = 0 \<or> old = mr")
      case False
      then show ?thesis using g(1) None nd d v
        by (auto simp: delete_def deal_eq Let_def word_gt_0 deletes_def)
    next
      case True
      then have "kv_Commit kv s [CAS (EncodeRevisionKey key) (index_val (?d + 1) True) (index_val mr False) 0,
              Put (EncodeObjectKey key (?d + 1)) tombStoneBytes 0] = (Some err, kvState b')"
        using g(1) None nd d v mr by (auto simp: delete_def deal_eq Let_def index_val_def word_gt_0 split: prod.splits)
      from kv_engine_reliable.commit_answers[OF rel g(3) this] show ?thesis
        using cas_guard[OF m(2), of mr] v mr(2) g(2) by (auto simp: apply_batch_cas cas_write_def split: if_splits)
    qed
  qed
qed

text \<open>
  On an engine that is never unavailable, \<^verbatim>\<open>Delete\<close> always answers, and it succeeds exactly when the key is there,
  at the expected revision if one was given.
\<close>

lemma Delete_answers:
  assumes rel: "kv_engine_reliable kv view snap ok" and b: "store_ok view ok b" "room b" "wf_key (DKey req)"
    and prev: "DRevision req \<le> dealRevision (tso b) + 1"
  shows "\<exists>resp b'. Delete kv req b = Some (Inr resp, b')
    \<and> (DSucceeded resp \<longleftrightarrow> deletes (DRevision req) (visible (view (kvState b)) (DKey req) MaxUint64))"
proof -
  have eng: "kv_engine kv view snap ok" using rel by (simp add: kv_engine_reliable_def)
  obtain r kvl e b1 where d: "delete kv (DRevision req) (DKey req) b = Some ((r, kvl, e), b1)"
    and w: "r = dealRevision (tso b) + 1" "tso b1 = (tso b)\<lparr>dealRevision := r\<rparr>" "store_ok view ok b1"
      "wrote (DKey req) r None (deletes (DRevision req) (visible (view (kvState b)) (DKey req) MaxUint64)) e
         (visible (view (kvState b))) (visible (view (kvState b1)))"
    using delete_wrote[OF eng b prev] by blast
  obtain b2 where n: "notify (DKey req) (kvVal kvl) r (kvRevision kvl) (e = None) Event_DELETE e b1 = Some b2"
      "kvState b2 = kvState b1" "tso b2 = tso b1"
    using notify_room[OF b(2), of b1] w(1,2) by metis
  note st = store_ok_frame[OF n(2,3) w(3)]
  show ?thesis
  proof (cases e)
    case None
    then show ?thesis using d n w by (simp add: Delete_def isCASFailed_def wrote_def)
  next
    case (Some err)
    obtain v mr ge s where "get kv (kvState b2) (DKey req) 0 = Some ((v, mr, ge), s)"
      using get_after_cas[OF eng st b(3)] by blast
    then show ?thesis using delete_answers[OF rel b prev d[unfolded Some]] Some d n
      by (auto simp: Delete_def delete_conflict_def isCASFailed_def Let_def)
  qed
qed

section \<open>Drift\<close>

text \<open>
  An \<^verbatim>\<open>Update\<close> that names a previous revision ahead of the next one is refused with the drift error and
  leaves store and ring buffer alone, but the revision dealt for it is gone: it is neither written nor
  notified to the collector.
\<close>

lemma Update_drift_loses_revision:
  assumes "dealRevision (tso b) + 1 < Revision (UKv req)"
  shows "Update kv req b =
    Some (Inl ErrRevisionDriftBack, b\<lparr>tso := (tso b)\<lparr>dealRevision := dealRevision (tso b) + 1\<rparr>\<rparr>)"
proof -
  have "(0 :: rev) \<le> dealRevision (tso b) + 1" by simp
  then have "0 < Revision (UKv req)" using assms by (rule order_le_less_trans)
  then show ?thesis
    using assms by (auto simp: Update_def update_body_def update_eq notify_def isCASFailed_def Let_def)
qed


section \<open>Samples\<close>

lemma tso_sample_backend [simp]: "tso sample_backend = \<lparr>committedRevision = 5, dealRevision = 5\<rparr>"
  by (simp add: sample_backend_def NewBackend_def SetCurrentRevision_def NewTSO_def Commit_def Let_def)

lemma bounded_empty: "bounded Map.empty d"
  by (simp add: bounded_def)

lemma store_ok_sample_backend: "store_ok mem_view (\<lambda>s. True) sample_backend"
  using mvcc_inv_sample_store bounded_put_version[OF bounded_empty, of 5 5 sample_key False "[1, 2]"]
  by (simp add: store_ok_def view_sample_store)

lemma room_sample_backend: "room sample_backend"
  by (simp add: room_def watchersChanCapacity_def)

lemmas sample_facts = store_ok_sample_backend room_sample_backend wf_sample_key sample_value
  visible_sample_store

definition sample_key2 :: bytes where
  "sample_key2 = bytes_of_string ''/b''"

lemma sample_key2: "wf_key sample_key2" "sample_key2 \<noteq> sample_key"
  by (simp_all add: wf_key_def sample_key2_def sample_key_def bytes_of_string_def splitByte_def)

lemma sample_update_value: "[3] \<noteq> tombStoneBytes"
  by (simp add: tombStoneBytes_def bytes_of_string_def)

end
