(* ===== verification/Sequencer.thy ===== *)
theory Sequencer
  imports Backend
begin

text \<open>
  Writers, the collector and the retry loop share the allocator, the slots and the queue of
  uncertain operations. Their interleavings are the runs of the step relation \<open>seq_step\<close>; each step is
  one of the backend's own operations. The invariant shows that the collector passes every dealt
  revision exactly once and in order, whatever order the writers finish in.

  A state carries two ghost components: \<open>inflight\<close>, the revisions dealt and not yet notified, and
  \<open>noted\<close>, the event notified for each revision.
\<close>

section \<open>Steps\<close>

record 's seq =
  sb :: "'s backend"
  inflight :: "rev set"
  noted :: "nat \<Rightarrow> WatchEvent option"

abbreviation cm :: "'s backend \<Rightarrow> nat" where
  "cm b \<equiv> unat (committedRevision (tso b))"

abbreviation dl :: "'s backend \<Rightarrow> nat" where
  "dl b \<equiv> unat (dealRevision (tso b))"

inductive seq_step :: "'s seq \<Rightarrow> 's seq \<Rightarrow> bool" where
  seq_deal: "deal prev (sb st) = ((r, e), b') \<Longrightarrow> dl (sb st) + 1 < 2 ^ 63 \<Longrightarrow>
     seq_step st (st\<lparr>sb := b', inflight := insert r (inflight st)\<rparr>)"
| seq_write: "seq_step st (st\<lparr>sb := (sb st)\<lparr>kvState := s'\<rparr>\<rparr>)"
| seq_notify: "r \<in> inflight st \<Longrightarrow> notify key val r pre valid ty err (sb st) = Some b' \<Longrightarrow>
     seq_step st (st\<lparr>sb := b', inflight := inflight st - {r},
       noted := (noted st)(unat r \<mapsto> \<lparr>WRevision = r, WPrevRevision = pre, WResourceVerb = ty, WValid = valid,
                                      WKey = key, WValue = val, WErr = err\<rparr>)\<rparr>)"
| seq_collect: "seq_step st (st\<lparr>sb := collectStep (sb st)\<rparr>)"
| seq_pop: "getHead (retryQueue (sb st)) \<noteq> None \<Longrightarrow>
     seq_step st (st\<lparr>sb := (sb st)\<lparr>retryQueue := pop (retryQueue (sb st))\<rparr>\<rparr>)"
| seq_tick: "clock (sb st) \<le> t \<Longrightarrow> seq_step st (st\<lparr>sb := (sb st)\<lparr>clock := t\<rparr>\<rparr>)"

text \<open>A backend that starts to serve at the revision \<open>start\<close>.\<close>

definition seq_init :: "'s \<Rightarrow> Config \<Rightarrow> int \<Rightarrow> rev \<Rightarrow> 's seq" where
  "seq_init s conf now start =
     \<lparr>sb = SetCurrentRevision start (NewBackend s conf now), inflight = {}, noted = (\<lambda>n. None)\<rparr>"

inductive seq_reach :: "'s seq \<Rightarrow> 's seq \<Rightarrow> bool" for st0 :: "'s seq" where
  seq_start: "seq_reach st0 st0"
| seq_next: "seq_reach st0 st \<Longrightarrow> seq_step st st' \<Longrightarrow> seq_reach st0 st'"

inductive_cases seq_stepE: "seq_step st st'"

section \<open>The invariant\<close>

text \<open>The events handed to the watchers so far, and those that should have been.\<close>

definition delivered :: "'s backend \<Rightarrow> Event list" where
  "delivered b = concat (watchChan b) @ pending b"

definition should_deliver :: "(nat \<Rightarrow> WatchEvent option) \<Rightarrow> nat \<Rightarrow> nat \<Rightarrow> Event list" where
  "should_deliver N c0 c = map eventOf (filter WValid (map (the \<circ> N) [Suc c0..<Suc c]))"

definition slot_ok :: "'s seq \<Rightarrow> bool" where
  "slot_ok st \<longleftrightarrow> (\<forall>i we. watchEventsRingBuffer (sb st) i = Some we \<longrightarrow>
     (let n = unat (WRevision we) in
      cm (sb st) < n \<and> n \<le> dl (sb st) \<and> n < cm (sb st) + capNat \<and> i = n mod capNat
      \<and> noted st n = Some we \<and> WRevision we \<notin> inflight st))"

definition no_gap :: "'s seq \<Rightarrow> bool" where
  "no_gap st \<longleftrightarrow> (\<forall>n. cm (sb st) < n \<and> n \<le> dl (sb st) \<longrightarrow>
     (\<exists>r \<in> inflight st. unat r = n)
     \<or> (\<exists>we. watchEventsRingBuffer (sb st) (n mod capNat) = Some we \<and> unat (WRevision we) = n))"

definition queue_ok :: "'s backend \<Rightarrow> bool" where
  "queue_ok b \<longleftrightarrow> queue_inv (retryQueue b)
     \<and> sorted_wrt (<) (map (WRevision \<circ> fst) (entries (retryQueue b)))
     \<and> (\<forall>x \<in> set (entries (retryQueue b)). WRevision (fst x) \<le> committedRevision (tso b))"

definition cache_ok :: "'s backend \<Rightarrow> bool" where
  "cache_ok b \<longleftrightarrow> ring_inv (watchCache b)
     \<and> ring_list (watchCache b) = drop (length (delivered b) - rl (watchCache b)) (delivered b)"

definition seq_inv :: "nat \<Rightarrow> 's seq \<Rightarrow> bool" where
  "seq_inv c0 st \<longleftrightarrow>
     c0 \<le> cm (sb st) \<and> cm (sb st) \<le> dl (sb st) \<and> dl (sb st) < 2 ^ 63
     \<and> (\<forall>r \<in> inflight st. cm (sb st) < unat r \<and> unat r \<le> dl (sb st))
     \<and> slot_ok st \<and> no_gap st
     \<and> (\<forall>n we. noted st n = Some we \<longrightarrow> unat (WRevision we) = n)
     \<and> (\<forall>n. c0 < n \<and> n \<le> cm (sb st) \<longrightarrow> noted st n \<noteq> None)
     \<and> delivered (sb st) = should_deliver (noted st) c0 (cm (sb st))
     \<and> cache_ok (sb st) \<and> queue_ok (sb st)"

lemma mod_window_eq:
  assumes "c < a" "a < c + m" "c < b" "b < c + m" "a mod m = b mod (m :: nat)"
  shows "a = b"
proof (rule ccontr)
  assume "a \<noteq> b"
  then consider "a < b" | "b < a" by linarith
  then show False using mod_neq[of a b m] mod_neq[of b a m] assms by cases auto
qed


lemma seq_invD:
  assumes "seq_inv c0 st"
  shows "c0 \<le> cm (sb st)" "cm (sb st) \<le> dl (sb st)" "dl (sb st) < 2 ^ 63"
    "\<And>r. r \<in> inflight st \<Longrightarrow> cm (sb st) < unat r \<and> unat r \<le> dl (sb st)"
    "slot_ok st" "no_gap st" "\<And>n we. noted st n = Some we \<Longrightarrow> unat (WRevision we) = n"
    "\<And>n. c0 < n \<Longrightarrow> n \<le> cm (sb st) \<Longrightarrow> noted st n \<noteq> None"
    "delivered (sb st) = should_deliver (noted st) c0 (cm (sb st))" "cache_ok (sb st)" "queue_ok (sb st)"
  using assms by (auto simp: seq_inv_def)

lemma small_less_Max: "unat (d :: rev) < 2 ^ 63 \<Longrightarrow> d < MaxUint64"
  by (simp add: word_less_nat_alt unat_MaxUint64)

lemma slot_okD:
  assumes "slot_ok st" "watchEventsRingBuffer (sb st) i = Some we"
  shows "cm (sb st) < unat (WRevision we)" "unat (WRevision we) \<le> dl (sb st)"
    "unat (WRevision we) < cm (sb st) + capNat" "i = unat (WRevision we) mod capNat"
    "noted st (unat (WRevision we)) = Some we" "WRevision we \<notin> inflight st"
  using assms by (auto simp: slot_ok_def Let_def)

lemma should_deliver_cong:
  "(\<And>n. c0 < n \<Longrightarrow> n \<le> c \<Longrightarrow> N n = N' n) \<Longrightarrow> should_deliver N c0 c = should_deliver N' c0 c"
  unfolding should_deliver_def by (intro arg_cong[where f = "\<lambda>x. map eventOf (filter WValid x)"]) auto

lemma should_deliver_Suc:
  assumes "c0 \<le> c"
  shows "should_deliver N c0 (Suc c) = should_deliver N c0 c @ (if WValid (the (N (Suc c))) then [eventOf (the (N (Suc c)))] else [])"
  using assms by (simp add: should_deliver_def)

section \<open>Every step keeps it\<close>

lemma seq_inv_deal:
  assumes inv: "seq_inv c0 st" and d: "deal prev (sb st) = ((r, e), b')" and lim: "dl (sb st) + 1 < 2 ^ 63"
  shows "seq_inv c0 (st\<lparr>sb := b', inflight := insert r (inflight st)\<rparr>)"
proof -
  note I = seq_invD[OF inv]
  have r: "r = dealRevision (tso (sb st)) + 1" and b': "b' = (sb st)\<lparr>tso := (tso (sb st))\<lparr>dealRevision := r\<rparr>\<rparr>"
    using d by (auto simp: deal_eq Let_def)
  have ur: "unat r = dl (sb st) + 1" using unat_succ[OF small_less_Max] I(3) r by simp
  have same: "cm b' = cm (sb st)" "watchEventsRingBuffer b' = watchEventsRingBuffer (sb st)" "dl b' = dl (sb st) + 1"
    "delivered b' = delivered (sb st)" "watchCache b' = watchCache (sb st)" "retryQueue b' = retryQueue (sb st)"
    "committedRevision (tso b') = committedRevision (tso (sb st))"
    using b' ur by (simp_all add: delivered_def)
  have "slot_ok (st\<lparr>sb := b', inflight := insert r (inflight st)\<rparr>)"
    unfolding slot_ok_def Let_def using slot_okD[OF I(5)] same ur by fastforce
  moreover have "no_gap (st\<lparr>sb := b', inflight := insert r (inflight st)\<rparr>)"
    unfolding no_gap_def
  proof (intro allI impI)
    fix n assume n: "cm (sb (st\<lparr>sb := b', inflight := insert r (inflight st)\<rparr>)) < n
      \<and> n \<le> dl (sb (st\<lparr>sb := b', inflight := insert r (inflight st)\<rparr>))"
    show "(\<exists>r\<in>inflight (st\<lparr>sb := b', inflight := insert r (inflight st)\<rparr>). unat r = n)
      \<or> (\<exists>we. watchEventsRingBuffer (sb (st\<lparr>sb := b', inflight := insert r (inflight st)\<rparr>)) (n mod capNat) = Some we
               \<and> unat (WRevision we) = n)"
      using I(6) n same ur unfolding no_gap_def by (cases "n = unat r") auto
  qed
  moreover have "\<forall>x \<in> insert r (inflight st). cm (sb st) < unat x \<and> unat x \<le> dl (sb st) + 1"
  proof
    fix x assume "x \<in> insert r (inflight st)"
    then show "cm (sb st) < unat x \<and> unat x \<le> dl (sb st) + 1" using I(2) I(4)[of x] ur by auto
  qed
  moreover have "cache_ok b'" "queue_ok b'" using I(10,11) same by (simp_all add: cache_ok_def queue_ok_def)
  ultimately show ?thesis
    using I(1-3,7-9) same ur lim unfolding seq_inv_def by simp
qed

lemma notify_Some:
  assumes "notify key val r pre valid ty err b = Some b'" "r \<noteq> 0"
  shows "r - committedRevision (tso b) < watchersChanCapacity"
  using assms by (auto simp: notify_def GetCurrentRevision_def GetRevision_def Let_def split: if_splits)

lemma seq_inv_notify:
  assumes inv: "seq_inv c0 st" and r: "r \<in> inflight st"
    and n: "notify key val r pre valid ty err (sb st) = Some b'"
    and we: "we = \<lparr>WRevision = r, WPrevRevision = pre, WResourceVerb = ty, WValid = valid,
                    WKey = key, WValue = val, WErr = err\<rparr>"
  shows "seq_inv c0 (st\<lparr>sb := b', inflight := inflight st - {r}, noted := (noted st)(unat r \<mapsto> we)\<rparr>)"
    (is "seq_inv c0 ?st")
proof -
  note I = seq_invD[OF inv]
  have ur: "cm (sb st) < unat r" "unat r \<le> dl (sb st)" using I(4)[OF r] by auto
  then have r0: "r \<noteq> 0" and ok: "int64_ok r" using I(3) by (auto simp: int64_ok_def)
  note lt = notify_Some[OF n r0]
  have "unat (r - committedRevision (tso (sb st))) = unat r - cm (sb st)"
    using ur(1) by (simp add: unat_sub word_le_nat_alt)
  then have cap: "unat r < cm (sb st) + capNat" using lt ur(1) by (simp add: word_less_nat_alt)
  have b': "b' = (sb st)\<lparr>watchEventsRingBuffer := (watchEventsRingBuffer (sb st))(unat r mod capNat \<mapsto> we)\<rparr>"
    using notify_cases[OF ok r0, of "sb st"] lt n we by (simp add: GetCurrentRevision_def GetRevision_def)
  have wr: "WRevision we = r" using we by simp
  have "slot_ok ?st"
    unfolding slot_ok_def Let_def
  proof (intro allI impI)
    fix i x assume x: "watchEventsRingBuffer (sb ?st) i = Some x"
    show "cm (sb ?st) < unat (WRevision x) \<and> unat (WRevision x) \<le> dl (sb ?st) \<and> unat (WRevision x) < cm (sb ?st) + capNat
      \<and> i = unat (WRevision x) mod capNat \<and> noted ?st (unat (WRevision x)) = Some x \<and> WRevision x \<notin> inflight ?st"
    proof (cases "i = unat r mod capNat")
      case True
      then have "x = we" using x b' by simp
      then show ?thesis using True b' wr ur cap by simp
    next
      case False
      then have "watchEventsRingBuffer (sb st) i = Some x" using x b' by simp
      note S = slot_okD[OF I(5) this]
      then have "unat (WRevision x) \<noteq> unat r" using False by auto
      then show ?thesis using S b' by simp
    qed
  qed
  moreover have "no_gap ?st"
    unfolding no_gap_def
  proof (intro allI impI)
    fix n assume "cm (sb ?st) < n \<and> n \<le> dl (sb ?st)"
    then have nn: "cm (sb st) < n" "n \<le> dl (sb st)" using b' by auto
    show "(\<exists>r\<in>inflight ?st. unat r = n)
      \<or> (\<exists>we. watchEventsRingBuffer (sb ?st) (n mod capNat) = Some we \<and> unat (WRevision we) = n)"
    proof (cases "n = unat r")
      case True
      then show ?thesis using b' wr by simp
    next
      case False
      from I(6) nn consider r' where "r' \<in> inflight st" "unat r' = n"
        | x where "watchEventsRingBuffer (sb st) (n mod capNat) = Some x" "unat (WRevision x) = n"
        unfolding no_gap_def by blast
      then show ?thesis
      proof cases
        case 1
        then show ?thesis using False by auto
      next
        case 2
        have "n < cm (sb st) + capNat" using slot_okD(3)[OF I(5) 2(1)] 2(2) by simp
        then have "n mod capNat \<noteq> unat r mod capNat"
          using mod_window_eq[OF nn(1) _ ur(1) cap] False by blast
        then show ?thesis using 2 b' by simp
      qed
    qed
  qed
  moreover have "should_deliver (noted ?st) c0 (cm (sb st)) = should_deliver (noted st) c0 (cm (sb st))"
    using ur by (intro should_deliver_cong) simp
  moreover have "cache_ok b'" "queue_ok b'" "delivered b' = delivered (sb st)" "tso b' = tso (sb st)"
    using I(10,11) b' by (simp_all add: cache_ok_def queue_ok_def delivered_def)
  moreover have "\<forall>n x. ((noted st)(unat r \<mapsto> we)) n = Some x \<longrightarrow> unat (WRevision x) = n"
    using I(7) wr by auto
  ultimately show ?thesis
    using I(1-4,8,9) unfolding seq_inv_def by simp
qed


lemma cache_ok_Add:
  assumes "cache_ok b" "watchCache b' = Add e (watchCache b)" "delivered b' = delivered b @ [e]"
  shows "cache_ok b'"
proof -
  let ?D = "delivered b" and ?r = "watchCache b"
  have inv: "ring_inv ?r" and L: "ring_list ?r = drop (length ?D - rl ?r) ?D"
    using assms(1) by (auto simp: cache_ok_def)
  have "ring_list (Add e ?r) = drop (length (ring_list ?r @ [e]) - rl ?r) (ring_list ?r @ [e])"
    using fold_Add[OF inv, of "[e]"] by simp
  also have "ring_list ?r @ [e] = drop (length ?D - rl ?r) (?D @ [e])" unfolding L by simp
  also have "drop (length (drop (length ?D - rl ?r) (?D @ [e])) - rl ?r) (drop (length ?D - rl ?r) (?D @ [e]))
      = drop (length (?D @ [e]) - rl ?r) (?D @ [e])"
    using inv by (simp only: drop_drop length_drop length_append) (auto simp: ring_inv_def intro!: arg_cong2[where f = drop])
  finally show ?thesis using assms(2,3) Add_inv[OF inv] by (simp add: cache_ok_def)
qed

lemma collect_slot:
  assumes inv: "seq_inv c0 st"
    and s: "watchEventsRingBuffer (sb st) (unat ((committedRevision (tso (sb st)) + 1) mod watchersChanCapacity)) = Some we"
  shows "unat (WRevision we) = cm (sb st) + 1" "watchEventsRingBuffer (sb st) ((cm (sb st) + 1) mod capNat) = Some we"
proof -
  note I = seq_invD[OF inv]
  have "committedRevision (tso (sb st)) < MaxUint64" using I(2,3) by (intro small_less_Max) linarith
  then have c: "unat (committedRevision (tso (sb st)) + 1) = cm (sb st) + 1" by (rule unat_succ)
  then show w: "watchEventsRingBuffer (sb st) ((cm (sb st) + 1) mod capNat) = Some we"
    using s by (simp add: unat_slot)
  note S = slot_okD[OF I(5) w]
  have "capNat > 1" by (simp add: capNat_def)
  then show "unat (WRevision we) = cm (sb st) + 1"
    using mod_window_eq[OF S(1,3), of "cm (sb st) + 1"] S(4) by simp
qed

text \<open>The collector takes the next event out of its slot.\<close>

lemma seq_inv_take:
  assumes inv: "seq_inv c0 st"
    and we: "watchEventsRingBuffer (sb st) ((cm (sb st) + 1) mod capNat) = Some we" "unat (WRevision we) = cm (sb st) + 1"
    and b': "tso b' = (tso (sb st))\<lparr>committedRevision := WRevision we\<rparr>"
      "watchEventsRingBuffer b' = (watchEventsRingBuffer (sb st))((cm (sb st) + 1) mod capNat := None)"
      "delivered b' = delivered (sb st) @ (if WValid we then [eventOf we] else [])"
      "cache_ok b'" "queue_ok b'"
  shows "seq_inv c0 (st\<lparr>sb := b'\<rparr>)"
proof -
  note I = seq_invD[OF inv]
  note S = slot_okD[OF I(5) we(1)]
  have cm': "cm b' = cm (sb st) + 1" "dl b' = dl (sb st)" using b'(1) we(2) by simp_all
  have other: "cm (sb st) + 1 < unat (WRevision x)" if "watchEventsRingBuffer b' i = Some x" for i x
  proof -
    have x: "watchEventsRingBuffer (sb st) i = Some x" "i \<noteq> (cm (sb st) + 1) mod capNat"
      using that b'(2) by (auto split: if_splits)
    then have "unat (WRevision x) \<noteq> cm (sb st) + 1" using slot_okD(4)[OF I(5) x(1)] by metis
    then show ?thesis using slot_okD(1)[OF I(5) x(1)] by linarith
  qed
  have "slot_ok (st\<lparr>sb := b'\<rparr>)"
    unfolding slot_ok_def Let_def
  proof (intro allI impI)
    fix i x assume x: "watchEventsRingBuffer (sb (st\<lparr>sb := b'\<rparr>)) i = Some x"
    then have "watchEventsRingBuffer (sb st) i = Some x" using b'(2) by (auto split: if_splits)
    note X = slot_okD[OF I(5) this]
    show "cm (sb (st\<lparr>sb := b'\<rparr>)) < unat (WRevision x) \<and> unat (WRevision x) \<le> dl (sb (st\<lparr>sb := b'\<rparr>))
      \<and> unat (WRevision x) < cm (sb (st\<lparr>sb := b'\<rparr>)) + capNat \<and> i = unat (WRevision x) mod capNat
      \<and> noted (st\<lparr>sb := b'\<rparr>) (unat (WRevision x)) = Some x \<and> WRevision x \<notin> inflight (st\<lparr>sb := b'\<rparr>)"
      using X other[of i x] x cm' by simp
  qed
  moreover have "no_gap (st\<lparr>sb := b'\<rparr>)"
    unfolding no_gap_def
  proof (intro allI impI)
    fix n assume "cm (sb (st\<lparr>sb := b'\<rparr>)) < n \<and> n \<le> dl (sb (st\<lparr>sb := b'\<rparr>))"
    then have n: "cm (sb st) + 1 < n" "n \<le> dl (sb st)" using cm' by auto
    then have g: "(\<exists>r\<in>inflight st. unat r = n) \<or>
        (\<exists>x. watchEventsRingBuffer (sb st) (n mod capNat) = Some x \<and> unat (WRevision x) = n)"
      using I(6) unfolding no_gap_def by simp
    have "watchEventsRingBuffer b' (n mod capNat) = Some x"
      if "watchEventsRingBuffer (sb st) (n mod capNat) = Some x" "unat (WRevision x) = n" for x
      using that b'(2) we n(1) by auto
    then show "(\<exists>r\<in>inflight (st\<lparr>sb := b'\<rparr>). unat r = n) \<or>
        (\<exists>we. watchEventsRingBuffer (sb (st\<lparr>sb := b'\<rparr>)) (n mod capNat) = Some we \<and> unat (WRevision we) = n)"
      using g by auto
  qed
  moreover have "\<forall>r \<in> inflight st. cm (sb st) + 1 < unat r \<and> unat r \<le> dl (sb st)"
  proof
    fix r assume r: "r \<in> inflight st"
    then have "r \<noteq> WRevision we" using S(6) by blast
    then have "unat r \<noteq> cm (sb st) + 1" using we(2) by (metis word_unat_eq_iff)
    then show "cm (sb st) + 1 < unat r \<and> unat r \<le> dl (sb st)" using I(4)[OF r] by linarith
  qed
  moreover have "noted st (cm (sb st) + 1) = Some we" using S(5) we(2) by simp
  moreover from this have "delivered b' = should_deliver (noted st) c0 (cm (sb st) + 1)"
    using I(1,9) b'(3) by (simp add: should_deliver_Suc)
  moreover have "\<forall>n. c0 < n \<and> n \<le> cm (sb st) + 1 \<longrightarrow> noted st n \<noteq> None"
    using I(8) \<open>noted st (cm (sb st) + 1) = Some we\<close> by (auto simp: le_Suc_eq)
  ultimately show ?thesis
    using I(1,3,7) S(2) we(2) cm' b'(4,5) unfolding seq_inv_def by simp
qed


text \<open>Changes of what the invariant does not look at.\<close>

lemma seq_inv_frame:
  assumes "seq_inv c0 st" "tso b' = tso (sb st)" "watchEventsRingBuffer b' = watchEventsRingBuffer (sb st)"
    "delivered b' = delivered (sb st)" "watchCache b' = watchCache (sb st)" "queue_ok b'"
  shows "seq_inv c0 (st\<lparr>sb := b'\<rparr>)"
  using assms by (simp add: seq_inv_def slot_ok_def no_gap_def cache_ok_def)

lemma queue_ok_mono:
  assumes "queue_ok b" "retryQueue b' = retryQueue b" "committedRevision (tso b) \<le> committedRevision (tso b')"
  shows "queue_ok b'"
  using assms by (auto simp: queue_ok_def intro: order_trans)

lemma queue_ok_push:
  assumes "queue_ok b" "retryQueue b' = push (we, t) (retryQueue b)" "committedRevision (tso b) < WRevision we"
    and "committedRevision (tso b') = WRevision we"
  shows "queue_ok b'"
proof -
  have q: "queue_inv (retryQueue b)" and s: "sorted_wrt (<) (map (WRevision \<circ> fst) (entries (retryQueue b)))"
    and le: "\<And>x. x \<in> set (entries (retryQueue b)) \<Longrightarrow> WRevision (fst x) < WRevision we"
    using assms(1,3) by (auto simp: queue_ok_def intro: le_less_trans)
  have "sorted_wrt (<) (map (WRevision \<circ> fst) (entries (push (we, t) (retryQueue b))))"
    using rq.sorted_enq[OF q s, of "(we, t)"] le by simp
  then show ?thesis
    using assms(2,4) rq.enq_inv[OF q] rq.enq_content[OF q] le by (auto simp: queue_ok_def order_less_imp_le)
qed

lemma delivered_flush [simp]: "delivered (flushEvents b) = delivered b"
  by (simp add: flushEvents_def delivered_def)

lemma seq_inv_flush:
  assumes "seq_inv c0 st"
  shows "seq_inv c0 (st\<lparr>sb := flushEvents (sb st)\<rparr>)"
proof -
  have "queue_ok (flushEvents (sb st))"
    using seq_invD(11)[OF assms] by (simp add: flushEvents_def queue_ok_def)
  then show ?thesis using assms by (intro seq_inv_frame) (simp_all add: flushEvents_def delivered_def)
qed

lemma Commit_next:
  assumes "r \<le> dealRevision t"
  shows "Commit r t = t\<lparr>committedRevision := r\<rparr>"
  using assms by (simp add: Commit_def Let_def not_less)

lemma seq_inv_collect:
  assumes inv: "seq_inv c0 st"
  shows "seq_inv c0 (st\<lparr>sb := collectStep (sb st)\<rparr>)"
proof (cases "length (pending (sb st)) < eventBatchSize")
  case False
  then show ?thesis using seq_inv_flush[OF inv] by (simp add: collectStep_def)
next
  case len: True
  let ?b = "sb st"
  let ?idx = "unat ((committedRevision (tso ?b) + 1) mod watchersChanCapacity)"
  show ?thesis
  proof (cases "watchEventsRingBuffer ?b ?idx")
    case None
    then have "collectStep ?b = (if pending ?b = [] then ?b else flushEvents ?b)"
      using len by (simp add: collectStep_def GetCurrentRevision_def GetRevision_def)
    then show ?thesis using seq_inv_flush[OF inv] inv by simp
  next
    case (Some we)
    note C = collect_slot[OF inv Some]
    note I = seq_invD[OF inv]
    note S = slot_okD[OF I(5) C(2)]
    have le: "WRevision we \<le> dealRevision (tso ?b)" using S(2) by (simp add: word_le_nat_alt)
    have gt: "committedRevision (tso ?b) < WRevision we" using C(1) by (simp add: word_less_nat_alt)
    have idx: "unat (WRevision we mod watchersChanCapacity) = (cm ?b + 1) mod capNat" using C(1) by (simp add: unat_slot)
    let ?b1 = "?b\<lparr>watchEventsRingBuffer := (watchEventsRingBuffer ?b)((cm ?b + 1) mod capNat := None)\<rparr>"
    have unf: "collectStep ?b =
       (if \<not> WValid we then SetCurrentRevision (WRevision we) (if isUncertain (WErr we) then Append we ?b1 else ?b1)
        else let b2 = SetCurrentRevision (WRevision we) ?b1; e = eventOf we
             in b2\<lparr>pending := pending b2 @ [e], watchCache := Add e (watchCache b2)\<rparr>)"
      using len Some idx by (simp add: collectStep_def GetCurrentRevision_def GetRevision_def Let_def)
    note defs = unf SetCurrentRevision_def Append_def Commit_next[OF le] delivered_def Let_def
    have "cache_ok (collectStep ?b)"
    proof (cases "WValid we")
      case True
      then show ?thesis by (intro cache_ok_Add[OF I(10)]) (simp_all add: defs)
    next
      case False
      then show ?thesis using I(10) by (simp add: defs cache_ok_def)
    qed
    moreover have "queue_ok (collectStep ?b)"
    proof (cases "\<not> WValid we \<and> isUncertain (WErr we)")
      case True
      then show ?thesis by (intro queue_ok_push[OF I(11) _ gt]) (simp_all add: defs)
    next
      case False
      then show ?thesis using order_less_imp_le[OF gt]
        by (intro queue_ok_mono[OF I(11)]) (auto simp: defs)
    qed
    ultimately show ?thesis by (intro seq_inv_take[OF inv C(2,1)]) (auto simp: defs)
  qed
qed

lemma seq_inv_pop:
  assumes inv: "seq_inv c0 st" and h: "getHead (retryQueue (sb st)) \<noteq> None"
  shows "seq_inv c0 (st\<lparr>sb := (sb st)\<lparr>retryQueue := pop (retryQueue (sb st))\<rparr>\<rparr>)"
proof -
  let ?q = "retryQueue (sb st)"
  note Q = seq_invD(11)[OF inv]
  then have q: "queue_inv ?q" and ne: "entries ?q \<noteq> []"
    using h rq.front_content by (auto simp: queue_ok_def split: if_splits)
  then have "set (entries (pop ?q)) \<subseteq> set (entries ?q)" using rq.deq_content list.set_sel(2) by fastforce
  then have "queue_ok ((sb st)\<lparr>retryQueue := pop ?q\<rparr>)"
    using Q q ne rq.deq_inv rq.sorted_deq[OF q _ ne, of "WRevision \<circ> fst"] by (auto simp: queue_ok_def)
  then show ?thesis using inv by (intro seq_inv_frame) (simp_all add: delivered_def)
qed

lemma seq_inv_step: "seq_step st st' \<Longrightarrow> seq_inv c0 st \<Longrightarrow> seq_inv c0 st'"
proof (induction rule: seq_step.induct)
  case (seq_deal prev st r e b')
  then show ?case using seq_inv_deal by blast
next
  case (seq_write st s')
  then show ?case using seq_invD(11)[OF seq_write] by (intro seq_inv_frame) (simp_all add: delivered_def queue_ok_def)
next
  case (seq_notify r st key val pre valid ty err b')
  then show ?case using seq_inv_notify by blast
next
  case (seq_collect st)
  then show ?case by (rule seq_inv_collect)
next
  case (seq_pop st)
  then show ?case using seq_inv_pop by blast
next
  case (seq_tick st t)
  then show ?case using seq_invD(11)[OF seq_tick(2)] by (intro seq_inv_frame) (simp_all add: delivered_def queue_ok_def)
qed

lemma seq_inv_init:
  assumes "int64_ok start"
  shows "seq_inv (unat start) (seq_init s conf now start)"
proof -
  let ?b = "sb (seq_init s conf now start)"
  have t: "tso ?b = \<lparr>committedRevision = start, dealRevision = start\<rparr>"
    by (auto simp: seq_init_def SetCurrentRevision_def NewBackend_def NewTSO_def Commit_def Let_def word_gt_0)
  have "0 < nat (WatchCacheSize (complete conf))"
    by (auto simp: complete_def historyCapacity_def)
  from NewRing_inv[OF this] have "cache_ok ?b"
    by (simp add: cache_ok_def seq_init_def SetCurrentRevision_def NewBackend_def delivered_def Let_def
        ring_list_def NewRing_def)
  moreover have "queue_ok ?b"
    using emptyQueue_inv by (simp add: queue_ok_def seq_init_def SetCurrentRevision_def NewBackend_def Let_def)
  moreover have "watchEventsRingBuffer ?b = (\<lambda>i. None)" "delivered ?b = []"
    by (simp_all add: seq_init_def SetCurrentRevision_def NewBackend_def Let_def delivered_def)
  ultimately show ?thesis
    using assms t unfolding seq_inv_def slot_ok_def no_gap_def
    by (auto simp: seq_init_def int64_ok_def should_deliver_def)
qed

lemma seq_inv_reach: "seq_reach st0 st \<Longrightarrow> seq_inv c0 st0 \<Longrightarrow> seq_inv c0 st"
  by (induction rule: seq_reach.induct) (auto intro: seq_inv_step)


section \<open>What the invariant gives\<close>

lemma should_deliver_sorted:
  assumes "\<And>n we. N n = Some we \<Longrightarrow> unat (WRevision we) = n" "\<And>n. c0 < n \<Longrightarrow> n \<le> c \<Longrightarrow> N n \<noteq> None" "c0 \<le> c"
  shows "sorted_wrt (<) (map EvRevision (should_deliver N c0 c))
    \<and> (\<forall>e \<in> set (should_deliver N c0 c). unat (EvRevision e) \<le> c)"
  using assms(3,2)
proof (induction c rule: dec_induct)
  case base
  then show ?case by (simp add: should_deliver_def)
next
  case (step c)
  then have IH: "sorted_wrt (<) (map EvRevision (should_deliver N c0 c))"
      "\<forall>e \<in> set (should_deliver N c0 c). unat (EvRevision e) \<le> c" by auto
  obtain we where we: "N (Suc c) = Some we" "unat (WRevision we) = Suc c"
    using assms(1) step.prems[of "Suc c"] step.hyps by auto
  have "EvRevision e < WRevision we" if "e \<in> set (should_deliver N c0 c)" for e
    using IH(2) that we(2) by (fastforce simp: word_less_nat_alt)
  then show ?case
    using IH we step.hyps by (auto simp: should_deliver_Suc sorted_wrt_append eventOf_def le_SucI)
qed

lemma seq_inv_sorted: "seq_inv c0 st \<Longrightarrow> sorted_wrt (<) (map EvRevision (delivered (sb st)))"
  using should_deliver_sorted[of "noted st" c0 "cm (sb st)"] seq_invD[of c0 st] by auto

text \<open>
  C7: in every run of writers, collector and retry loop, from any start revision, the events handed to the
  watchers are exactly the valid ones among those notified up to the committed revision, each once and in
  strictly increasing revision order; every revision up to the committed one was notified, and no revision
  still in flight has been passed.
\<close>

theorem collector_delivers_exactly_once:
  assumes "seq_reach (seq_init s conf now start) st" "int64_ok start"
  shows "delivered (sb st) = should_deliver (noted st) (unat start) (cm (sb st))
    \<and> sorted_wrt (<) (map EvRevision (delivered (sb st)))
    \<and> (\<forall>n. unat start < n \<and> n \<le> cm (sb st) \<longrightarrow> noted st n \<noteq> None)
    \<and> (\<forall>r \<in> inflight st. committedRevision (tso (sb st)) < r)"
proof -
  have inv: "seq_inv (unat start) st" by (rule seq_inv_reach[OF assms(1) seq_inv_init[OF assms(2)]])
  note I = seq_invD[OF inv]
  show ?thesis using I(4,8,9) seq_inv_sorted[OF inv] by (auto simp: word_less_nat_alt)
qed

text \<open>
  C28: in every run the watch cache holds exactly the last events delivered, as many as it has room for, so that
  a lookup in it never misses an event between its oldest and its newest one.
\<close>

theorem watch_cache_holds_last_delivered:
  assumes "seq_reach (seq_init s conf now start) st" "int64_ok start"
  shows "FindEvents (watchCache (sb st)) revision
    = Some (find_spec (drop (length (delivered (sb st)) - rl (watchCache (sb st))) (delivered (sb st))) revision)"
proof -
  have inv: "seq_inv (unat start) st" by (rule seq_inv_reach[OF assms(1) seq_inv_init[OF assms(2)]])
  let ?D = "delivered (sb st)"
  have C: "ring_inv (watchCache (sb st))" "ring_list (watchCache (sb st)) = drop (length ?D - rl (watchCache (sb st))) ?D"
    using seq_invD(10)[OF inv] by (auto simp: cache_ok_def)
  have "sorted (map EvRevision ?D)" using seq_inv_sorted[OF inv] strict_sorted_imp_sorted by blast
  then have "sorted (map EvRevision (ring_list (watchCache (sb st))))"
    unfolding C(2) drop_map[symmetric] by (rule sorted_wrt_drop)
  from FindEvents_eq[OF C(1) this] show ?thesis by (simp add: C(2))
qed

section \<open>The collector catches up\<close>

lemma collectStep_take:
  assumes inv: "seq_inv c0 st" and fl: "inflight st = {}" and lt: "cm (sb st) < dl (sb st)"
    and len: "length (pending (sb st)) < eventBatchSize"
  shows "cm (collectStep (sb st)) = cm (sb st) + 1 \<and> dealRevision (tso (collectStep (sb st))) = dealRevision (tso (sb st))"
proof -
  let ?b = "sb st"
  note I = seq_invD[OF inv]
  have "committedRevision (tso ?b) < MaxUint64" using I(2,3) by (intro small_less_Max) linarith
  then have "unat ((committedRevision (tso ?b) + 1) mod watchersChanCapacity) = (cm ?b + 1) mod capNat"
    by (simp only: unat_slot unat_succ)
  moreover obtain we where we: "watchEventsRingBuffer ?b ((cm ?b + 1) mod capNat) = Some we" "unat (WRevision we) = cm ?b + 1"
    using I(6) fl lt unfolding no_gap_def by (auto dest: spec[of _ "cm ?b + 1"])
  ultimately have s: "watchEventsRingBuffer ?b (unat ((committedRevision (tso ?b) + 1) mod watchersChanCapacity)) = Some we"
    by simp
  have le: "WRevision we \<le> dealRevision (tso ?b)" using slot_okD(2)[OF I(5) we(1)] by (simp add: word_le_nat_alt)
  show ?thesis
    using s len we(2) Commit_next[OF le]
    by (auto simp: collectStep_def GetCurrentRevision_def GetRevision_def SetCurrentRevision_def Append_def Let_def)
qed

lemma collectStep_flush:
  "\<not> length (pending b) < eventBatchSize \<Longrightarrow> tso (collectStep b) = tso b \<and> pending (collectStep b) = []"
  by (auto simp: collectStep_def flushEvents_def eventBatchSize_def)

lemma sb_collect_inv: "seq_inv c0 st \<Longrightarrow> seq_inv c0 (st\<lparr>sb := (collectStep ^^ n) (sb st)\<rparr>)"
proof (induction n)
  case (Suc n)
  then show ?case using seq_inv_collect[of c0 "st\<lparr>sb := (collectStep ^^ n) (sb st)\<rparr>"] by simp
qed simp

lemma collector_catches_up:
  fixes st :: "'s seq"
  assumes "seq_inv c0 st" "inflight st = {}"
  shows "\<exists>n. committedRevision (tso ((collectStep ^^ n) (sb st))) = dealRevision (tso (sb st))
           \<and> dealRevision (tso ((collectStep ^^ n) (sb st))) = dealRevision (tso (sb st))"
  using assms
proof (induction "dl (sb st) - cm (sb st)" arbitrary: st)
  case 0
  then have "committedRevision (tso (sb st)) = dealRevision (tso (sb st))"
    using seq_invD(2)[OF 0(2)] by (simp add: word_unat_eq_iff)
  then show ?case by (intro exI[of _ 0]) simp
next
  case (Suc k)
  have one: "\<exists>n. committedRevision (tso ((collectStep ^^ n) (sb st'))) = dealRevision (tso (sb st'))
           \<and> dealRevision (tso ((collectStep ^^ n) (sb st'))) = dealRevision (tso (sb st'))"
    if st': "seq_inv c0 st'" "inflight st' = {}" "tso (sb st') = tso (sb st)" "length (pending (sb st')) < eventBatchSize"
    for st' :: "'s seq"
  proof -
    let ?st = "st'\<lparr>sb := collectStep (sb st')\<rparr>"
    have t: "cm (sb ?st) = cm (sb st) + 1" "dealRevision (tso (sb ?st)) = dealRevision (tso (sb st))"
      using collectStep_take[OF st'(1,2) _ st'(4)] Suc.hyps(2) st'(3) by auto
    then have "k = dl (sb ?st) - cm (sb ?st)" using Suc.hyps(2) by simp
    from Suc.hyps(1)[OF this seq_inv_collect[OF st'(1)]] st'(2)
    obtain n where "committedRevision (tso ((collectStep ^^ n) (sb ?st))) = dealRevision (tso (sb ?st))
           \<and> dealRevision (tso ((collectStep ^^ n) (sb ?st))) = dealRevision (tso (sb ?st))" by auto
    then show ?thesis using t(2) st'(3)
      by (intro exI[of _ "Suc n"]) (simp add: funpow_Suc_right del: funpow.simps)
  qed
  show ?case
  proof (cases "length (pending (sb st)) < eventBatchSize")
    case True
    then show ?thesis using one[OF Suc.prems(1,2)] by simp
  next
    case False
    note F = collectStep_flush[OF False]
    obtain n where "committedRevision (tso ((collectStep ^^ n) (collectStep (sb st)))) = dealRevision (tso (sb st))
           \<and> dealRevision (tso ((collectStep ^^ n) (collectStep (sb st)))) = dealRevision (tso (sb st))"
      using one[OF seq_inv_collect[OF Suc.prems(1)]] Suc.prems(2) F by (auto simp: eventBatchSize_def)
    then show ?thesis by (intro exI[of _ "Suc n"]) (simp add: funpow_Suc_right del: funpow.simps)
  qed
qed


section \<open>Samples\<close>

text \<open>Two writers that finish in the opposite order of their revisions, then two rounds of the collector.\<close>

definition sample_we :: "rev \<Rightarrow> WatchEvent" where
  "sample_we r = \<lparr>WRevision = r, WPrevRevision = 0, WResourceVerb = Event_CREATE, WValid = True,
                  WKey = sample_key, WValue = [], WErr = None\<rparr>"

definition sample_b :: "rev \<Rightarrow> (nat \<Rightarrow> WatchEvent option) \<Rightarrow> unit backend" where
  "sample_b d slots = (NewBackend () sample_config 0)
     \<lparr>tso := \<lparr>committedRevision = 5, dealRevision = d\<rparr>, watchEventsRingBuffer := slots\<rparr>"

definition sample_seq :: "unit seq" where
  "sample_seq = \<lparr>sb = sample_b 7 ((\<lambda>i. None)(7 \<mapsto> sample_we 7, 6 \<mapsto> sample_we 6)), inflight = {},
     noted = (\<lambda>n. None)(7 \<mapsto> sample_we 7, 6 \<mapsto> sample_we 6)\<rparr>"

lemma sample_init: "seq_init () sample_config 0 5 = \<lparr>sb = sample_b 5 (\<lambda>i. None), inflight = {}, noted = (\<lambda>n. None)\<rparr>"
  by (simp add: seq_init_def sample_b_def SetCurrentRevision_def NewBackend_def NewTSO_def Commit_def Let_def)

lemma sample_deal: "deal 0 (sample_b d slots) = ((d + 1, None), sample_b (d + 1) slots)"
  by (simp add: deal_eq sample_b_def Let_def)

lemma sample_notify:
  assumes "r = 6 \<or> r = 7"
  shows "notify sample_key [] r 0 True Event_CREATE None (sample_b 7 slots) = Some (sample_b 7 (slots(unat r \<mapsto> sample_we r)))"
  using assms notify_cases[of r "sample_b 7 slots" sample_key "[]" 0 True Event_CREATE None]
  by (auto simp: sample_b_def sample_we_def int64_ok_def GetCurrentRevision_def GetRevision_def
      watchersChanCapacity_def capNat_def)

lemma sample_reach: "seq_reach (seq_init () sample_config 0 5) sample_seq"
proof -
  let ?st = "\<lambda>d slots fl. \<lparr>sb = sample_b d slots, inflight = fl, noted = slots\<rparr>"
  have "seq_step (?st 5 (\<lambda>i. None) {}) (?st 6 (\<lambda>i. None) {6})"
    using seq_deal[of 0 "?st 5 (\<lambda>i. None) {}" 6] by (simp add: sample_deal) (simp add: sample_b_def)
  moreover have "seq_step (?st 6 (\<lambda>i. None) {6}) (?st 7 (\<lambda>i. None) {6, 7})"
    using seq_deal[of 0 "?st 6 (\<lambda>i. None) {6}" 7] by (simp add: sample_deal insert_commute) (simp add: sample_b_def)
  moreover have "seq_step (?st 7 (\<lambda>i. None) {6, 7}) (?st 7 ((\<lambda>i. None)(7 \<mapsto> sample_we 7)) {6})"
    using seq_notify[of 7 "?st 7 (\<lambda>i. None) {6, 7}" sample_key "[]" 0 True Event_CREATE None] sample_notify[of 7 "\<lambda>i. None"]
    by (simp add: sample_we_def[symmetric] insert_Diff_if)
  moreover have "seq_step (?st 7 ((\<lambda>i. None)(7 \<mapsto> sample_we 7)) {6}) sample_seq"
    using seq_notify[of 6 "?st 7 ((\<lambda>i. None)(7 \<mapsto> sample_we 7)) {6}" sample_key "[]" 0 True Event_CREATE None]
      sample_notify[of 6 "(\<lambda>i. None)(7 \<mapsto> sample_we 7)"]
    by (simp add: sample_we_def[symmetric] sample_seq_def)
  ultimately show ?thesis
    unfolding sample_init by (meson seq_reach.intros)
qed

lemma sample_start: "int64_ok 5"
  by (simp add: int64_ok_def)

theorem collector_delivers_exactly_once_witness:
  "delivered (collectStep (sb sample_seq)) = should_deliver (noted sample_seq) 5 (cm (collectStep (sb sample_seq)))"
  using collector_delivers_exactly_once[OF seq_next[OF sample_reach seq_collect] sample_start] by simp

theorem watch_cache_holds_last_delivered_witness:
  "FindEvents (watchCache (sb sample_seq)) 6 = Some (emptyRet\<lparr>fempty := True\<rparr>)"
  using watch_cache_holds_last_delivered[OF sample_reach sample_start, of 6]
  by (simp add: sample_seq_def sample_b_def delivered_def NewBackend_def find_spec_def Let_def)


end
