(* ===== verification/Receiver.thy ===== *)
theory Receiver
  imports Proto
begin

text \<open>
  \<^verbatim>\<open>pkg/backend/scanner/receiver.go\<close>: what a scan does with the pairs it finds. The three receivers are
  the constructors of one type and their methods are functions by cases. A stream receiver carries
  what it has sent on the channel, oldest first; the channel, which forked receivers share, holds what all
  of them sent.
\<close>

definition rangeStreamBatch :: nat where
  "rangeStreamBatch = 300"

datatype receiver =
    emptyResultReceiver
  | commonResultReceiver "KeyValue list" int
  | streamResultReceiver rev "StreamRangeResponse list" "KeyValue list"

definition newStreamReceiver :: "rev \<Rightarrow> receiver" where
  "newStreamReceiver readRev = streamResultReceiver readRev [] []"

definition isLimited :: "int \<Rightarrow> bool" where
  "isLimited limit \<longleftrightarrow> limit > 0"

fun needMore :: "receiver \<Rightarrow> bool" where
  "needMore (commonResultReceiver result limit) =
     (if isLimited limit then int (length result) < limit else True)"
| "needMore r = True"

definition streamResponse :: "rev \<Rightarrow> KeyValue list \<Rightarrow> StreamRangeResponse" where
  "streamResponse readRev kvs = \<lparr>SHeader = readRev, SKvs = kvs, SMore = True, SErr = None\<rparr>"

fun append_kv :: "KeyValue \<Rightarrow> receiver \<Rightarrow> receiver" where
  "append_kv kv emptyResultReceiver = emptyResultReceiver"
| "append_kv kv (commonResultReceiver result limit) = commonResultReceiver (result @ [kv]) limit"
| "append_kv kv (streamResultReceiver readRev stream batch) =
     (let batch = batch @ [kv] in
      if length batch \<ge> rangeStreamBatch
      then streamResultReceiver readRev (stream @ [streamResponse readRev batch]) []
      else streamResultReceiver readRev stream batch)"

fun flush :: "receiver \<Rightarrow> receiver" where
  "flush (streamResultReceiver readRev stream batch) =
     (if batch \<noteq> [] then streamResultReceiver readRev (stream @ [streamResponse readRev batch]) []
      else streamResultReceiver readRev stream batch)"
| "flush r = r"

fun reset :: "receiver \<Rightarrow> receiver" where
  "reset emptyResultReceiver = emptyResultReceiver"
| "reset (commonResultReceiver result limit) = commonResultReceiver [] limit"
| "reset (streamResultReceiver readRev stream batch) = streamResultReceiver readRev stream []"

definition close :: "receiver \<Rightarrow> receiver" where
  "close r = flush r"

text \<open>The forked stream receiver has no read revision of its own (it is \<open>0\<close>).\<close>

fun fork :: "receiver \<Rightarrow> receiver" where
  "fork emptyResultReceiver = emptyResultReceiver"
| "fork (commonResultReceiver result limit) = commonResultReceiver [] limit"
| "fork (streamResultReceiver readRev stream batch) = streamResultReceiver 0 [] []"

text \<open>
  \<^verbatim>\<open>merge\<close>. For streams the code does nothing, as what the forked receiver sent is on the common channel
  already; here it joins what the receiver itself sent. \<^verbatim>\<open>merge\<close> is only called with a receiver forked from
  the same one (the code has a type assertion there).
\<close>

fun merge :: "receiver \<Rightarrow> receiver \<Rightarrow> receiver" where
  "merge (commonResultReceiver result limit) (commonResultReceiver sub subLimit) =
     (if \<not> isLimited limit \<or> int (length result + length sub) \<le> limit
      then commonResultReceiver (result @ sub) limit
      else commonResultReceiver (result @ take (nat limit - length result) sub) limit)"
| "merge (streamResultReceiver readRev stream batch) (streamResultReceiver readRev' stream' batch') =
     streamResultReceiver readRev (stream @ stream') batch"
| "merge r sub = r"

text \<open>The messages a forked receiver sent are on the channel even when its worker failed.\<close>

fun absorb :: "receiver \<Rightarrow> receiver \<Rightarrow> receiver" where
  "absorb (streamResultReceiver readRev stream batch) sub = merge (streamResultReceiver readRev stream batch) sub"
| "absorb r sub = r"

section \<open>What a receiver got\<close>

text \<open>Feeding a list of pairs, for as long as the receiver needs more.\<close>

fun feed :: "receiver \<Rightarrow> KeyValue list \<Rightarrow> receiver" where
  "feed r [] = r"
| "feed r (kv # kvs) = (if needMore r then feed (append_kv kv r) kvs else r)"

fun received :: "receiver \<Rightarrow> KeyValue list" where
  "received emptyResultReceiver = []"
| "received (commonResultReceiver result limit) = result"
| "received (streamResultReceiver readRev stream batch) = concat (map SKvs stream) @ batch"

lemma feed_stop: "\<not> needMore r \<Longrightarrow> feed r kvs = r"
  by (cases kvs) auto

lemma feed_append: "feed r (xs @ ys) = feed (feed r xs) ys"
  by (induction xs arbitrary: r) (auto simp: feed_stop)

lemma feed_unlimited:
  "\<not> isLimited limit \<Longrightarrow> feed (commonResultReceiver result limit) kvs = commonResultReceiver (result @ kvs) limit"
  by (induction kvs arbitrary: result) auto

lemma feed_limited:
  assumes "isLimited limit"
  shows "feed (commonResultReceiver result limit) kvs
    = commonResultReceiver (result @ take (nat limit - length result) kvs) limit"
proof (induction kvs arbitrary: result)
  case (Cons kv kvs)
  show ?case
  proof (cases "int (length result) < limit")
    case True
    then have "nat limit - length result = Suc (nat limit - length (result @ [kv]))" by auto
    then show ?thesis using Cons.IH[of "result @ [kv]"] True assms by simp
  next
    case False
    then show ?thesis using assms by simp
  qed
qed simp

lemma feed_empty [simp]: "feed emptyResultReceiver kvs = emptyResultReceiver"
  by (induction kvs) auto

lemma received_flush [simp]: "received (flush r) = received r"
  by (cases r) (auto simp: streamResponse_def)

lemma received_feed_stream:
  "received (feed (streamResultReceiver readRev stream batch) kvs) = received (streamResultReceiver readRev stream batch) @ kvs
   \<and> (\<exists>stream' batch'. feed (streamResultReceiver readRev stream batch) kvs = streamResultReceiver readRev stream' batch'
        \<and> (length batch < rangeStreamBatch \<longrightarrow> length batch' < rangeStreamBatch))"
proof (induction kvs arbitrary: stream batch)
  case (Cons kv kvs)
  show ?case
  proof (cases "length (batch @ [kv]) \<ge> rangeStreamBatch")
    case True
    then show ?thesis using Cons.IH[of "stream @ [streamResponse readRev (batch @ [kv])]" "[]"]
      by (auto simp: Let_def streamResponse_def rangeStreamBatch_def)
  next
    case False
    then show ?thesis using Cons.IH[of stream "batch @ [kv]"] by (auto simp: Let_def)
  qed
qed simp

end
