(* ===== verification/Scanner.thy ===== *)
theory Scanner
  imports Receiver Backend
begin

text \<open>
  \<^verbatim>\<open>pkg/backend/scanner\<close>: range scans and compaction over the partitions of the engine.

  The goroutines of \<^verbatim>\<open>scan\<close>, one per partition, run one after the other here: they work on disjoint key
  ranges and each on a receiver of its own. A cancelled context is a parameter: \<open>ctx a i\<close> tells whether it
  is done at the \<open>i\<close>-th check of attempt \<open>a\<close>. \<^verbatim>\<open>wait.ExponentialBackoff\<close> calls its function until it
  reports success or an error, at most \<^verbatim>\<open>Steps\<close> times; the waits in between are left out.
\<close>

section \<open>Compaction history\<close>

definition cq_push :: "compactRecord \<Rightarrow> compactRecord list \<Rightarrow> compactRecord list" where
  "cq_push cr q = q @ [cr]"

definition cq_pop :: "compactRecord list \<Rightarrow> compactRecord list" where
  "cq_pop q = tl q"

definition cq_head :: "compactRecord list \<Rightarrow> compactRecord option" where
  "cq_head q = (case q of [] \<Rightarrow> None | cr # _ \<Rightarrow> Some cr)"

text \<open>The part of the backend the scanner works on, and the scanner's own state.\<close>

record 's scst =
  sc_kv :: 's
  sc_hist :: "compactRecord list"
  sc_now :: int

definition logCompactHistory :: "rev \<Rightarrow> 's scst \<Rightarrow> 's scst" where
  "logCompactHistory revision s =
     s\<lparr>sc_hist := cq_push \<lparr>cr_revision = revision, cr_time = sc_now s\<rparr> (sc_hist s)\<rparr>"

text \<open>The loop of \<^verbatim>\<open>getTimeoutRevision\<close>: drop the records older than the TTL, remember the last of them.\<close>

fun timeoutLoop :: "int \<Rightarrow> int \<Rightarrow> rev \<Rightarrow> compactRecord list \<Rightarrow> rev \<times> compactRecord list" where
  "timeoutLoop now ttl prev [] = (prev, [])"
| "timeoutLoop now ttl prev (cr # q) =
     (if now - cr_time cr < ttl then (prev, cr # q) else timeoutLoop now ttl (cr_revision cr) q)"

definition getTimeoutRevision :: "'s kv_storage \<Rightarrow> ScannerConfig \<Rightarrow> 's scst \<Rightarrow> rev \<times> 's scst" where
  "getTimeoutRevision kv conf s =
     (if kv_SupportTTL kv then (0, s)
      else let (r, q) = timeoutLoop (sc_now s) (TTL conf) 0 (sc_hist s) in (r, s\<lparr>sc_hist := q\<rparr>))"

section \<open>Workers\<close>

definition scanBackoffSteps :: nat where
  "scanBackoffSteps = 3"

definition revisionValueLengthWithDeletionFlag :: nat where
  "revisionValueLengthWithDeletionFlag = 9"

record workerConfig =
  wc_partition :: partition
  wc_tso :: rev
  wc_revision :: rev
  wc_tombstone :: bytes
  wc_compact :: bool
  wc_timeoutRevision :: rev

text \<open>\<^verbatim>\<open>lastCompactFailedRawKey\<close> is nil (empty) until a compaction fails.\<close>

record 's worker =
  w_kv :: 's
  w_failed :: bytes

definition isSkippedRawKey :: "bytes \<Rightarrow> 's worker \<Rightarrow> bool" where
  "isSkippedRawKey rawKey w \<longleftrightarrow> length (w_failed w) > 0 \<and> w_failed w = rawKey"

definition updateSkippedRawKey :: "bytes \<Rightarrow> error \<Rightarrow> 's worker \<Rightarrow> 's worker" where
  "updateSkippedRawKey rawKey err w = (if \<not> errors_is err ErrCASFailed then w\<lparr>w_failed := rawKey\<rparr> else w)"

definition compactCurrent :: "'s kv_storage \<Rightarrow> kvpair \<Rightarrow> bytes \<Rightarrow> 's worker \<Rightarrow> 's worker" where
  "compactCurrent kv it rawKey w =
     (if isSkippedRawKey rawKey w then w
      else case kv_DelCurrent kv (w_kv w) (fst it) (snd it) of
             (None, s) \<Rightarrow> w\<lparr>w_kv := s\<rparr>
           | (Some err, s) \<Rightarrow> updateSkippedRawKey rawKey err (w\<lparr>w_kv := s\<rparr>))"

definition compactKey :: "'s kv_storage \<Rightarrow> bytes \<Rightarrow> bytes \<Rightarrow> 's worker \<Rightarrow> 's worker" where
  "compactKey kv key rawKey w =
     (if isSkippedRawKey rawKey w then w
      else case kv_Del kv (w_kv w) key of
             (None, s) \<Rightarrow> w\<lparr>w_kv := s\<rparr>
           | (Some err, s) \<Rightarrow> updateSkippedRawKey rawKey err (w\<lparr>w_kv := s\<rparr>))"

text \<open>The result tells whether the pair is expired; \<open>None\<close> is the panic of \<^verbatim>\<open>value[:8]\<close> on a shorter value.\<close>

definition compactIfExpired ::
    "'s kv_storage \<Rightarrow> workerConfig \<Rightarrow> kvpair \<Rightarrow> bytes \<Rightarrow> rev \<Rightarrow> 's worker \<Rightarrow> (bool \<times> 's worker) option" where
  "compactIfExpired kv c it rawKey revision w =
     (if kv_SupportTTL kv \<or> wc_timeoutRevision c = 0 then Some (False, w)
      else if bytes_contains rawKey events then
        if revision = 0 then
          (case Uint64 (snd it) of
             None \<Rightarrow> None
           | Some r \<Rightarrow> if r \<le> wc_timeoutRevision c then Some (True, compactCurrent kv it rawKey w)
                        else Some (False, w))
        else if revision \<le> wc_timeoutRevision c then Some (True, compactKey kv (fst it) rawKey w)
        else Some (False, w)
      else Some (False, w))"

text \<open>The local variables of \<^verbatim>\<open>run\<close> that live across rounds of its loop.\<close>

record 's loop =
  l_worker :: "'s worker"
  l_recv :: receiver
  l_count :: int
  l_prevUserKey :: bytes
  l_prevRevision :: rev
  l_prevValue :: bytes

definition emit :: "workerConfig \<Rightarrow> 's loop \<Rightarrow> 's loop" where
  "emit c l =
     (if l_prevRevision l > 0 \<and> l_prevValue l \<noteq> wc_tombstone c
      then l\<lparr>l_recv := append_kv \<lparr>Key = l_prevUserKey l, Value = l_prevValue l, Revision = l_prevRevision l\<rparr> (l_recv l),
             l_count := l_count l + 1\<rparr>
      else l)"

text \<open>The body of the loop for a pair whose key was decoded.\<close>

definition processItem ::
    "'s kv_storage \<Rightarrow> workerConfig \<Rightarrow> kvpair \<Rightarrow> bytes \<Rightarrow> rev \<Rightarrow> 's loop \<Rightarrow> 's loop option" where
  "processItem kv c it curUserKey curRevision l =
     (case compactIfExpired kv c it curUserKey curRevision (l_worker l) of
        None \<Rightarrow> None
      | Some (True, w) \<Rightarrow> Some (l\<lparr>l_worker := w\<rparr>)
      | Some (False, w) \<Rightarrow>
          let l1 = l\<lparr>l_worker := w\<rparr> in
          if curRevision > wc_revision c then Some l1
          else
            let l2 = (if curUserKey \<noteq> l_prevUserKey l1 then emit c l1
                      else if wc_compact c \<and> l_prevRevision l1 > 0
                      then l1\<lparr>l_worker := compactKey kv (EncodeObjectKey (l_prevUserKey l1) (l_prevRevision l1))
                                            (l_prevUserKey l1) (l_worker l1)\<rparr>
                      else l1);
                l3 = (if wc_compact c \<and> snd it = wc_tombstone c
                      then l2\<lparr>l_worker := compactKey kv (fst it) curUserKey (l_worker l2)\<rparr> else l2);
                keep = (\<lambda>l. l\<lparr>l_prevUserKey := curUserKey, l_prevRevision := curRevision, l_prevValue := snd it\<rparr>)
            in if wc_compact c \<and> curRevision = 0 \<and> length (snd it) = revisionValueLengthWithDeletionFlag then
                 (case Uint64 (take 8 (snd it)) of
                    None \<Rightarrow> None
                  | Some objRev \<Rightarrow>
                      if objRev > wc_revision c then Some l3
                      else Some (keep (l3\<lparr>l_worker := compactCurrent kv it curUserKey (l_worker l3)\<rparr>)))
               else Some (keep l3))"

definition scanCanceled :: error where
  "scanCanceled = OtherErr ''worker run context canceled''"

text \<open>
  The loop of \<^verbatim>\<open>run\<close>, over the pairs the iterator has left; \<open>err\<close> is the variable of that name, \<open>endErr\<close>
  what \<^verbatim>\<open>Next\<close> returns after the last pair. \<open>Inl\<close> is the early return for a cancelled context.
\<close>

fun runLoop ::
    "'s kv_storage \<Rightarrow> workerConfig \<Rightarrow> (nat \<Rightarrow> bool) \<Rightarrow> nat \<Rightarrow> kvpair list \<Rightarrow> error \<Rightarrow> error option \<Rightarrow> 's loop
     \<Rightarrow> ((error + error option) \<times> 's loop) option" where
  "runLoop kv c ctx i [] endErr err l =
     (if \<not> needMore (l_recv l) then Some (Inr err, l)
      else if ctx i then Some (Inl scanCanceled, l)
      else Some (Inr (Some endErr), l))"
| "runLoop kv c ctx i (it # items) endErr err l =
     (if \<not> needMore (l_recv l) then Some (Inr err, l)
      else if ctx i then Some (Inl scanCanceled, l)
      else case Decode (fst it) of
             None \<Rightarrow> None
           | Some (Inl e) \<Rightarrow> runLoop kv c ctx (i + 1) items endErr (Some e) l
           | Some (Inr (curUserKey, curRevision)) \<Rightarrow>
               (case processItem kv c it curUserKey curRevision l of
                  None \<Rightarrow> None
                | Some l' \<Rightarrow> runLoop kv c ctx (i + 1) items endErr None l'))"

type_synonym 's run_ret = "(int \<times> error option) \<times> receiver \<times> 's worker"

definition run ::
    "'s kv_storage \<Rightarrow> workerConfig \<Rightarrow> (nat \<Rightarrow> bool) \<Rightarrow> receiver \<Rightarrow> 's worker \<Rightarrow> 's run_ret option" where
  "run kv c ctx recv w =
     (case kv_Iter kv (w_kv w) (Start (wc_partition c)) (End (wc_partition c)) (wc_tso c) 0 of
        (Inl err, s) \<Rightarrow> Some ((0, Some err), recv, w\<lparr>w_kv := s\<rparr>)
      | (Inr (items, endErr), s) \<Rightarrow>
          (case runLoop kv c ctx 0 items endErr None
                  \<lparr>l_worker = w\<lparr>w_kv := s\<rparr>, l_recv = reset recv, l_count = 0, l_prevUserKey = [],
                   l_prevRevision = 0, l_prevValue = []\<rparr> of
             None \<Rightarrow> None
           | Some (Inl e, l) \<Rightarrow> Some ((0, Some e), l_recv l, l_worker l)
           | Some (Inr err, l) \<Rightarrow>
               if err \<noteq> Some EOF then Some ((0, err), l_recv l, l_worker l)
               else
                 let l = (if needMore (l_recv l) then emit c l else l)
                 in Some ((l_count l, None), flush (l_recv l), l_worker l)))"


definition canceledErr :: error where
  "canceledErr = OtherErr ''context canceled''"

definition retryErr :: "error option \<Rightarrow> error" where
  "retryErr scanErr = OtherErr ''partition %d reached the max retry time: %d, encounter latest error %v''"

text \<open>The attempts of \<^verbatim>\<open>runWithBackoffRetry\<close>; \<open>n\<close> of them are left, \<open>a\<close> is the number of the next one.\<close>

fun backoffLoop ::
    "'s kv_storage \<Rightarrow> workerConfig \<Rightarrow> (nat \<Rightarrow> nat \<Rightarrow> bool) \<Rightarrow> nat \<Rightarrow> nat \<Rightarrow> int \<Rightarrow> error option \<Rightarrow> receiver \<Rightarrow> 's worker
     \<Rightarrow> 's run_ret option" where
  "backoffLoop kv c ctx a 0 count scanErr recv w = Some ((count, Some (retryErr scanErr)), recv, w)"
| "backoffLoop kv c ctx a (Suc n) count scanErr recv w =
     (if ctx a 0 then Some ((count, Some canceledErr), recv, w)
      else case run kv c (\<lambda>i. ctx a (i + 1)) recv w of
             None \<Rightarrow> None
           | Some ((count, None), recv, w) \<Rightarrow> Some ((count, None), recv, w)
           | Some ((count, Some err), recv, w) \<Rightarrow> backoffLoop kv c ctx (a + 1) n count (Some err) recv w)"

definition runWithBackoffRetry ::
    "'s kv_storage \<Rightarrow> workerConfig \<Rightarrow> (nat \<Rightarrow> nat \<Rightarrow> bool) \<Rightarrow> receiver \<Rightarrow> 's worker \<Rightarrow> 's run_ret option" where
  "runWithBackoffRetry kv c ctx recv w = backoffLoop kv c ctx 0 scanBackoffSteps 0 None recv w"

section \<open>Partitions\<close>

text \<open>
  The loop of \<^verbatim>\<open>adjustPartitionsBorders\<close>; \<open>prev\<close> is the adjusted end of the partition before, \<open>None\<close> for
  the first one. The result is \<open>None\<close> when \<^verbatim>\<open>Decode\<close> panics on a border.
\<close>

fun adjustLoop :: "bytes option \<Rightarrow> partition list \<Rightarrow> partition list option" where
  "adjustLoop prev [] = Some []"
| "adjustLoop prev (p # ps) =
     (let p1 = (case prev of None \<Rightarrow> p | Some e \<Rightarrow> p\<lparr>Start := e\<rparr>) in
      if ps = [] then Some [p1]
      else case Decode (End p1) of
             None \<Rightarrow> None
           | Some d \<Rightarrow>
               let p2 = (case d of
                           Inr (userKey, revision) \<Rightarrow>
                             if revision \<noteq> 0 then p1\<lparr>End := EncodeRevisionKey userKey\<rparr> else p1
                         | Inl _ \<Rightarrow> p1)
               in map_option (\<lambda>qs. p2 # qs) (adjustLoop (Some (End p2)) ps))"

definition adjustPartitionsBorders :: "partition list \<Rightarrow> partition list option" where
  "adjustPartitionsBorders ps = adjustLoop None (sort_key Start ps)"

section \<open>Scans\<close>

definition compactRaceErr :: error where
  "compactRaceErr = OtherErr ''range stream revision %d less than compact revision %d''"

definition checkCompactRace ::
    "'s kv_storage \<Rightarrow> ScannerConfig \<Rightarrow> rev \<Rightarrow> bool \<Rightarrow> 's \<Rightarrow> (error option \<times> 's) option" where
  "checkCompactRace kv conf revision compact s =
     (if compact then Some (kv_Commit kv s [Put (CompactKey conf) (uint64ToBytes revision) 0])
      else case kv_Get kv s (CompactKey conf) of
             (Inl err, s1) \<Rightarrow> if err = ErrKeyNotFound then Some (None, s1) else Some (Some err, s1)
           | (Inr val, s1) \<Rightarrow>
               (case Uint64 val of
                  None \<Rightarrow> None
                | Some compactRevision \<Rightarrow>
                    if compactRevision > revision then Some (Some compactRaceErr, s1) else Some (None, s1)))"

text \<open>The workers of a scan, each with a new worker state and a receiver forked from the given one.\<close>

fun runWorkers ::
    "'s kv_storage \<Rightarrow> (partition \<Rightarrow> workerConfig) \<Rightarrow> (nat \<Rightarrow> nat \<Rightarrow> nat \<Rightarrow> bool) \<Rightarrow> nat \<Rightarrow> partition list \<Rightarrow> receiver \<Rightarrow> 's
     \<Rightarrow> ((int \<times> error option \<times> receiver) list \<times> 's) option" where
  "runWorkers kv mk ctx idx [] recv s = Some ([], s)"
| "runWorkers kv mk ctx idx (p # ps) recv s =
     (case runWithBackoffRetry kv (mk p) (ctx idx) (fork recv) \<lparr>w_kv = s, w_failed = []\<rparr> of
        None \<Rightarrow> None
      | Some ((count, err), r, w) \<Rightarrow>
          (case runWorkers kv mk ctx (idx + 1) ps recv (w_kv w) of
             None \<Rightarrow> None
           | Some (outs, s') \<Rightarrow> Some ((count, err, r) # outs, s')))"

text \<open>The first error of the list, in the order of the partitions.\<close>

fun firstErr :: "(int \<times> error option \<times> receiver) list \<Rightarrow> error option" where
  "firstErr [] = None"
| "firstErr ((count, err, r) # outs) = (case err of Some e \<Rightarrow> Some e | None \<Rightarrow> firstErr outs)"

definition scan ::
    "'s kv_storage \<Rightarrow> ScannerConfig \<Rightarrow> (nat \<Rightarrow> nat \<Rightarrow> nat \<Rightarrow> bool) \<Rightarrow> bytes \<Rightarrow> bytes \<Rightarrow> rev \<Rightarrow> bool \<Rightarrow> receiver \<Rightarrow> 's scst
     \<Rightarrow> ((int \<times> error option) \<times> receiver \<times> 's scst) option" where
  "scan kv conf ctx start stop revision compact recv st =
     (case kv_GetTimestampOracle kv (sc_kv st) of
        (Inl err, s) \<Rightarrow> Some ((0, Some err), recv, st\<lparr>sc_kv := s\<rparr>)
      | (Inr ts, s) \<Rightarrow>
          (case checkCompactRace kv conf revision compact s of
             None \<Rightarrow> None
           | Some (Some err, s) \<Rightarrow> Some ((0, Some err), recv, st\<lparr>sc_kv := s\<rparr>)
           | Some (None, s) \<Rightarrow>
               (case kv_GetPartitions kv s start stop of
                  (Inl err, s) \<Rightarrow> Some ((0, Some err), recv, st\<lparr>sc_kv := s\<rparr>)
                | (Inr ps, s) \<Rightarrow>
                    (case adjustPartitionsBorders ps of
                       None \<Rightarrow> None
                     | Some ps \<Rightarrow>
                         let st1 = st\<lparr>sc_kv := s\<rparr>;
                             (timeoutRevision, st2) = (if compact then getTimeoutRevision kv conf st1 else (0, st1));
                             mk = (\<lambda>p. \<lparr>wc_partition = p, wc_tso = ts, wc_revision = revision,
                                        wc_tombstone = Tombstone conf, wc_compact = compact,
                                        wc_timeoutRevision = timeoutRevision\<rparr>)
                         in case runWorkers kv mk ctx 0 ps recv (sc_kv st2) of
                              None \<Rightarrow> None
                            | Some (outs, s') \<Rightarrow>
                                let st3 = st2\<lparr>sc_kv := s'\<rparr> in
                                case firstErr outs of
                                  Some e \<Rightarrow> Some ((0, Some e), fold (\<lambda>(_, _, r) acc. absorb acc r) outs recv, st3)
                                | None \<Rightarrow>
                                    Some ((sum_list (map fst outs), None),
                                          fold (\<lambda>(_, _, r) acc. merge acc (close r)) outs recv, st3)))))"

definition rangeWithLimit ::
    "'s kv_storage \<Rightarrow> ScannerConfig \<Rightarrow> (nat \<Rightarrow> nat \<Rightarrow> nat \<Rightarrow> bool) \<Rightarrow> bytes \<Rightarrow> bytes \<Rightarrow> rev \<Rightarrow> int \<Rightarrow> 's scst
     \<Rightarrow> ((error + KeyValue list) \<times> 's scst) option" where
  "rangeWithLimit kv conf ctx start stop revision limit st =
     (case kv_GetTimestampOracle kv (sc_kv st) of
        (Inl err, s) \<Rightarrow> Some (Inl err, st\<lparr>sc_kv := s\<rparr>)
      | (Inr ts, s) \<Rightarrow>
          (case checkCompactRace kv conf revision False s of
             None \<Rightarrow> None
           | Some (Some err, s) \<Rightarrow> Some (Inl err, st\<lparr>sc_kv := s\<rparr>)
           | Some (None, s) \<Rightarrow>
               (case run kv \<lparr>wc_partition = \<lparr>Start = start, End = stop\<rparr>, wc_tso = ts, wc_revision = revision,
                            wc_tombstone = Tombstone conf, wc_compact = False, wc_timeoutRevision = 0\<rparr>
                       (ctx 0 0) (commonResultReceiver [] limit) \<lparr>w_kv = s, w_failed = []\<rparr> of
                  None \<Rightarrow> None
                | Some ((_, Some err), _, w) \<Rightarrow> Some (Inl err, st\<lparr>sc_kv := w_kv w\<rparr>)
                | Some ((_, None), r, w) \<Rightarrow> Some (Inr (received r), st\<lparr>sc_kv := w_kv w\<rparr>))))"

definition scanner_Range ::
    "'s kv_storage \<Rightarrow> ScannerConfig \<Rightarrow> (nat \<Rightarrow> nat \<Rightarrow> nat \<Rightarrow> bool) \<Rightarrow> bytes \<Rightarrow> bytes \<Rightarrow> rev \<Rightarrow> int \<Rightarrow> 's scst
     \<Rightarrow> ((error + KeyValue list) \<times> 's scst) option" where
  "scanner_Range kv conf ctx start stop revision limit st =
     (if limit > 0 then rangeWithLimit kv conf ctx start stop revision limit st
      else case scan kv conf ctx start stop revision False (commonResultReceiver [] 0) st of
             None \<Rightarrow> None
           | Some ((_, Some err), _, st1) \<Rightarrow> Some (Inl err, st1)
           | Some ((_, None), r, st1) \<Rightarrow> Some (Inr (received r), st1))"

definition scanner_Count ::
    "'s kv_storage \<Rightarrow> ScannerConfig \<Rightarrow> (nat \<Rightarrow> nat \<Rightarrow> nat \<Rightarrow> bool) \<Rightarrow> bytes \<Rightarrow> bytes \<Rightarrow> rev \<Rightarrow> 's scst
     \<Rightarrow> ((error + int) \<times> 's scst) option" where
  "scanner_Count kv conf ctx start stop revision st =
     (case scan kv conf ctx start stop revision False emptyResultReceiver st of
        None \<Rightarrow> None
      | Some ((_, Some err), _, st1) \<Rightarrow> Some (Inl err, st1)
      | Some ((n, None), _, st1) \<Rightarrow> Some (Inr n, st1))"

definition getListStreamEnd :: "rev \<Rightarrow> error option \<Rightarrow> StreamRangeResponse" where
  "getListStreamEnd revision err = \<lparr>SHeader = revision, SKvs = [], SMore = False, SErr = err\<rparr>"

text \<open>\<^verbatim>\<open>RangeStream\<close>: everything the goroutine sends until it closes the channel.\<close>

definition RangeStream ::
    "'s kv_storage \<Rightarrow> ScannerConfig \<Rightarrow> (nat \<Rightarrow> nat \<Rightarrow> nat \<Rightarrow> bool) \<Rightarrow> bytes \<Rightarrow> bytes \<Rightarrow> rev \<Rightarrow> 's scst
     \<Rightarrow> (StreamRangeResponse list \<times> 's scst) option" where
  "RangeStream kv conf ctx start stop revision st =
     (case scan kv conf ctx start stop revision False (newStreamReceiver revision) st of
        Some ((_, err), streamResultReceiver _ stream _, st1) \<Rightarrow> Some (stream @ [getListStreamEnd revision err], st1)
      | _ \<Rightarrow> None)"

definition scanner_Compact ::
    "'s kv_storage \<Rightarrow> ScannerConfig \<Rightarrow> (nat \<Rightarrow> nat \<Rightarrow> nat \<Rightarrow> bool) \<Rightarrow> bytes \<Rightarrow> bytes \<Rightarrow> rev \<Rightarrow> 's scst \<Rightarrow> 's scst option" where
  "scanner_Compact kv conf ctx start stop revision st =
     map_option (\<lambda>(_, _, st1). st1)
       (scan kv conf ctx start stop revision True emptyResultReceiver (logCompactHistory revision st))"

end
