(* ===== verification/ScanSpec.thy ===== *)
theory ScanSpec
  imports Scanner
begin

text \<open>
  What a range scan returns: for each user key of the range, in order, its latest version at the read
  revision unless that is a tombstone. The loop of \<^verbatim>\<open>worker.run\<close> is related to a recursion over the decoded
  pairs, and that to \<open>visible\<close>.
\<close>

section \<open>The recursion behind the loop\<close>

type_synonym triple = "bytes \<times> rev \<times> bytes"

definition triple_of :: "kvpair \<Rightarrow> triple option" where
  "triple_of it = (case Decode (fst it) of Some (Inr (k, r)) \<Rightarrow> Some (k, r, snd it) | _ \<Rightarrow> None)"

definition triples :: "rev \<Rightarrow> kvpair list \<Rightarrow> triple list" where
  "triples R items = filter (\<lambda>(k, r, v). r \<le> R) (List.map_filter triple_of items)"

definition em :: "bytes \<Rightarrow> triple \<Rightarrow> KeyValue list" where
  "em tb t = (case t of (k, r, v) \<Rightarrow> if r > 0 \<and> v \<noteq> tb then [\<lparr>Key = k, Value = v, Revision = r\<rparr>] else [])"

fun emits :: "bytes \<Rightarrow> triple \<Rightarrow> triple list \<Rightarrow> KeyValue list" where
  "emits tb p [] = []"
| "emits tb p (t # T) = (if fst t \<noteq> fst p then em tb p else []) @ emits tb t T"

definition lasts :: "bytes \<Rightarrow> triple \<Rightarrow> triple list \<Rightarrow> KeyValue list" where
  "lasts tb p T = emits tb p T @ em tb (last (p # T))"

definition prev :: "'s loop \<Rightarrow> triple" where
  "prev l = (l_prevUserKey l, l_prevRevision l, l_prevValue l)"

lemma triples_Nil [simp]: "triples R [] = []"
  by (simp add: triples_def List.map_filter_def)

lemma triples_Cons:
  "triples R (it # items) = (case Decode (fst it) of
     Some (Inr (k, r)) \<Rightarrow> (if r \<le> R then (k, r, snd it) # triples R items else triples R items)
   | _ \<Rightarrow> triples R items)"
  by (auto simp: triples_def List.map_filter_def triple_of_def split: option.splits sum.splits prod.splits)

lemma emits_append: "emits tb p (T @ T') = emits tb p T @ emits tb (last (p # T)) T'"
  by (induction T arbitrary: p) auto

lemma lasts_prefix: "prefix (emits tb p T) (lasts tb p (T @ T'))"
  by (simp add: lasts_def emits_append)

lemma triples_append: "triples R (xs @ ys) = triples R xs @ triples R ys"
  by (simp add: triples_def List.map_filter_def)

lemma feed_prefix: "prefix xs ys \<Longrightarrow> \<not> needMore (feed r xs) \<Longrightarrow> feed r ys = feed r xs"
  by (auto simp: prefix_def feed_append feed_stop)

section \<open>The loop without compaction\<close>

definition reads_only :: "workerConfig \<Rightarrow> bool" where
  "reads_only c \<longleftrightarrow> \<not> wc_compact c \<and> wc_timeoutRevision c = 0"

lemma emit_recv:
  "l_recv (emit c l) = (if needMore (l_recv l) then feed (l_recv l) (em (wc_tombstone c) (prev l)) else l_recv (emit c l))"
  "l_count (emit c l) = l_count l + int (length (em (wc_tombstone c) (prev l)))"
  "l_worker (emit c l) = l_worker l"
  by (auto simp: emit_def em_def prev_def)

lemma processItem_reads:
  assumes "reads_only c"
  shows "processItem kv c it k r l =
    Some (if r > wc_revision c then l
          else (if k \<noteq> l_prevUserKey l then emit c l else l)
                 \<lparr>l_prevUserKey := k, l_prevRevision := r, l_prevValue := snd it\<rparr>)"
  using assms by (simp add: processItem_def reads_only_def compactIfExpired_def Let_def)

lemma runLoop_reads:
  assumes c: "reads_only c" "\<And>j. \<not> ctx j" and "\<forall>it \<in> set items. Decode (fst it) \<noteq> None"
    and "\<not> needMore (l_recv l) \<Longrightarrow> err = None"
  shows "\<exists>e l'. runLoop kv c ctx i items endErr err l = Some (Inr e, l') \<and> l_worker l' = l_worker l
    \<and> l_recv l' = feed (l_recv l) (emits (wc_tombstone c) (prev l) (triples (wc_revision c) items))
    \<and> (if needMore (l_recv l')
       then e = Some endErr \<and> prev l' = last (prev l # triples (wc_revision c) items)
            \<and> l_count l' = l_count l + int (length (emits (wc_tombstone c) (prev l) (triples (wc_revision c) items)))
       else e = None)"
  using assms(3-)
proof (induction items arbitrary: i err l)
  case Nil
  then show ?case using c(2) by auto
next
  case (Cons it items)
  show ?case
  proof (cases "needMore (l_recv l)")
    case False
    then show ?thesis using Cons.prems by (simp add: feed_stop)
  next
    case more: True
    obtain d where d: "Decode (fst it) = Some d" using Cons.prems by auto
    show ?thesis
    proof (cases d)
      case (Inl e)
      have step: "runLoop kv c ctx i (it # items) endErr err l = runLoop kv c ctx (i + 1) items endErr (Some e) l"
        using more c(2) d Inl by simp
      have tr: "triples (wc_revision c) (it # items) = triples (wc_revision c) items"
        using d Inl by (simp add: triples_Cons)
      show ?thesis unfolding step tr by (rule Cons.IH) (use Cons.prems more in auto)
    next
      case (Inr kr)
      obtain k r where kr: "kr = (k, r)" by (cases kr)
      let ?T = "triples (wc_revision c) items"
      define l2 where "l2 = (if r > wc_revision c then l
          else (if k \<noteq> l_prevUserKey l then emit c l else l)
                 \<lparr>l_prevUserKey := k, l_prevRevision := r, l_prevValue := snd it\<rparr>)"
      have "processItem kv c it k r l = Some l2" unfolding l2_def by (rule processItem_reads[OF c(1)])
      then have step: "runLoop kv c ctx i (it # items) endErr err l = runLoop kv c ctx (i + 1) items endErr None l2"
        using more c(2) d Inr kr by simp
      have pv: "prev l2 = (if r > wc_revision c then prev l else (k, r, snd it))"
        by (simp add: prev_def l2_def)
      have rc: "l_recv l2 = (if \<not> r > wc_revision c \<and> k \<noteq> fst (prev l)
          then feed (l_recv l) (em (wc_tombstone c) (prev l)) else l_recv l)"
        using more emit_recv(1)[of c l] by (simp add: prev_def l2_def)
      have ct: "l_count l2 = (if \<not> r > wc_revision c \<and> k \<noteq> fst (prev l)
          then l_count l + int (length (em (wc_tombstone c) (prev l))) else l_count l)" "l_worker l2 = l_worker l"
        using emit_recv(2,3)[of c l] by (simp_all add: prev_def l2_def)
      obtain e l' where IH: "runLoop kv c ctx (i + 1) items endErr None l2 = Some (Inr e, l')" "l_worker l' = l_worker l2"
        "l_recv l' = feed (l_recv l2) (emits (wc_tombstone c) (prev l2) ?T)"
        "if needMore (l_recv l')
         then e = Some endErr \<and> prev l' = last (prev l2 # ?T)
            \<and> l_count l' = l_count l2 + int (length (emits (wc_tombstone c) (prev l2) ?T))
         else e = None"
        using Cons.IH[of l2 None "i + 1"] Cons.prems by auto
      have tr: "triples (wc_revision c) (it # items) = (if r > wc_revision c then ?T else (k, r, snd it) # ?T)"
        using d Inr kr by (simp add: triples_Cons not_less)
      have "l_recv l' = feed (l_recv l) (emits (wc_tombstone c) (prev l) (triples (wc_revision c) (it # items)))"
        using IH(3) pv rc tr by (simp add: feed_append)
      moreover have "last (prev l2 # ?T) = last (prev l # triples (wc_revision c) (it # items))"
        using pv tr by simp
      moreover have "l_count l2 + int (length (emits (wc_tombstone c) (prev l2) ?T))
          = l_count l + int (length (emits (wc_tombstone c) (prev l) (triples (wc_revision c) (it # items))))"
        using pv ct tr by simp
      ultimately show ?thesis
        using IH(1,2,4) ct(2) unfolding step by (intro exI[of _ e] exI[of _ l']) (simp only:)
    qed
  qed
qed


section \<open>The recursion and what is visible\<close>

definition tlt :: "triple \<Rightarrow> triple \<Rightarrow> bool" where
  "tlt t u \<longleftrightarrow> fst t < fst u \<or> (fst t = fst u \<and> fst (snd t) < fst (snd u))"

lemma set_triples:
  "(k, r, v) \<in> set (triples R items) \<longleftrightarrow> (EncodeObjectKey k r, v) \<in> set items \<and> r \<le> R"
proof (induction items)
  case (Cons it items)
  obtain ik w where it: "it = (ik, w)" by (cases it)
  show ?case
  proof (cases "\<exists>k' r'. ik = EncodeObjectKey k' r'")
    case True
    then show ?thesis using Cons it by (auto simp: triples_Cons split: if_splits)
  next
    case False
    then have "Decode ik \<noteq> Some (Inr x)" for x using Decode_SomeInr by (cases x) blast
    then have "triples R (it # items) = triples R items"
      using it by (auto simp: triples_Cons split: option.splits sum.splits prod.splits)
    then show ?thesis using Cons it False by auto
  qed
qed simp

lemma sorted_triples:
  assumes "sorted_wrt (<) (map fst items)" "\<And>k r v. (EncodeObjectKey k r, v) \<in> set items \<Longrightarrow> wf_key k"
  shows "sorted_wrt tlt (triples R items)"
proof -
  let ?ok = "\<lambda>it. triple_of it \<noteq> None"
  have "sorted_wrt (\<lambda>a b. fst a < fst b) (filter ?ok items)"
    using assms(1) by (simp add: sorted_wrt_map sorted_wrt_filter)
  then have "sorted_wrt (\<lambda>a b. tlt (the (triple_of a)) (the (triple_of b))) (filter ?ok items)"
  proof (rule sorted_wrt_mono_rel[rotated])
    fix x y assume x: "x \<in> set (filter ?ok items)" and y: "y \<in> set (filter ?ok items)" and lt: "fst x < fst y"
    obtain k r where kr: "Decode (fst x) = Some (Inr (k, r))"
      using x by (auto simp: triple_of_def split: option.splits sum.splits)
    obtain k' r' where kr': "Decode (fst y) = Some (Inr (k', r'))"
      using y by (auto simp: triple_of_def split: option.splits sum.splits)
    have ek: "fst x = EncodeObjectKey k r" "fst y = EncodeObjectKey k' r'" using Decode_SomeInr kr kr' by blast+
    then have "(EncodeObjectKey k r, snd x) \<in> set items" "(EncodeObjectKey k' r', snd y) \<in> set items"
      using x y by (simp_all flip: ek)
    then have "wf_key k" "wf_key k'" using assms(2) by blast+
    then show "tlt (the (triple_of x)) (the (triple_of y))"
      using lt ek kr kr' by (simp add: tlt_def triple_of_def EncodeObjectKey_less_iff)
  qed
  then show ?thesis by (simp add: triples_def map_filter_def sorted_wrt_map sorted_wrt_filter)
qed

text \<open>A triple that is not followed by a newer one of its key.\<close>

definition newest_in :: "bytes \<Rightarrow> triple list \<Rightarrow> KeyValue \<Rightarrow> bool" where
  "newest_in tb T kv \<longleftrightarrow> (Key kv, Revision kv, Value kv) \<in> set T \<and> 0 < Revision kv \<and> Value kv \<noteq> tb
     \<and> (\<forall>r v. (Key kv, r, v) \<in> set T \<longrightarrow> r \<le> Revision kv)"

lemma set_em: "kv \<in> set (em tb (k, r, v)) \<longleftrightarrow> kv = \<lparr>Key = k, Value = v, Revision = r\<rparr> \<and> 0 < r \<and> v \<noteq> tb"
  by (auto simp: em_def)

lemma lasts_Cons: "lasts tb p (t # T) = (if fst t \<noteq> fst p then em tb p else []) @ lasts tb t T"
  by (simp add: lasts_def)

lemma lasts_mem:
  assumes "sorted_wrt tlt (p # T)"
  shows "kv \<in> set (lasts tb p T) \<longleftrightarrow> newest_in tb (p # T) kv"
  using assms
proof (induction T arbitrary: p)
  case Nil
  obtain k r v where p: "p = (k, r, v)" by (cases p)
  then show ?case by (cases kv) (auto simp: lasts_def set_em newest_in_def)
next
  case (Cons t T)
  obtain k r v where p: "p = (k, r, v)" by (cases p)
  have lt: "\<And>u. u \<in> set (t # T) \<Longrightarrow> tlt p u" and srt: "sorted_wrt tlt (t # T)" using Cons.prems by auto
  have IH: "kv \<in> set (lasts tb t T) \<longleftrightarrow> newest_in tb (t # T) kv" using Cons.IH[OF srt] .
  have tail: "newest_in tb (t # T) kv \<Longrightarrow> newest_in tb (p # t # T) kv"
    using lt p by (fastforce simp: newest_in_def tlt_def)
  show ?case
  proof (cases "fst t = k")
    case True
    have "\<not> newest_in tb (p # t # T) kv \<or> (Key kv, Revision kv, Value kv) \<noteq> p"
    proof (rule disjCI)
      assume "\<not> (Key kv, Revision kv, Value kv) \<noteq> p"
      then have "Key kv = k" "Revision kv = r" using p by auto
      then show "\<not> newest_in tb (p # t # T) kv"
        using lt[of t] True p by (cases t) (fastforce simp: newest_in_def tlt_def)
    qed
    then have "newest_in tb (p # t # T) kv \<Longrightarrow> newest_in tb (t # T) kv" by (auto simp: newest_in_def)
    then show ?thesis using IH tail True p by (auto simp: lasts_Cons)
  next
    case False
    then have "k < fst t" using lt[of t] p by (auto simp: tlt_def)
    then have other: "k < fst u" if "u \<in> set (t # T)" for u
      using that srt p by (auto simp: tlt_def)
    have "newest_in tb (p # t # T) kv \<longleftrightarrow> kv \<in> set (em tb p) \<or> newest_in tb (t # T) kv"
    proof (cases "Key kv = k")
      case True
      then have "\<And>r v. (Key kv, r, v) \<notin> set (t # T)" using other by fastforce
      then show ?thesis using True p by (cases kv) (auto simp: newest_in_def set_em)
    next
      case False
      then show ?thesis using p by (auto simp: newest_in_def set_em)
    qed
    then show ?thesis using IH False p by (auto simp: lasts_Cons)
  qed
qed

lemma lasts_sorted:
  assumes "sorted_wrt tlt (p # T)"
  shows "sorted_wrt (<) (map Key (lasts tb p T)) \<and> (\<forall>kv \<in> set (lasts tb p T). fst p \<le> Key kv)"
  using assms
proof (induction T arbitrary: p)
  case Nil
  then show ?case by (cases p) (auto simp: lasts_def em_def)
next
  case (Cons t T)
  have IH: "sorted_wrt (<) (map Key (lasts tb t T))" "\<forall>kv \<in> set (lasts tb t T). fst t \<le> Key kv"
    using Cons by auto
  have "fst p \<le> fst t" using Cons.prems by (auto simp: tlt_def)
  then show ?case using IH
    by (cases p) (fastforce simp: lasts_Cons sorted_wrt_append em_def)
qed

lemma lasts_start: "lasts tb ([], 0, []) T = (case T of [] \<Rightarrow> [] | t # T' \<Rightarrow> lasts tb t T')"
  by (cases T) (auto simp: lasts_def em_def)

lemma lasts_start_spec:
  assumes "sorted_wrt tlt T"
  shows "sorted_wrt (<) (map Key (lasts tb ([], 0, []) T))"
    and "kv \<in> set (lasts tb ([], 0, []) T) \<longleftrightarrow> newest_in tb T kv"
  using assms lasts_sorted lasts_mem by (cases T; auto simp: lasts_start newest_in_def)+


section \<open>Listings\<close>

text \<open>
  \<open>listing m R P L\<close>: the list \<open>L\<close> holds, in the order of the keys, exactly the user keys of \<open>P\<close> that are visible at
  revision \<open>R\<close>, each with its visible value and revision.
\<close>

definition listing :: "kvmap \<Rightarrow> rev \<Rightarrow> (bytes \<Rightarrow> bool) \<Rightarrow> KeyValue list \<Rightarrow> bool" where
  "listing m R P L \<longleftrightarrow> sorted_wrt (<) (map Key L)
     \<and> (\<forall>kv. kv \<in> set L \<longleftrightarrow> wf_key (Key kv) \<and> P (Key kv) \<and> visible m (Key kv) R = Some (Value kv, Revision kv))"

lemma listing_unique:
  assumes "listing m R P L" "listing m R P L'"
  shows "L = L'"
proof -
  have "sorted (map Key L)" "distinct (map Key L)" "sorted (map Key L')" "distinct (map Key L')"
    using assms strict_sorted_iff by (auto simp: listing_def)
  moreover have "set L = set L'" using assms by (auto simp: listing_def)
  moreover have "inj_on Key (set L \<union> set L')"
    using assms by (auto simp: listing_def inj_on_def)
  ultimately show ?thesis by (intro map_sorted_distinct_set_unique[of Key L L'])
qed

lemma listing_append:
  assumes "listing m R P L" "listing m R Q L'" "\<And>k k'. P k \<Longrightarrow> Q k' \<Longrightarrow> wf_key k \<Longrightarrow> wf_key k' \<Longrightarrow> k < k'"
  shows "listing m R (\<lambda>k. P k \<or> Q k) (L @ L')"
  using assms by (auto simp: listing_def sorted_wrt_append)

lemma listing_Nil: "(\<And>k. wf_key k \<Longrightarrow> \<not> P k) \<Longrightarrow> listing m R P []"
  by (auto simp: listing_def)

lemma listing_cong:
  assumes "listing m R P L" "\<And>k. wf_key k \<Longrightarrow> P k = Q k"
  shows "listing m R Q L"
  using assms by (auto simp: listing_def)

text \<open>Borders that do not fall between the versions of a user key.\<close>

definition aligned :: "bytes \<Rightarrow> bool" where
  "aligned x \<longleftrightarrow> (\<forall>k r. wf_key k \<longrightarrow> (x \<le> EncodeObjectKey k r \<longleftrightarrow> x \<le> EncodeObjectKey k 0))"

definition within :: "bytes \<Rightarrow> bytes \<Rightarrow> bytes \<Rightarrow> bool" where
  "within a b k \<longleftrightarrow> a \<le> EncodeObjectKey k 0 \<and> EncodeObjectKey k 0 < b"

lemma aligned_Enc: "wf_key k \<Longrightarrow> aligned (EncodeObjectKey k 0)"
  by (auto simp: aligned_def EncodeObjectKey_le_iff)

lemma aligned_within:
  assumes "aligned a" "aligned b" "wf_key k"
  shows "EncodeObjectKey k r \<in> {a..<b} \<longleftrightarrow> within a b k"
proof -
  have "a \<le> EncodeObjectKey k r \<longleftrightarrow> a \<le> EncodeObjectKey k 0" using assms unfolding aligned_def by blast
  moreover have "b \<le> EncodeObjectKey k r \<longleftrightarrow> b \<le> EncodeObjectKey k 0" using assms unfolding aligned_def by blast
  ultimately show ?thesis unfolding within_def atLeastLessThan_iff by (metis not_le)
qed

lemma within_Enc:
  "wf_key k \<Longrightarrow> wf_key x \<Longrightarrow> wf_key y \<Longrightarrow>
     within (EncodeObjectKey x 0) (EncodeObjectKey y 0) k \<longleftrightarrow> x \<le> k \<and> k < y"
  by (auto simp: within_def EncodeObjectKey_le_iff EncodeObjectKey_less_iff)

lemma listing_within_append:
  assumes "listing m R (within a b) L" "listing m R (within b c) L'" "a \<le> b" "b \<le> c"
  shows "listing m R (within a c) (L @ L')"
proof (rule listing_cong[OF listing_append[OF assms(1,2)]])
  fix k k' assume "within a b k" "within b c k'" "wf_key k" "wf_key k'"
  then show "k < k'"
    using less_le_trans[of "EncodeObjectKey k 0" b "EncodeObjectKey k' 0"]
    by (auto simp: within_def EncodeObjectKey_less_iff)
qed (use assms(3,4) in \<open>auto simp: within_def\<close>)

text \<open>What the workers feed their receiver for the pairs of \<open>[a, b)\<close>.\<close>

definition found :: "kvmap \<Rightarrow> rev \<Rightarrow> bytes \<Rightarrow> bytes \<Rightarrow> KeyValue list" where
  "found m R a b = lasts tombStoneBytes ([], 0, []) (triples R (forward_range m a b))"

lemma wf_store_key: "wf_store m \<Longrightarrow> m (EncodeObjectKey k r) \<noteq> None \<Longrightarrow> wf_key k"
  unfolding wf_store_def by (metis EncodeObjectKey_inject EncodeObjectKey_def append_eq_conv_conj length_magicBytes)

lemma wf_store_decodes: "wf_store m \<Longrightarrow> m ik \<noteq> None \<Longrightarrow> Decode ik \<noteq> None"
  unfolding wf_store_def by (auto simp: Decode_panics_iff)

lemma found_listing:
  assumes m: "finite (dom m)" "wf_store m" and ab: "aligned a" "aligned b"
  shows "listing m R (within a b) (found m R a b)"
proof -
  let ?F = "forward_range m a b" let ?T = "triples R ?F"
  have F: "(ik, v) \<in> set ?F \<longleftrightarrow> m ik = Some v \<and> ik \<in> {a..<b}" for ik v
    using m(1) by (simp add: forward_range_def)
  have srt: "sorted_wrt tlt ?T"
  proof (rule sorted_triples)
    show "wf_key k" if "(EncodeObjectKey k r, v) \<in> set ?F" for k r v
      using that F wf_store_key[OF m(2), of k r] by simp
  qed (simp add: forward_range_def sorted_entries_of)
  have T: "(k, r, v) \<in> set ?T \<longleftrightarrow> wf_key k \<and> within a b k \<and> m (EncodeObjectKey k r) = Some v \<and> r \<le> R" for k r v
    unfolding set_triples F using wf_store_key[OF m(2), of k r] aligned_within[OF ab, of k r] by auto
  have new: "newest_in tombStoneBytes ?T kv \<longleftrightarrow>
      wf_key (Key kv) \<and> within a b (Key kv) \<and> visible m (Key kv) R = Some (Value kv, Revision kv)" for kv
    unfolding newest_in_def T visible_Some_iff latest_Some_iff
    by (metis linorder_not_less option.exhaust option.distinct(1))
  show ?thesis unfolding listing_def found_def
    using lasts_start_spec[OF srt] new by blast
qed


section \<open>Workers that read\<close>

definition is_stream :: "receiver \<Rightarrow> bool" where
  "is_stream r \<longleftrightarrow> (case r of streamResultReceiver _ _ _ \<Rightarrow> True | _ \<Rightarrow> False)"

lemma full_flush: "\<not> needMore r \<Longrightarrow> flush r = r"
  by (cases r) auto

lemma reset_feed: "\<not> is_stream r \<Longrightarrow> reset (feed r L) = reset r \<and> \<not> is_stream (feed r L)"
proof (induction L arbitrary: r)
  case (Cons kv L)
  then have "\<not> is_stream (append_kv kv r)" "reset (append_kv kv r) = reset r" by (cases r; simp add: is_stream_def)+
  then show ?case using Cons by auto
qed auto

lemma reset_reset [simp]: "reset (reset r) = reset r"
  by (cases r) auto

lemma is_stream_reset [simp]: "is_stream (reset r) = is_stream r" "is_stream (flush r) = is_stream r"
  by (cases r; simp add: is_stream_def)+

lemma reset_flush: "\<not> is_stream r \<Longrightarrow> reset (flush r) = reset r"
  by (cases r) (simp_all add: is_stream_def)

text \<open>An engine whose iterators never fail.\<close>

definition steady :: "'s kv_storage \<Rightarrow> ('s \<Rightarrow> bool) \<Rightarrow> bool" where
  "steady kv ok \<longleftrightarrow> (\<forall>s a b ts lim. ok s \<longrightarrow> (\<exists>items s'. kv_Iter kv s a b ts lim = (Inr (items, EOF), s')))"

lemma steadyD: "steady kv ok \<Longrightarrow> ok s \<Longrightarrow> kv_Iter kv s a b ts lim = (it, s') \<Longrightarrow> \<exists>items. it = Inr (items, EOF)"
  unfolding steady_def by (metis prod.inject)

context kv_engine
begin

text \<open>An attempt on a partition: whatever happens it changes nothing but the receiver; without an error the receiver got all.\<close>

lemma run_reads:
  assumes c: "reads_only c" "\<And>j. \<not> ctx j" "wc_tombstone c = tombStoneBytes"
    and s: "ok (w_kv w)" "snap (w_kv w) (wc_tso c) = m" "finite (dom m)" "wf_store m"
    and ab: "Start (wc_partition c) \<le> End (wc_partition c)" "End (wc_partition c) \<noteq> []"
  defines "L \<equiv> found m (wc_revision c) (Start (wc_partition c)) (End (wc_partition c))"
  shows "\<exists>n e r w'. run kv c ctx recv w = Some ((n, e), r, w') \<and> ok (w_kv w') \<and> view (w_kv w') = view (w_kv w)
    \<and> snap (w_kv w') = snap (w_kv w)
    \<and> (\<not> is_stream recv \<longrightarrow> reset r = reset recv \<and> \<not> is_stream r)
    \<and> (e = None \<longrightarrow> r = flush (feed (reset recv) L) \<and> (needMore (feed (reset recv) L) \<longrightarrow> n = int (length L)))
    \<and> (steady kv ok \<longrightarrow> e = None)"
proof -
  let ?a = "Start (wc_partition c)" and ?b = "End (wc_partition c)" and ?R = "wc_revision c"
  obtain it s1 where it: "kv_Iter kv (w_kv w) ?a ?b (wc_tso c) 0 = (it, s1)" by fastforce
  note st = iter_state[OF s(1) it]
  show ?thesis
  proof (cases it)
    case (Inl err)
    then have run: "run kv c ctx recv w = Some ((0, Some err), recv, w\<lparr>w_kv := s1\<rparr>)" using it by (simp add: run_def)
    have "\<not> steady kv ok" using steadyD[of kv ok, OF _ s(1) it] Inl by auto
    then show ?thesis unfolding run using st by (intro exI conjI) (rule refl | simp)+
  next
    case (Inr its)
    obtain items err where its: "its = (items, err)" by (cases its)
    have pre: "prefix items (forward_range m ?a ?b)" and all: "err = EOF \<longrightarrow> items = forward_range m ?a ?b"
      using iter_forward[OF s(1) ab, of "wc_tso c" items err s1] it Inr its s(2) by simp_all
    have dec: "\<forall>x \<in> set items. Decode (fst x) \<noteq> None"
    proof
      fix x assume "x \<in> set items"
      then have "x \<in> set (forward_range m ?a ?b)" using set_mono_prefix[OF pre] by blast
      then have "m (fst x) \<noteq> None" using s(3) by (auto simp: forward_range_def)
      then show "Decode (fst x) \<noteq> None" using wf_store_decodes[OF s(4)] by blast
    qed
    define l where "l = \<lparr>l_worker = w\<lparr>w_kv := s1\<rparr>, l_recv = reset recv, l_count = 0, l_prevUserKey = [],
                   l_prevRevision = 0, l_prevValue = []\<rparr>"
    have l: "prev l = ([], 0, [])" "l_recv l = reset recv" "l_worker l = w\<lparr>w_kv := s1\<rparr>" "l_count l = 0"
      by (simp_all add: l_def prev_def)
    let ?E = "emits tombStoneBytes ([], 0, []) (triples ?R items)"
    obtain e l' where lp: "runLoop kv c ctx 0 items err None l = Some (Inr e, l')" "l_worker l' = w\<lparr>w_kv := s1\<rparr>"
        "l_recv l' = feed (reset recv) ?E"
        "if needMore (l_recv l') then e = Some err \<and> prev l' = last (([], 0, []) # triples ?R items) \<and> l_count l' = int (length ?E)
         else e = None"
      using runLoop_reads[where ctx = ctx and l = l and err = None and kv = kv and endErr = err and i = 0,
        OF c(1,2) dec refl, unfolded l c(3) add_0] by blast
    have run: "run kv c ctx recv w =
        (if e \<noteq> Some EOF then Some ((0, e), l_recv l', l_worker l')
         else let l = (if needMore (l_recv l') then emit c l' else l')
              in Some ((l_count l, None), flush (l_recv l), l_worker l))"
      using it Inr its lp(1) l by (simp add: run_def l_def)
    show ?thesis
    proof (cases "needMore (l_recv l')")
      case False
      obtain items' where "forward_range m ?a ?b = items @ items'" using pre by (auto simp: prefix_def)
      then have "prefix ?E L" unfolding L_def found_def using lasts_prefix by (simp add: triples_append)
      then have "feed (reset recv) L = l_recv l'" using feed_prefix[of ?E L "reset recv"] False lp(3) by simp
      then show ?thesis unfolding run using False lp(2,4) st full_flush[OF False] reset_feed[of "reset recv"] lp(3)
        by (intro exI conjI) (rule refl | simp)+
    next
      case True
      show ?thesis
      proof (cases "err = EOF")
        case False
        have "\<not> steady kv ok" using steadyD[of kv ok, OF _ s(1) it] Inr its False by auto
        then show ?thesis unfolding run using True False lp st reset_feed[of "reset recv"]
          by (intro exI conjI) (rule refl | simp)+
      next
        case eof: True
        have L: "L = ?E @ em tombStoneBytes (last (([], 0, []) # triples ?R items))"
          using all eof by (simp add: L_def found_def lasts_def)
        have "l_recv (emit c l') = feed (reset recv) L" "l_count (emit c l') = int (length L)"
          "l_worker (emit c l') = w\<lparr>w_kv := s1\<rparr>"
          using emit_recv[of c l'] True lp c(3) by (simp_all add: L feed_append)
        then show ?thesis unfolding run using True eof lp(4) st reset_feed[of "reset recv" L] reset_flush[of "feed (reset recv) L"]
          by (intro exI conjI) (rule refl | simp)+
      qed
    qed
  qed
qed

end

end
