(* ===== verification/Listing.thy ===== *)
theory Listing
  imports ScanSpec "HOL-Library.Multiset"
begin

text \<open>
  The range reads of \<^verbatim>\<open>pkg/backend/range.go\<close> (\<^verbatim>\<open>List\<close>, \<^verbatim>\<open>Count\<close>, \<^verbatim>\<open>GetPartitions\<close>, \<^verbatim>\<open>ListByStream\<close>) on top of the
  scanner, and what they return: the visible keys of the range, for any partitioning of the store.
\<close>

section \<open>Operations\<close>

definition scannerOf :: "'s backend \<Rightarrow> 's scst" where
  "scannerOf b = \<lparr>sc_kv = kvState b, sc_hist = compactHistories b, sc_now = clock b\<rparr>"

definition putScanner :: "'s scst \<Rightarrow> 's backend \<Rightarrow> 's backend" where
  "putScanner st b = b\<lparr>kvState := sc_kv st, compactHistories := sc_hist st\<rparr>"

text \<open>\<^verbatim>\<open>limit++\<close> on an \<^verbatim>\<open>int64\<close>.\<close>

definition int64_inc :: "int \<Rightarrow> int" where
  "int64_inc n = (if n = 2 ^ 63 - 1 then - (2 ^ 63) else n + 1)"

definition nilEndErr :: error where
  "nilEndErr = OtherErr ''invalid nil end field in RangeRequest''"

definition rangeEndErr :: error where
  "rangeEndErr = OtherErr ''invalid range end''"

definition List ::
    "'s kv_storage \<Rightarrow> (nat \<Rightarrow> nat \<Rightarrow> nat \<Rightarrow> bool) \<Rightarrow> RangeRequest \<Rightarrow> 's backend \<Rightarrow> ((error + RangeResponse) \<times> 's backend) option" where
  "List kv ctx r b =
     (if length (REnd r) = 0 then Some (Inl nilEndErr, b)
      else
        let curRevision = GetRevision (tso b);
            reqRevision = (if RRevision r = 0 then curRevision else RRevision r)
        in if RKey r \<ge> REnd r then Some (Inl rangeEndErr, b)
           else
             let limit = (if RLimit r > 0 then int64_inc (RLimit r) else RLimit r)
             in case scanner_Range kv (getScannerConfig (config b)) ctx (EncodeObjectKey (RKey r) 0)
                       (EncodeObjectKey (REnd r) 0) reqRevision limit (scannerOf b) of
                  None \<Rightarrow> None
                | Some (Inl err, st) \<Rightarrow> Some (Inl err, putScanner st b)
                | Some (Inr kvs, st) \<Rightarrow>
                    let more = (limit > 0 \<and> int (length kvs) > RLimit r)
                    in Some (Inr \<lparr>RHeader = curRevision, RKvs = (if more then take (nat (RLimit r)) kvs else kvs),
                                  RMore = more\<rparr>, putScanner st b))"

definition Count ::
    "'s kv_storage \<Rightarrow> (nat \<Rightarrow> nat \<Rightarrow> nat \<Rightarrow> bool) \<Rightarrow> bytes \<Rightarrow> bytes \<Rightarrow> 's backend \<Rightarrow> ((error + CountResponse) \<times> 's backend) option" where
  "Count kv ctx key rend b =
     (let rev = GetRevision (tso b) in
      if \<not> EnableEtcdCompatibility (config b) then Some (Inr \<lparr>CntHeader = rev, CntCount = 0\<rparr>, b)
      else case scanner_Count kv (getScannerConfig (config b)) ctx (EncodeObjectKey key 0) (EncodeObjectKey rend 0)
                  rev (scannerOf b) of
             None \<Rightarrow> None
           | Some (Inl err, st) \<Rightarrow> Some (Inl err, putScanner st b)
           | Some (Inr n, st) \<Rightarrow> Some (Inr \<lparr>CntHeader = rev, CntCount = word_of_int n\<rparr>, putScanner st b))"

fun partitionKeys :: "partition list \<Rightarrow> bytes list" where
  "partitionKeys [] = []"
| "partitionKeys [p] = [Start p, End p]"
| "partitionKeys (p # q # ps) = Start p # partitionKeys (q # ps)"

definition GetPartitions ::
    "'s kv_storage \<Rightarrow> bytes \<Rightarrow> bytes \<Rightarrow> 's backend \<Rightarrow> (error + PartitionResponse) \<times> 's backend" where
  "GetPartitions kv key rend b =
     (let rev = GetRevision (tso b) in
      case kv_GetPartitions kv (kvState b) (EncodeObjectKey key 0) (EncodeObjectKey rend 0) of
        (Inl err, s) \<Rightarrow> (Inl err, b\<lparr>kvState := s\<rparr>)
      | (Inr ps, s) \<Rightarrow>
          (Inr \<lparr>PHeader = rev, PNum = int (length ps), PKeys = partitionKeys ps\<rparr>, b\<lparr>kvState := s\<rparr>))"

text \<open>\<^verbatim>\<open>ListByStream\<close> takes keys of the engine, such as the borders \<^verbatim>\<open>GetPartitions\<close> returns.\<close>

definition ListByStream ::
    "'s kv_storage \<Rightarrow> (nat \<Rightarrow> nat \<Rightarrow> nat \<Rightarrow> bool) \<Rightarrow> bytes \<Rightarrow> bytes \<Rightarrow> rev \<Rightarrow> 's backend
     \<Rightarrow> (StreamRangeResponse list \<times> 's backend) option" where
  "ListByStream kv ctx startKey endKey revision b =
     (let curRev = GetRevision (tso b);
          revision = (if revision = 0 then curRev else revision)
      in map_option (\<lambda>(stream, st). (stream, putScanner st b))
           (RangeStream kv (getScannerConfig (config b)) ctx startKey endKey revision (scannerOf b)))"

section \<open>Borders\<close>

text \<open>
  Borders inside a range that can be adjusted: an encoded key (of a user key the backend could have
  written), or a key that \<^verbatim>\<open>Decode\<close> rejects and that is not between versions.
\<close>

definition border_ok :: "bytes \<Rightarrow> bool" where
  "border_ok x \<longleftrightarrow> (case Decode x of
     None \<Rightarrow> False | Some (Inl _) \<Rightarrow> aligned x | Some (Inr (k, r)) \<Rightarrow> wf_key k)"

fun chained :: "partition list \<Rightarrow> bytes \<Rightarrow> bytes \<Rightarrow> bool" where
  "chained [] a b \<longleftrightarrow> a = b"
| "chained (p # ps) a b \<longleftrightarrow> Start p = a \<and> a \<le> End p \<and> End p \<noteq> [] \<and> aligned (End p) \<and> chained ps (End p) b"

lemma chained_le: "chained ps a b \<Longrightarrow> a \<le> b"
  by (induction ps arbitrary: a) (auto intro: order_trans)

lemma aligned_below: "aligned a \<Longrightarrow> wf_key k \<Longrightarrow> a \<le> EncodeObjectKey k r \<Longrightarrow> a \<le> EncodeObjectKey k 0"
  unfolding aligned_def by blast

definition border_of :: "bytes \<Rightarrow> error + bytes \<times> rev \<Rightarrow> bytes" where
  "border_of x d = (case d of Inr (uk, r) \<Rightarrow> if r \<noteq> 0 then EncodeRevisionKey uk else x | Inl _ \<Rightarrow> x)"

lemma adjustLoop_step:
  assumes "Decode (End p) = Some x" "ps \<noteq> []"
  shows "adjustLoop (Some a') (p # ps) =
    map_option (\<lambda>qs. p\<lparr>Start := a', End := border_of (End p) x\<rparr> # qs) (adjustLoop (Some (border_of (End p) x)) ps)"
  using assms by (cases p; cases x) (auto simp: border_of_def Let_def)

lemma adjustLoop_chained:
  assumes "tiles ps a b" "\<forall>p \<in> set (butlast ps). border_ok (End p)" "aligned a'" "a' \<le> a" "a \<le> b" "aligned b" "b \<noteq> []"
  shows "\<exists>qs. adjustLoop (Some a') ps = Some qs \<and> chained qs a' b"
  using assms
proof (induction ps a b arbitrary: a' rule: tiles.induct)
  case (2 p a b)
  then show ?case by auto
next
  case (3 p q ps a b)
  have e: "Start p = a" "a < End p" "End p < b" "tiles (q # ps) (End p) b" and ok: "border_ok (End p)" using 3 by auto
  have le: "a' \<le> End p" using 3 e(2) by simp
  define d where "d = Decode (End p)"
  obtain x where x: "d = Some x" using ok by (auto simp: border_ok_def d_def split: option.splits)
  define e' where "e' = border_of (End p) x"
  have e': "aligned e' \<and> a' \<le> e' \<and> e' \<noteq> [] \<and> e' \<le> End p"
  proof (cases x)
    case (Inl err)
    then show ?thesis using ok x le e(2) by (auto simp: border_ok_def d_def e'_def border_of_def)
  next
    case (Inr kr)
    obtain k r where kr: "kr = (k, r)" by (cases kr)
    have ek: "End p = EncodeObjectKey k r" and wf: "wf_key k"
      using x Inr kr ok Decode_SomeInr by (auto simp: border_ok_def d_def)
    have "a' \<le> EncodeObjectKey k 0" using aligned_below[OF _ wf] 3(4) le ek by simp
    then show ?thesis
      using wf ek Inr kr by (auto simp: e'_def border_of_def EncodeRevisionKey_def aligned_Enc EncodeObjectKey_le_iff EncodeObjectKey_nonempty)
  qed
  have IH: "\<exists>qs. adjustLoop (Some e') (q # ps) = Some qs \<and> chained qs e' b"
    by (rule "3.IH") (use 3 e e' in auto)
  then obtain qs where qs: "adjustLoop (Some e') (q # ps) = Some qs" "chained qs e' b" by blast
  have "adjustLoop (Some a') (p # q # ps) = Some (p\<lparr>Start := a', End := e'\<rparr> # qs)"
    using adjustLoop_step[of p x "q # ps" a'] x qs(1) by (simp add: d_def e'_def del: adjustLoop.simps)
  then show ?case using qs(2) e' by auto
qed simp

locale kv_engine_bordered = kv_engine +
  assumes partitions_border:
    "ok s \<Longrightarrow> a < b \<Longrightarrow> kv_GetPartitions kv s a b = (Inr ps, s') \<Longrightarrow> p \<in> set (butlast (sort_key Start ps)) \<Longrightarrow> border_ok (End p)"
begin

lemma adjusted:
  assumes "ok s" "a < b" "kv_GetPartitions kv s a b = (Inr ps, s')" "aligned a" "aligned b"
  shows "\<exists>qs. adjustPartitionsBorders ps = Some qs \<and> chained qs a b"
proof -
  let ?ps = "sort_key Start ps"
  have t: "tiles ?ps a b" using partitions_tile[OF assms(1-3)] .
  then obtain p qs where p: "?ps = p # qs" "Start p = a" by (cases "(?ps, a, b)" rule: tiles.cases) auto
  have st: "adjustLoop None ?ps = adjustLoop (Some a) ?ps" using p by (cases p) simp
  show ?thesis unfolding adjustPartitionsBorders_def st
    by (rule adjustLoop_chained[OF t]) (use assms partitions_border[OF assms(1-3)] in auto)
qed

end

section \<open>Attempts and workers\<close>

lemma reset_fork [simp]: "reset (fork r) = fork r"
  by (cases r) auto

lemma is_stream_fork [simp]: "is_stream (fork r) = is_stream r"
  by (cases r) (auto simp: is_stream_def)

text \<open>What one worker of a scan returned: it fed \<open>L\<close> to the receiver forked for it.\<close>

definition got :: "receiver \<Rightarrow> int \<times> error option \<times> receiver \<Rightarrow> KeyValue list \<Rightarrow> bool" where
  "got recv out L \<longleftrightarrow> (case out of (n, e, r) \<Rightarrow>
     r = flush (feed (fork recv) L) \<and> (needMore (feed (fork recv) L) \<longrightarrow> n = int (length L)))"

context kv_engine
begin

lemma backoffLoop_reads:
  assumes c: "reads_only c" "\<And>a j. \<not> ctx a j" "wc_tombstone c = tombStoneBytes"
    and s: "ok (w_kv w)" "snap (w_kv w) (wc_tso c) = m" "finite (dom m)" "wf_store m"
    and ab: "Start (wc_partition c) \<le> End (wc_partition c)" "End (wc_partition c) \<noteq> []"
    and st: "\<not> is_stream recv \<or> steady kv ok"
  defines "L \<equiv> found m (wc_revision c) (Start (wc_partition c)) (End (wc_partition c))"
  shows "\<exists>n e r w'. backoffLoop kv c ctx a k cnt se recv w = Some ((n, e), r, w')
    \<and> ok (w_kv w') \<and> view (w_kv w') = view (w_kv w) \<and> snap (w_kv w') = snap (w_kv w)
    \<and> (e = None \<longrightarrow> r = flush (feed (reset recv) L) \<and> (needMore (feed (reset recv) L) \<longrightarrow> n = int (length L)))
    \<and> (steady kv ok \<longrightarrow> 0 < k \<longrightarrow> e = None)"
  using s st
proof (induction k arbitrary: a cnt se recv w)
  case (Suc k)
  obtain n e r w' where r: "run kv c (\<lambda>i. ctx a (i + 1)) recv w = Some ((n, e), r, w')"
      "ok (w_kv w')" "view (w_kv w') = view (w_kv w)" "snap (w_kv w') = snap (w_kv w)"
      "\<not> is_stream recv \<Longrightarrow> reset r = reset recv \<and> \<not> is_stream r"
      "e = None \<Longrightarrow> r = flush (feed (reset recv) L) \<and> (needMore (feed (reset recv) L) \<longrightarrow> n = int (length L))"
      "steady kv ok \<Longrightarrow> e = None"
    using run_reads[where ctx = "\<lambda>i. ctx a (i + 1)" and recv = recv, OF c(1) c(2) c(3) Suc.prems(1-4) ab] unfolding L_def by blast
  show ?case
  proof (cases e)
    case None
    then show ?thesis using r c(2) by simp
  next
    case (Some err)
    then have ns: "\<not> is_stream recv" using r(7) Suc.prems(5) by blast
    have step: "backoffLoop kv c ctx a (Suc k) cnt se recv w = backoffLoop kv c ctx (a + 1) k n (Some err) r w'"
      using r(1) Some c(2) by simp
    have "\<exists>n' e r' w''. backoffLoop kv c ctx (a + 1) k n (Some err) r w' = Some ((n', e), r', w'')
        \<and> ok (w_kv w'') \<and> view (w_kv w'') = view (w_kv w') \<and> snap (w_kv w'') = snap (w_kv w')
        \<and> (e = None \<longrightarrow> r' = flush (feed (reset r) L) \<and> (needMore (feed (reset r) L) \<longrightarrow> n' = int (length L)))
        \<and> (steady kv ok \<longrightarrow> 0 < k \<longrightarrow> e = None)"
      by (rule Suc.IH) (use r Suc.prems ns in auto)
    then show ?thesis unfolding step using r Some ns by auto
  qed
qed auto


lemma runWorkers_reads:
  assumes mk: "\<And>p. reads_only (mk p) \<and> wc_tombstone (mk p) = tombStoneBytes \<and> wc_tso (mk p) = ts
                 \<and> wc_revision (mk p) = R \<and> wc_partition (mk p) = p"
    and ctx: "\<And>i a j. \<not> ctx i a j" and m: "finite (dom m)" "wf_store m"
    and st: "\<not> is_stream recv \<or> steady kv ok"
  shows "ok s \<Longrightarrow> snap s ts = m \<Longrightarrow> aligned a \<Longrightarrow> chained ps a b \<Longrightarrow>
    \<exists>outs s'. runWorkers kv mk ctx idx ps recv s = Some (outs, s') \<and> ok s' \<and> view s' = view s \<and> snap s' = snap s
      \<and> (firstErr outs = None \<longrightarrow> (\<exists>Ls. list_all2 (got recv) outs Ls \<and> listing m R (within a b) (concat Ls)))
      \<and> (steady kv ok \<longrightarrow> firstErr outs = None)"
proof (induction ps arbitrary: s a idx)
  case Nil
  then show ?case by (auto simp: within_def intro: listing_Nil)
next
  case (Cons p ps)
  have p: "Start p = a" "a \<le> End p" "End p \<noteq> []" "aligned (End p)" "chained ps (End p) b" using Cons.prems by auto
  let ?L = "found m R a (End p)"
  have "\<exists>n e r w'. backoffLoop kv (mk p) (ctx idx) 0 scanBackoffSteps 0 None (fork recv) \<lparr>w_kv = s, w_failed = []\<rparr> = Some ((n, e), r, w')
    \<and> ok (w_kv w') \<and> view (w_kv w') = view s \<and> snap (w_kv w') = snap s
    \<and> (e = None \<longrightarrow> r = flush (feed (fork recv) ?L) \<and> (needMore (feed (fork recv) ?L) \<longrightarrow> n = int (length ?L)))
    \<and> (steady kv ok \<longrightarrow> 0 < scanBackoffSteps \<longrightarrow> e = None)"
    using backoffLoop_reads[of "mk p" "ctx idx" "\<lparr>w_kv = s, w_failed = []\<rparr>" m "fork recv" 0 scanBackoffSteps 0 None]
      mk[of p] ctx m st p Cons.prems by simp
  then obtain n e r w' where r: "runWithBackoffRetry kv (mk p) (ctx idx) (fork recv) \<lparr>w_kv = s, w_failed = []\<rparr> = Some ((n, e), r, w')"
      "ok (w_kv w')" "view (w_kv w') = view s" "snap (w_kv w') = snap s"
      "e = None \<Longrightarrow> got recv (n, e, r) ?L" "steady kv ok \<Longrightarrow> e = None"
    unfolding runWithBackoffRetry_def got_def scanBackoffSteps_def by auto
  obtain outs s' where IH: "runWorkers kv mk ctx (idx + 1) ps recv (w_kv w') = Some (outs, s')" "ok s'"
      "view s' = view (w_kv w')" "snap s' = snap (w_kv w')"
      "firstErr outs = None \<Longrightarrow> \<exists>Ls. list_all2 (got recv) outs Ls \<and> listing m R (within (End p) b) (concat Ls)"
      "steady kv ok \<Longrightarrow> firstErr outs = None"
    using Cons.IH[of "w_kv w'" "End p" "idx + 1"] r p Cons.prems by auto
  have eq: "runWorkers kv mk ctx idx (p # ps) recv s = Some ((n, e, r) # outs, s')" using r(1) IH(1) by simp
  have all: "\<exists>Ls. list_all2 (got recv) ((n, e, r) # outs) Ls \<and> listing m R (within a b) (concat Ls)"
    if none: "firstErr ((n, e, r) # outs) = None"
  proof -
    have "e = None" "firstErr outs = None" using none by (auto split: option.splits)
    then obtain Ls where Ls: "list_all2 (got recv) outs Ls" "listing m R (within (End p) b) (concat Ls)"
      using IH(5) by blast
    have "listing m R (within a b) (?L @ concat Ls)"
      using listing_within_append[OF found_listing[OF m] Ls(2) p(2)] Cons.prems(3) p chained_le by blast
    then show ?thesis using Ls(1) r(5)[OF \<open>e = None\<close>] by (intro exI[of _ "?L # Ls"]) simp
  qed
  have "steady kv ok \<longrightarrow> firstErr ((n, e, r) # outs) = None" using r(6) IH(6) by simp
  then show ?case unfolding eq using all IH(2-4) r(3,4) by auto
qed

end


section \<open>Scans\<close>

text \<open>The compaction record: its value is long enough to be read, and what it reads as (\<open>0\<close> when missing).\<close>

definition record_ok :: "kvmap \<Rightarrow> bytes \<Rightarrow> bool" where
  "record_ok m ck \<longleftrightarrow> (\<forall>v. m ck = Some v \<longrightarrow> 8 \<le> length v)"

definition compactRev :: "kvmap \<Rightarrow> bytes \<Rightarrow> rev" where
  "compactRev m ck = (case m ck of None \<Rightarrow> 0 | Some v \<Rightarrow> the (Uint64 v))"

lemma record_ok_Uint64: "record_ok m ck \<Longrightarrow> m ck = Some v \<Longrightarrow> Uint64 v = Some (compactRev m ck)"
  by (simp add: record_ok_def compactRev_def Uint64_eq)

text \<open>An engine whose reads always answer.\<close>

definition serving :: "'s kv_storage \<Rightarrow> ('s \<Rightarrow> kvmap) \<Rightarrow> ('s \<Rightarrow> bool) \<Rightarrow> bool" where
  "serving kv view ok \<longleftrightarrow> steady kv ok \<and> (\<forall>s. ok s \<longrightarrow>
     (\<exists>ts s'. kv_GetTimestampOracle kv s = (Inr ts, s')) \<and> (\<forall>a b. \<exists>ps s'. kv_GetPartitions kv s a b = (Inr ps, s'))
     \<and> (\<forall>k. \<exists>s'. kv_Get kv s k = (case view s k of None \<Rightarrow> (Inl ErrKeyNotFound, s') | Some v \<Rightarrow> (Inr v, s'))))"

lemma servingD:
  assumes "serving kv view ok" "ok s"
  shows "kv_GetTimestampOracle kv s = (Inl err, s') \<Longrightarrow> False"
    and "kv_GetPartitions kv s a b = (Inl err, s') \<Longrightarrow> False"
    and "kv_Get kv s k = (Inl err, s') \<Longrightarrow> err = ErrKeyNotFound"
    and "steady kv ok"
proof -
  have sv: "\<exists>ts s'. kv_GetTimestampOracle kv s = (Inr ts, s')" "\<exists>ps s'. kv_GetPartitions kv s a b = (Inr ps, s')"
      "\<exists>s'. kv_Get kv s k = (case view s k of None \<Rightarrow> (Inl ErrKeyNotFound, s') | Some v \<Rightarrow> (Inr v, s'))" "steady kv ok"
    using assms unfolding serving_def by blast+
  show "kv_GetTimestampOracle kv s = (Inl err, s') \<Longrightarrow> False" "kv_GetPartitions kv s a b = (Inl err, s') \<Longrightarrow> False"
    "kv_Get kv s k = (Inl err, s') \<Longrightarrow> err = ErrKeyNotFound" "steady kv ok"
    using sv by (auto split: option.splits)
qed

definition found_all :: "kvmap \<Rightarrow> rev \<Rightarrow> bytes \<Rightarrow> bytes \<Rightarrow> receiver \<Rightarrow> int \<Rightarrow> receiver \<Rightarrow> bool" where
  "found_all m R a b recv n recv' \<longleftrightarrow>
     (\<exists>outs Ls. list_all2 (got recv) outs Ls \<and> listing m R (within a b) (concat Ls)
        \<and> n = sum_list (map fst outs) \<and> recv' = fold (\<lambda>(_, _, r) acc. merge acc (close r)) outs recv)"

context kv_engine_bordered
begin

lemma checkCompactRace_reads:
  assumes "ok s" "record_ok (view s) (CompactKey conf)"
  shows "\<exists>e s'. checkCompactRace kv conf R False s = Some (e, s') \<and> ok s' \<and> view s' = view s \<and> snap s' = snap s
    \<and> (e = None \<longrightarrow> compactRev (view s) (CompactKey conf) \<le> R)
    \<and> (serving kv view ok \<longrightarrow> compactRev (view s) (CompactKey conf) \<le> R \<longrightarrow> e = None)"
proof -
  obtain g s' where g: "kv_Get kv s (CompactKey conf) = (g, s')" by fastforce
  note st = get_state[OF assms(1) g]
  show ?thesis
  proof (cases g)
    case (Inl err)
    have "err = ErrKeyNotFound \<Longrightarrow> compactRev (view s) (CompactKey conf) = 0"
      using get_notfound[OF assms(1), of "CompactKey conf" s'] g Inl by (simp add: compactRev_def)
    then show ?thesis using g st Inl servingD(3)[where ok = ok, OF _ assms(1)] by (auto simp: checkCompactRace_def)
  next
    case (Inr v)
    then have "Uint64 v = Some (compactRev (view s) (CompactKey conf))"
      using get_val[OF assms(1), of "CompactKey conf" v s'] g record_ok_Uint64[OF assms(2)] by simp
    then show ?thesis using g st Inr by (auto simp: checkCompactRace_def)
  qed
qed

lemma scan_reads:
  assumes ctx: "\<And>i a j. \<not> ctx i a j" and s: "ok (sc_kv st)" "wf_store (view (sc_kv st))"
    and conf: "record_ok (view (sc_kv st)) (CompactKey conf)" "Tombstone conf = tombStoneBytes"
    and ab: "aligned a" "aligned b" "a < b"
    and str: "\<not> is_stream recv \<or> steady kv ok"
  shows "\<exists>n e recv' st'. scan kv conf ctx a b R False recv st = Some ((n, e), recv', st') \<and> ok (sc_kv st')
    \<and> view (sc_kv st') = view (sc_kv st) \<and> sc_hist st' = sc_hist st
    \<and> (e = None \<longrightarrow> found_all (view (sc_kv st)) R a b recv n recv' \<and> compactRev (view (sc_kv st)) (CompactKey conf) \<le> R)
    \<and> (serving kv view ok \<longrightarrow> compactRev (view (sc_kv st)) (CompactKey conf) \<le> R \<longrightarrow> e = None)"
proof -
  obtain t s1 where t: "kv_GetTimestampOracle kv (sc_kv st) = (t, s1)" by fastforce
  have s1: "ok s1" "view s1 = view (sc_kv st)" using tso_state[OF s(1) t] by auto
  show ?thesis
  proof (cases t)
    case (Inl err)
    then show ?thesis using t s1 servingD(1)[where ok = ok, OF _ s(1)] by (auto simp: scan_def)
  next
    case ts: (Inr ts)
    have sn: "snap s1 ts = view (sc_kv st)" using tso_snap[OF s(1)] t ts s1 by simp
    obtain e2 s2 where c: "checkCompactRace kv conf R False s1 = Some (e2, s2)" "ok s2" "view s2 = view s1" "snap s2 = snap s1"
        "e2 = None \<Longrightarrow> compactRev (view s1) (CompactKey conf) \<le> R"
        "serving kv view ok \<Longrightarrow> compactRev (view s1) (CompactKey conf) \<le> R \<Longrightarrow> e2 = None"
      using checkCompactRace_reads[OF s1(1), of conf R] conf(1) s1(2) by auto
    show ?thesis
    proof (cases e2)
      case (Some err)
      then show ?thesis using t ts c s1 by (auto simp: scan_def)
    next
      case race: None
      obtain p s3 where p: "kv_GetPartitions kv s2 a b = (p, s3)" by fastforce
      note s3 = partitions_state[OF c(2) p]
      show ?thesis
      proof (cases p)
        case (Inl err)
        then show ?thesis using t ts c race p s3 s1 servingD(2)[where ok = ok, OF _ c(2)] by (auto simp: scan_def)
      next
        case (Inr ps)
        obtain qs where qs: "adjustPartitionsBorders ps = Some qs" "chained qs a b"
          using adjusted[OF c(2) ab(3), of ps s3] p Inr ab by auto
        define mk where "mk = (\<lambda>p. \<lparr>wc_partition = p, wc_tso = ts, wc_revision = R, wc_tombstone = Tombstone conf,
                                  wc_compact = False, wc_timeoutRevision = 0\<rparr>)"
        have fin: "finite (dom (view (sc_kv st)))" using finite_view[OF s(1)] .
        have ready: "ok s3" "snap s3 ts = view (sc_kv st)" using s3 sn c by auto
        obtain outs s4 where w: "runWorkers kv mk ctx 0 qs recv s3 = Some (outs, s4)" "ok s4" "view s4 = view s3"
            "firstErr outs = None \<Longrightarrow> \<exists>Ls. list_all2 (got recv) outs Ls \<and> listing (view (sc_kv st)) R (within a b) (concat Ls)"
            "steady kv ok \<Longrightarrow> firstErr outs = None"
          using runWorkers_reads[where mk = mk and R = R and ctx = ctx and recv = recv and idx = 0,
              OF _ ctx fin s(2) str ready ab(1) qs(2)] conf(2) by (auto simp: mk_def reads_only_def)
        have eq: "scan kv conf ctx a b R False recv st = (case firstErr outs of
               Some e \<Rightarrow> Some ((0, Some e), fold (\<lambda>(_, _, r) acc. absorb acc r) outs recv, st\<lparr>sc_kv := s4\<rparr>)
             | None \<Rightarrow> Some ((sum_list (map fst outs), None), fold (\<lambda>(_, _, r) acc. merge acc (close r)) outs recv, st\<lparr>sc_kv := s4\<rparr>))"
          using t ts c(1) race p Inr qs(1) w(1) by (simp add: scan_def mk_def Let_def)
        show ?thesis
        proof (cases "firstErr outs")
          case None
          then show ?thesis unfolding eq found_all_def using w s3 c s1 race by auto
        next
          case (Some e)
          then have "\<not> steady kv ok" using w(5) by auto
          then have "\<not> serving kv view ok" using servingD(4)[where ok = ok and view = view, OF _ s(1)] by blast
          then show ?thesis unfolding eq using Some w(2,3) s3 c(3) s1 by simp
        qed
      qed
    qed
  qed
qed


lemma rangeWithLimit_reads:
  assumes ctx: "\<And>i a j. \<not> ctx i a j" and s: "ok (sc_kv st)" "wf_store (view (sc_kv st))"
    and conf: "record_ok (view (sc_kv st)) (CompactKey conf)" "Tombstone conf = tombStoneBytes"
    and ab: "aligned a" "aligned b" "a < b" and limit: "0 < limit"
  shows "\<exists>res st'. rangeWithLimit kv conf ctx a b R limit st = Some (res, st') \<and> ok (sc_kv st')
    \<and> view (sc_kv st') = view (sc_kv st) \<and> sc_hist st' = sc_hist st
    \<and> (\<forall>kvs. res = Inr kvs \<longrightarrow> (\<exists>L. listing (view (sc_kv st)) R (within a b) L \<and> kvs = take (nat limit) L)
         \<and> compactRev (view (sc_kv st)) (CompactKey conf) \<le> R)
    \<and> (serving kv view ok \<longrightarrow> compactRev (view (sc_kv st)) (CompactKey conf) \<le> R \<longrightarrow> (\<exists>kvs. res = Inr kvs))"
proof -
  obtain t s1 where t: "kv_GetTimestampOracle kv (sc_kv st) = (t, s1)" by fastforce
  have s1: "ok s1" "view s1 = view (sc_kv st)" using tso_state[OF s(1) t] by auto
  show ?thesis
  proof (cases t)
    case (Inl err)
    then show ?thesis using t s1 servingD(1)[where ok = ok, OF _ s(1)] by (auto simp: rangeWithLimit_def)
  next
    case ts: (Inr ts)
    have sn: "snap s1 ts = view (sc_kv st)" using tso_snap[OF s(1)] t ts s1 by simp
    obtain e2 s2 where c: "checkCompactRace kv conf R False s1 = Some (e2, s2)" "ok s2" "view s2 = view s1" "snap s2 = snap s1"
        "e2 = None \<Longrightarrow> compactRev (view s1) (CompactKey conf) \<le> R"
        "serving kv view ok \<Longrightarrow> compactRev (view s1) (CompactKey conf) \<le> R \<Longrightarrow> e2 = None"
      using checkCompactRace_reads[OF s1(1), of conf R] conf(1) s1(2) by auto
    show ?thesis
    proof (cases e2)
      case (Some err)
      then show ?thesis using t ts c s1 by (auto simp: rangeWithLimit_def)
    next
      case race: None
      define wc where "wc = \<lparr>wc_partition = \<lparr>Start = a, End = b\<rparr>, wc_tso = ts, wc_revision = R,
                            wc_tombstone = Tombstone conf, wc_compact = False, wc_timeoutRevision = 0\<rparr>"
      let ?w = "\<lparr>w_kv = s2, w_failed = []\<rparr>" let ?m = "view (sc_kv st)" let ?L = "found ?m R a b"
      have fin: "finite (dom ?m)" using finite_view[OF s(1)] .
      have "\<exists>n e r w'. run kv wc (ctx 0 0) (commonResultReceiver [] limit) ?w = Some ((n, e), r, w') \<and> ok (w_kv w')
          \<and> view (w_kv w') = view s2 \<and> (e = None \<longrightarrow> r = flush (feed (commonResultReceiver [] limit) ?L))
          \<and> (steady kv ok \<longrightarrow> e = None)"
        using run_reads[where c = wc and ctx = "ctx 0 0" and w = ?w and m = ?m and recv = "commonResultReceiver [] limit"]
          ctx c(2,4) sn fin s(2) less_imp_le[OF ab(3)] less_nonempty[OF ab(3)] conf(2)
        by (simp add: wc_def reads_only_def) blast
      then obtain n e r w' where r: "run kv wc (ctx 0 0) (commonResultReceiver [] limit) ?w = Some ((n, e), r, w')"
          "ok (w_kv w')" "view (w_kv w') = view s2" "e = None \<Longrightarrow> received r = take (nat limit) ?L"
          "steady kv ok \<Longrightarrow> e = None"
        using limit by (auto simp: feed_limited isLimited_def)
      have eq: "rangeWithLimit kv conf ctx a b R limit st =
          Some (case e of Some err \<Rightarrow> Inl err | None \<Rightarrow> Inr (received r), st\<lparr>sc_kv := w_kv w'\<rparr>)"
        using t ts c(1) race r(1) by (cases e) (simp_all add: rangeWithLimit_def wc_def)
      have "listing ?m R (within a b) ?L" by (rule found_listing[OF fin s(2) ab(1,2)])
      then show ?thesis unfolding eq using r c s1 race servingD(4)[where ok = ok, OF _ s(1)] by (cases e) auto
    qed
  qed
qed

end

section \<open>What the receivers hold\<close>

lemma merge_common:
  assumes "list_all2 (got (commonResultReceiver [] 0)) outs Ls"
  shows "fold (\<lambda>(_, _, r) acc. merge acc (close r)) outs (commonResultReceiver acc 0) = commonResultReceiver (acc @ concat Ls) 0"
  using assms
  by (induction outs Ls arbitrary: acc rule: list_all2_induct)
     (auto simp: got_def feed_unlimited isLimited_def close_def)

lemma merge_empty:
  assumes "list_all2 (got emptyResultReceiver) outs Ls"
  shows "sum_list (map fst outs) = int (length (concat Ls))"
  using assms by (induction outs Ls rule: list_all2_induct) (auto simp: got_def)

text \<open>A message of a stream: the receiver that sent it was forked, it is not empty and not too long.\<close>

definition batch_ok :: "StreamRangeResponse \<Rightarrow> bool" where
  "batch_ok msg \<longleftrightarrow> SHeader msg = 0 \<and> SMore msg \<and> SErr msg = None \<and> 0 < length (SKvs msg) \<and> length (SKvs msg) \<le> rangeStreamBatch"

lemma feed_batches:
  assumes "\<forall>msg \<in> set stream. batch_ok msg" "length batch < rangeStreamBatch"
  shows "\<exists>stream' batch'. feed (streamResultReceiver 0 stream batch) L = streamResultReceiver 0 stream' batch'
    \<and> (\<forall>msg \<in> set stream'. batch_ok msg) \<and> length batch' < rangeStreamBatch"
  using assms
proof (induction L arbitrary: stream batch)
  case (Cons kv L)
  show ?case
  proof (cases "length (batch @ [kv]) \<ge> rangeStreamBatch")
    case True
    let ?s = "stream @ [streamResponse 0 (batch @ [kv])]"
    have "\<forall>msg \<in> set ?s. batch_ok msg" using Cons.prems True by (auto simp: batch_ok_def streamResponse_def)
    then show ?thesis using Cons.IH[of ?s "[]"] True by (simp add: Let_def rangeStreamBatch_def)
  next
    case False
    then show ?thesis using Cons.IH[of stream "batch @ [kv]"] Cons.prems by (simp add: Let_def)
  qed
qed auto

lemma merge_stream:
  assumes "list_all2 (got (streamResultReceiver R0 [] [])) outs Ls" "\<forall>msg \<in> set stream. batch_ok msg"
  shows "\<exists>stream'. fold (\<lambda>(_, _, r) acc. merge acc (close r)) outs (streamResultReceiver R0 stream []) = streamResultReceiver R0 stream' []
    \<and> concat (map SKvs stream') = concat (map SKvs stream) @ concat Ls \<and> (\<forall>msg \<in> set stream'. batch_ok msg)"
  using assms
proof (induction outs Ls arbitrary: stream rule: list_all2_induct)
  case (Cons out outs L Ls)
  obtain n e r where out: "out = (n, e, r)" by (cases out)
  have r: "r = flush (feed (streamResultReceiver 0 [] []) L)" using Cons(1) out by (simp add: got_def)
  obtain s1 b1 where f: "feed (streamResultReceiver 0 [] []) L = streamResultReceiver 0 s1 b1"
      "\<forall>msg \<in> set s1. batch_ok msg" "length b1 < rangeStreamBatch"
    using feed_batches[of "[]" "[]" L] by (auto simp: rangeStreamBatch_def)
  have "received r = L" using received_feed_stream[of 0 "[]" "[]" L] r by simp
  moreover define s2 where "s2 = (if b1 = [] then s1 else s1 @ [streamResponse 0 b1])"
  then have s2: "close r = streamResultReceiver 0 s2 []" "\<forall>msg \<in> set s2. batch_ok msg"
    using f r by (auto simp: close_def streamResponse_def batch_ok_def)
  ultimately have "concat (map SKvs s2) = L" by (metis append_Nil2 close_def received.simps(3) received_flush)
  moreover have "\<forall>msg \<in> set (stream @ s2). batch_ok msg" using Cons.prems s2 by auto
  from Cons.IH[OF this] obtain s3 where "fold (\<lambda>(_, _, r) acc. merge acc (close r)) outs (streamResultReceiver R0 (stream @ s2) []) = streamResultReceiver R0 s3 []"
      "concat (map SKvs s3) = concat (map SKvs (stream @ s2)) @ concat Ls" "\<forall>msg \<in> set s3. batch_ok msg" by blast
  ultimately show ?case using s2 out by (intro exI[of _ s3]) simp
qed auto


lemma absorb_stream:
  "\<exists>R stream batch. fold (\<lambda>(_, _, r) acc. absorb acc r) outs (streamResultReceiver R0 str0 bat0) = streamResultReceiver R stream batch"
proof (induction outs arbitrary: R0 str0 bat0)
  case (Cons out outs)
  obtain n e r where "out = (n, e, r)" by (cases out)
  then show ?case using Cons.IH by (cases r) auto
qed auto

lemma merge_keeps_stream:
  "\<exists>R stream batch. fold (\<lambda>(_, _, r) acc. merge acc (close r)) outs (streamResultReceiver R0 str0 bat0) = streamResultReceiver R stream batch"
proof (induction outs arbitrary: R0 str0 bat0)
  case (Cons out outs)
  obtain n e r where "out = (n, e, r)" by (cases out)
  then show ?case using Cons.IH by (cases "close r") auto
qed auto

lemma scan_stream:
  assumes "scan kv conf ctx a b R c recv st = Some (ne, recv', st')" "recv = streamResultReceiver R0 str0 bat0"
  shows "\<exists>R stream batch. recv' = streamResultReceiver R stream batch"
  using assms absorb_stream[of _ R0 str0 bat0] merge_keeps_stream[of _ R0 str0 bat0]
  by (auto simp: scan_def Let_def split: prod.splits sum.splits option.splits)

lemma getScannerConfig_simps [simp]:
  "CompactKey (getScannerConfig c) = getCompactKey (Prefix c)" "Tombstone (getScannerConfig c) = tombStoneBytes"
  by (simp_all add: getScannerConfig_def)

lemma putScanner_simps [simp]:
  "kvState (putScanner st b) = sc_kv st" "tso (putScanner st b) = tso b" "config (putScanner st b) = config b"
  by (simp_all add: putScanner_def)

lemma scannerOf_simps [simp]: "sc_kv (scannerOf b) = kvState b"
  by (simp add: scannerOf_def)

lemma Enc_zero_mono: "wf_key k \<Longrightarrow> wf_key k' \<Longrightarrow> k < k' \<Longrightarrow> EncodeObjectKey k 0 < EncodeObjectKey k' 0"
  by (simp add: EncodeObjectKey_less_iff)

lemma listing_Enc:
  "listing m R (within (EncodeObjectKey x 0) (EncodeObjectKey y 0)) L \<Longrightarrow> wf_key x \<Longrightarrow> wf_key y \<Longrightarrow>
     listing m R (\<lambda>k. x \<le> k \<and> k < y) L"
  by (erule listing_cong) (simp add: within_Enc)

text \<open>The state of a backend whose range reads do not panic.\<close>

definition readable :: "('s \<Rightarrow> kvmap) \<Rightarrow> 's backend \<Rightarrow> bool" where
  "readable view b \<longleftrightarrow> wf_store (view (kvState b)) \<and> record_ok (view (kvState b)) (getCompactKey (Prefix (config b)))"

context kv_engine_bordered
begin

lemma scanner_Range_reads:
  assumes "\<And>i a j. \<not> ctx i a j" "ok (kvState b)" "readable view b" "wf_key x" "wf_key y" "x < y"
  shows "\<exists>res st'. scanner_Range kv (getScannerConfig (config b)) ctx (EncodeObjectKey x 0) (EncodeObjectKey y 0) R limit (scannerOf b)
        = Some (res, st') \<and> ok (sc_kv st') \<and> view (sc_kv st') = view (kvState b)
    \<and> (\<forall>kvs. res = Inr kvs \<longrightarrow> (\<exists>L. listing (view (kvState b)) R (\<lambda>k. x \<le> k \<and> k < y) L
           \<and> kvs = (if 0 < limit then take (nat limit) L else L))
         \<and> compactRev (view (kvState b)) (getCompactKey (Prefix (config b))) \<le> R)
    \<and> (serving kv view ok \<longrightarrow> compactRev (view (kvState b)) (getCompactKey (Prefix (config b))) \<le> R \<longrightarrow> (\<exists>kvs. res = Inr kvs))"
proof (cases "0 < limit")
  case True
  have "\<exists>res st'. rangeWithLimit kv (getScannerConfig (config b)) ctx (EncodeObjectKey x 0) (EncodeObjectKey y 0) R limit (scannerOf b)
        = Some (res, st') \<and> ok (sc_kv st') \<and> view (sc_kv st') = view (sc_kv (scannerOf b)) \<and> sc_hist st' = sc_hist (scannerOf b)
    \<and> (\<forall>kvs. res = Inr kvs \<longrightarrow> (\<exists>L. listing (view (sc_kv (scannerOf b))) R (within (EncodeObjectKey x 0) (EncodeObjectKey y 0)) L
           \<and> kvs = take (nat limit) L) \<and> compactRev (view (sc_kv (scannerOf b))) (CompactKey (getScannerConfig (config b))) \<le> R)
    \<and> (serving kv view ok \<longrightarrow> compactRev (view (sc_kv (scannerOf b))) (CompactKey (getScannerConfig (config b))) \<le> R \<longrightarrow> (\<exists>kvs. res = Inr kvs))"
    by (rule rangeWithLimit_reads) (use assms True in \<open>auto simp: readable_def aligned_Enc Enc_zero_mono\<close>)
  then show ?thesis using True listing_Enc assms(4,5) by (fastforce simp: scanner_Range_def)
next
  case False
  let ?recv = "commonResultReceiver [] 0"
  have "\<exists>n e recv' st'. scan kv (getScannerConfig (config b)) ctx (EncodeObjectKey x 0) (EncodeObjectKey y 0) R False ?recv (scannerOf b)
        = Some ((n, e), recv', st') \<and> ok (sc_kv st') \<and> view (sc_kv st') = view (sc_kv (scannerOf b)) \<and> sc_hist st' = sc_hist (scannerOf b)
    \<and> (e = None \<longrightarrow> found_all (view (sc_kv (scannerOf b))) R (EncodeObjectKey x 0) (EncodeObjectKey y 0) ?recv n recv'
        \<and> compactRev (view (sc_kv (scannerOf b))) (CompactKey (getScannerConfig (config b))) \<le> R)
    \<and> (serving kv view ok \<longrightarrow> compactRev (view (sc_kv (scannerOf b))) (CompactKey (getScannerConfig (config b))) \<le> R \<longrightarrow> e = None)"
    by (rule scan_reads) (use assms in \<open>auto simp: readable_def aligned_Enc Enc_zero_mono is_stream_def\<close>)
  then obtain n e recv' st' where sc: "scan kv (getScannerConfig (config b)) ctx (EncodeObjectKey x 0) (EncodeObjectKey y 0) R False ?recv (scannerOf b)
        = Some ((n, e), recv', st')" "ok (sc_kv st')" "view (sc_kv st') = view (kvState b)"
      "e = None \<Longrightarrow> found_all (view (kvState b)) R (EncodeObjectKey x 0) (EncodeObjectKey y 0) ?recv n recv'"
      "e = None \<Longrightarrow> compactRev (view (kvState b)) (getCompactKey (Prefix (config b))) \<le> R"
      "serving kv view ok \<Longrightarrow> compactRev (view (kvState b)) (getCompactKey (Prefix (config b))) \<le> R \<Longrightarrow> e = None" by auto
  have "\<exists>L. listing (view (kvState b)) R (\<lambda>k. x \<le> k \<and> k < y) L \<and> received recv' = L" if none: "e = None"
  proof -
    obtain outs Ls where o: "list_all2 (got ?recv) outs Ls"
        "listing (view (kvState b)) R (within (EncodeObjectKey x 0) (EncodeObjectKey y 0)) (concat Ls)"
        "recv' = fold (\<lambda>(_, _, r) acc. merge acc (close r)) outs ?recv"
      using sc(4)[OF none] by (auto simp: found_all_def)
    then show ?thesis using merge_common[OF o(1), of "[]"] listing_Enc[OF o(2) assms(4,5)] by auto
  qed
  then show ?thesis using sc False by (cases e) (auto simp: scanner_Range_def)
qed

end

lemma take_one_more:
  assumes "0 < l" "kvs = take (nat (l + 1)) L"
  shows "int (length kvs) > l \<longleftrightarrow> nat l < length L"
    and "(if int (length kvs) > l then take (nat l) kvs else kvs) = take (nat l) L"
proof -
  have n: "nat (l + 1) = Suc (nat l)" using assms(1) by simp
  show iff: "int (length kvs) > l \<longleftrightarrow> nat l < length L" unfolding assms(2) n using assms(1) by auto
  show "(if int (length kvs) > l then take (nat l) kvs else kvs) = take (nat l) L"
    unfolding iff unfolding assms(2) n by (simp add: min_def)
qed

definition readRevision :: "rev \<Rightarrow> 's backend \<Rightarrow> rev" where
  "readRevision R b = (if R = 0 then GetCurrentRevision b else R)"

lemma ListByStream_eq:
  "ListByStream kv ctx x y R b = map_option (\<lambda>(stream, st). (stream, putScanner st b))
     (RangeStream kv (getScannerConfig (config b)) ctx x y (readRevision R b) (scannerOf b))"
  by (simp add: ListByStream_def readRevision_def GetCurrentRevision_def Let_def)

abbreviation compactedTo :: "('s \<Rightarrow> kvmap) \<Rightarrow> 's backend \<Rightarrow> rev" where
  "compactedTo view b \<equiv> compactRev (view (kvState b)) (getCompactKey (Prefix (config b)))"

context kv_engine_bordered
begin

lemma List_reads:
  assumes s: "ok (kvState b)" "readable view b" and wf: "wf_key (RKey r)" "wf_key (REnd r)" and limit: "RLimit r < 2 ^ 63 - 1"
    and ctx: "\<And>i a j. \<not> ctx i a j" and req: "length (REnd r) \<noteq> 0" "RKey r < REnd r"
  shows "\<exists>res b'. List kv ctx r b = Some (res, b') \<and> ok (kvState b') \<and> view (kvState b') = view (kvState b)
    \<and> (\<forall>resp. res = Inr resp \<longrightarrow> RHeader resp = GetCurrentRevision b
         \<and> (\<exists>L. listing (view (kvState b)) (readRevision (RRevision r) b) (\<lambda>k. RKey r \<le> k \<and> k < REnd r) L
              \<and> RKvs resp = (if 0 < RLimit r then take (nat (RLimit r)) L else L)
              \<and> (RMore resp \<longleftrightarrow> 0 < RLimit r \<and> nat (RLimit r) < length L))
         \<and> compactedTo view b \<le> readRevision (RRevision r) b)
    \<and> (serving kv view ok \<longrightarrow> compactedTo view b \<le> readRevision (RRevision r) b \<longrightarrow> (\<exists>resp. res = Inr resp))"
proof -
  define limit where "limit = (if RLimit r > 0 then RLimit r + 1 else RLimit r)"
  define R where "R = readRevision (RRevision r) b"
  obtain res st' where sr: "scanner_Range kv (getScannerConfig (config b)) ctx (EncodeObjectKey (RKey r) 0) (EncodeObjectKey (REnd r) 0)
          R limit (scannerOf b) = Some (res, st')" "ok (sc_kv st')" "view (sc_kv st') = view (kvState b)"
      "\<And>kvs. res = Inr kvs \<Longrightarrow> (\<exists>L. listing (view (kvState b)) R (\<lambda>k. RKey r \<le> k \<and> k < REnd r) L
           \<and> kvs = (if 0 < limit then take (nat limit) L else L)) \<and> compactedTo view b \<le> R"
      "serving kv view ok \<Longrightarrow> compactedTo view b \<le> R \<Longrightarrow> \<exists>kvs. res = Inr kvs"
    using scanner_Range_reads[where ctx = ctx and R = R and limit = limit, OF ctx s wf req(2)] by blast
  have eq: "List kv ctx r b = Some (case res of Inl err \<Rightarrow> Inl err | Inr kvs \<Rightarrow>
      (let more = (limit > 0 \<and> int (length kvs) > RLimit r)
       in Inr \<lparr>RHeader = GetCurrentRevision b, RKvs = (if more then take (nat (RLimit r)) kvs else kvs), RMore = more\<rparr>), putScanner st' b)"
    using req sr(1) assms(5)
    by (cases res) (auto simp: List_def Let_def limit_def int64_inc_def R_def readRevision_def GetCurrentRevision_def)
  have "\<exists>L. listing (view (kvState b)) R (\<lambda>k. RKey r \<le> k \<and> k < REnd r) L
              \<and> (if limit > 0 \<and> int (length kvs) > RLimit r then take (nat (RLimit r)) kvs else kvs) = (if 0 < RLimit r then take (nat (RLimit r)) L else L)
              \<and> ((limit > 0 \<and> int (length kvs) > RLimit r) \<longleftrightarrow> 0 < RLimit r \<and> nat (RLimit r) < length L)"
    if kvs: "res = Inr kvs" for kvs
  proof (cases "0 < RLimit r")
    case True
    obtain L where "listing (view (kvState b)) R (\<lambda>k. RKey r \<le> k \<and> k < REnd r) L" "kvs = take (nat (RLimit r + 1)) L"
      using sr(4)[OF kvs] True by (auto simp: limit_def)
    then show ?thesis using take_one_more[OF True, of kvs L] True by (auto simp: limit_def)
  next
    case False
    then show ?thesis using sr(4)[OF kvs] by (simp add: limit_def)
  qed
  then show ?thesis unfolding eq using sr(2-5) by (cases res) (auto simp: Let_def R_def[symmetric])
qed

lemma Count_reads:
  assumes s: "ok (kvState b)" "readable view b" and wf: "wf_key x" "wf_key y" "x < y"
    and ctx: "\<And>i a j. \<not> ctx i a j" and en: "EnableEtcdCompatibility (config b)"
  shows "\<exists>res b'. Count kv ctx x y b = Some (res, b') \<and> ok (kvState b') \<and> view (kvState b') = view (kvState b)
    \<and> (\<forall>resp. res = Inr resp \<longrightarrow> CntHeader resp = GetCurrentRevision b
         \<and> (\<exists>L. listing (view (kvState b)) (GetCurrentRevision b) (\<lambda>k. x \<le> k \<and> k < y) L \<and> CntCount resp = of_nat (length L)))"
proof -
  let ?R = "GetCurrentRevision b" and ?a = "EncodeObjectKey x 0" and ?b = "EncodeObjectKey y 0"
  have "\<exists>n e recv' st'. scan kv (getScannerConfig (config b)) ctx ?a ?b ?R False emptyResultReceiver (scannerOf b)
        = Some ((n, e), recv', st') \<and> ok (sc_kv st') \<and> view (sc_kv st') = view (sc_kv (scannerOf b)) \<and> sc_hist st' = sc_hist (scannerOf b)
    \<and> (e = None \<longrightarrow> found_all (view (sc_kv (scannerOf b))) ?R ?a ?b emptyResultReceiver n recv'
        \<and> compactRev (view (sc_kv (scannerOf b))) (CompactKey (getScannerConfig (config b))) \<le> ?R)
    \<and> (serving kv view ok \<longrightarrow> compactRev (view (sc_kv (scannerOf b))) (CompactKey (getScannerConfig (config b))) \<le> ?R \<longrightarrow> e = None)"
    by (rule scan_reads) (use assms in \<open>auto simp: readable_def aligned_Enc Enc_zero_mono is_stream_def\<close>)
  then obtain n e recv' st' where sc: "scan kv (getScannerConfig (config b)) ctx ?a ?b ?R False emptyResultReceiver (scannerOf b)
        = Some ((n, e), recv', st')" "ok (sc_kv st')" "view (sc_kv st') = view (kvState b)"
      "e = None \<Longrightarrow> found_all (view (kvState b)) ?R ?a ?b emptyResultReceiver n recv'" by auto
  have "\<exists>L. listing (view (kvState b)) ?R (\<lambda>k. x \<le> k \<and> k < y) L \<and> n = int (length L)" if none: "e = None"
  proof -
    obtain outs Ls where o: "list_all2 (got emptyResultReceiver) outs Ls" "listing (view (kvState b)) ?R (within ?a ?b) (concat Ls)"
        "n = sum_list (map fst outs)"
      using sc(4)[OF none] by (auto simp: found_all_def)
    show ?thesis using merge_empty[OF o(1)] listing_Enc[OF o(2) wf(1,2)] o(3) by auto
  qed
  then show ?thesis using sc(1-3) en by (cases e) (auto simp: Count_def scanner_Count_def Let_def GetCurrentRevision_def)
qed

lemma ListByStream_reads:
  assumes s: "ok (kvState b)" "readable view b" "steady kv ok" and ab: "aligned x" "aligned y" "x < y"
    and ctx: "\<And>i a j. \<not> ctx i a j"
  shows "\<exists>stream b'. ListByStream kv ctx x y R b = Some (stream, b') \<and> ok (kvState b') \<and> view (kvState b') = view (kvState b)
    \<and> stream \<noteq> [] \<and> \<not> SMore (last stream)
    \<and> (SErr (last stream) = None \<longrightarrow> (\<forall>msg \<in> set (butlast stream). batch_ok msg)
         \<and> listing (view (kvState b)) (readRevision R b) (within x y) (concat (map SKvs stream)))"
proof -
  define R' where "R' = readRevision R b"
  let ?recv = "newStreamReceiver R'" and ?st = "scannerOf b" and ?conf = "getScannerConfig (config b)"
  have "\<exists>n e recv' st'. scan kv ?conf ctx x y R' False ?recv ?st
        = Some ((n, e), recv', st') \<and> ok (sc_kv st') \<and> view (sc_kv st') = view (sc_kv ?st) \<and> sc_hist st' = sc_hist ?st
    \<and> (e = None \<longrightarrow> found_all (view (sc_kv ?st)) R' x y ?recv n recv' \<and> compactRev (view (sc_kv ?st)) (CompactKey ?conf) \<le> R')
    \<and> (serving kv view ok \<longrightarrow> compactRev (view (sc_kv ?st)) (CompactKey ?conf) \<le> R' \<longrightarrow> e = None)"
    by (rule scan_reads) (use assms in \<open>auto simp: readable_def\<close>)
  then obtain n e recv' st' where sc: "scan kv ?conf ctx x y R' False ?recv ?st
        = Some ((n, e), recv', st')" "ok (sc_kv st')" "view (sc_kv st') = view (kvState b)"
      "e = None \<Longrightarrow> found_all (view (kvState b)) R' x y ?recv n recv'" by auto
  obtain R0 stream batch where recv': "recv' = streamResultReceiver R0 stream batch"
    using scan_stream[OF sc(1)] by (auto simp: newStreamReceiver_def)
  have "(\<forall>msg \<in> set stream. batch_ok msg) \<and> listing (view (kvState b)) R' (within x y) (concat (map SKvs stream))" if none: "e = None"
  proof -
    obtain outs Ls where o: "list_all2 (got ?recv) outs Ls" "listing (view (kvState b)) R' (within x y) (concat Ls)"
        "recv' = fold (\<lambda>(_, _, r) acc. merge acc (close r)) outs ?recv"
      using sc(4)[OF none] by (auto simp: found_all_def)
    obtain stream' where "fold (\<lambda>(_, _, r) acc. merge acc (close r)) outs ?recv = streamResultReceiver R' stream' []"
        "concat (map SKvs stream') = concat Ls" "\<forall>msg \<in> set stream'. batch_ok msg"
      using merge_stream[of R' outs Ls "[]"] o(1) by (auto simp: newStreamReceiver_def)
    then show ?thesis using o(2,3) recv' by simp
  qed
  moreover have "ListByStream kv ctx x y R b = Some (stream @ [getListStreamEnd R' e], putScanner st' b)"
    unfolding ListByStream_eq R'_def[symmetric] using sc(1) recv' by (simp add: RangeStream_def)
  ultimately show ?thesis using sc(2,3)
    by (intro exI[of _ "stream @ [getListStreamEnd R' e]"] exI[of _ "putScanner st' b"]) (simp add: getListStreamEnd_def R'_def)
qed

end

section \<open>Properties\<close>

sublocale skiplist_spec \<subseteq> memb: kv_engine_bordered "memkv skl" "\<lambda>s. cont (sklist s)"
  "\<lambda>s ts. cont (sklist s)" "\<lambda>s. True"
  by unfold_locales (auto simp: memkv_def)

lemma serving_memkv: "serving (memkv alist_skl) mem_view (\<lambda>s. True)"
proof -
  have "steady (memkv alist_skl) (\<lambda>s. True)" unfolding steady_def using alist.mem.iter_answers by blast
  moreover have "\<exists>s'. kv_Get (memkv alist_skl) s k =
      (case mem_view s k of None \<Rightarrow> (Inl ErrKeyNotFound, s') | Some v \<Rightarrow> (Inr v, s'))" for s k
    using alist.mem.get_answers by blast
  ultimately show ?thesis by (simp add: serving_def memkv_def)
qed

text \<open>
  C8: \<^verbatim>\<open>List\<close> never panics and changes nothing that can be read. When it answers, the answer holds exactly the
  user keys of \<open>[Key, End)\<close> visible at the requested revision (the committed one for \<open>0\<close>), in order, each with
  its visible value and revision - whatever the partitions of the store, and whichever attempts on a
  partition failed. With a limit it is a prefix of that list, and \<^verbatim>\<open>More\<close> tells whether keys are missing.
\<close>

theorem List_returns_visible:
  assumes "kv_engine_bordered kv view snap ok" "ok (kvState b)" "readable view b"
    and "wf_key (RKey r)" "wf_key (REnd r)" "RLimit r < 2 ^ 63 - 1" "\<And>i a j. \<not> ctx i a j"
  shows "\<exists>res b'. List kv ctx r b = Some (res, b') \<and> ok (kvState b') \<and> view (kvState b') = view (kvState b)
    \<and> (\<forall>resp. res = Inr resp \<longrightarrow> RHeader resp = GetCurrentRevision b
         \<and> (\<exists>L. listing (view (kvState b)) (readRevision (RRevision r) b) (\<lambda>k. RKey r \<le> k \<and> k < REnd r) L
              \<and> RKvs resp = (if 0 < RLimit r then take (nat (RLimit r)) L else L)
              \<and> (RMore resp \<longleftrightarrow> 0 < RLimit r \<and> nat (RLimit r) < length L)))"
proof (cases "length (REnd r) = 0 \<or> RKey r \<ge> REnd r")
  case True
  then show ?thesis using assms(2) by (auto simp: List_def)
next
  case False
  then have "length (REnd r) \<noteq> 0" "RKey r < REnd r" by auto
  from kv_engine_bordered.List_reads[where ctx = ctx, OF assms this] show ?thesis by blast
qed

text \<open>
  C25: on an engine whose reads answer, a well-formed \<^verbatim>\<open>List\<close> is refused exactly when the requested revision is older than
  the compaction record: a reader never gets an answer from a revision that may have been compacted,
  and always one from a newer revision.
\<close>

theorem List_refused_iff_compacted:
  assumes "kv_engine_bordered kv view snap ok" "serving kv view ok" "ok (kvState b)" "readable view b"
    and "wf_key (RKey r)" "wf_key (REnd r)" "RLimit r < 2 ^ 63 - 1" "\<And>i a j. \<not> ctx i a j"
    and "REnd r \<noteq> []" "RKey r < REnd r"
  shows "\<exists>res b'. List kv ctx r b = Some (res, b')
    \<and> ((\<exists>err. res = Inl err) \<longleftrightarrow> readRevision (RRevision r) b < compactedTo view b)"
proof -
  have "length (REnd r) \<noteq> 0" using assms(9) by simp
  from kv_engine_bordered.List_reads[where ctx = ctx, OF assms(1,3-8) this assms(10)] assms(2)
  obtain res b' where "List kv ctx r b = Some (res, b')"
      "\<forall>resp. res = Inr resp \<longrightarrow> compactedTo view b \<le> readRevision (RRevision r) b"
      "compactedTo view b \<le> readRevision (RRevision r) b \<longrightarrow> (\<exists>resp. res = Inr resp)"
    by blast
  then show ?thesis by (cases res) (auto simp: not_le)
qed

text \<open>
  \<^verbatim>\<open>Count\<close> (with etcd compatibility on) never panics, changes nothing that can be read, and answers the
  number of user keys of the range that are visible at the committed revision.
\<close>

lemma Count_counts_visible:
  assumes "kv_engine_bordered kv view snap ok" "ok (kvState b)" "readable view b" "wf_key x" "wf_key y" "x < y"
    and "\<And>i a j. \<not> ctx i a j" "EnableEtcdCompatibility (config b)"
  shows "\<exists>res b'. Count kv ctx x y b = Some (res, b') \<and> ok (kvState b') \<and> view (kvState b') = view (kvState b)
    \<and> (\<forall>resp. res = Inr resp \<longrightarrow> CntHeader resp = GetCurrentRevision b
         \<and> (\<exists>L. listing (view (kvState b)) (GetCurrentRevision b) (\<lambda>k. x \<le> k \<and> k < y) L \<and> CntCount resp = of_nat (length L)))"
  by (rule kv_engine_bordered.Count_reads[OF assms])

lemma listing_batches:
  assumes "listing m R P (concat (map SKvs stream))" "msg \<in> set stream"
  shows "sorted_wrt (<) (map Key (SKvs msg))"
  using assms sorted_wrt_concat[of "\<lambda>a b. Key a < Key b" "map SKvs stream" "SKvs msg"]
  by (auto simp: listing_def sorted_wrt_map)

text \<open>
  C26: a stream of \<^verbatim>\<open>ListByStream\<close> over borders that do not split a user key ends with one message without
  \<^verbatim>\<open>More\<close>. If that carries no error (and the engine's iterators do not fail), the messages before it are batches of one
  to three hundred pairs in the order of their keys, together exactly the visible keys of the range, each
  once (in which order the batches of different partitions come is not promised: their workers run concurrently).
  Every batch has revision \<open>0\<close> in its header, not the read revision.
\<close>

theorem ListByStream_sends_visible:
  assumes "kv_engine_bordered kv view snap ok" "ok (kvState b)" "readable view b" "steady kv ok"
    and "aligned x" "aligned y" "x < y" "\<And>i a j. \<not> ctx i a j"
  shows "\<exists>stream b'. ListByStream kv ctx x y R b = Some (stream, b') \<and> ok (kvState b') \<and> view (kvState b') = view (kvState b)
    \<and> stream \<noteq> [] \<and> \<not> SMore (last stream)
    \<and> (SErr (last stream) = None \<longrightarrow>
         (\<forall>msg \<in> set (butlast stream). batch_ok msg \<and> sorted_wrt (<) (map Key (SKvs msg)))
         \<and> (\<exists>L. listing (view (kvState b)) (readRevision R b) (within x y) L \<and> mset (concat (map SKvs stream)) = mset L))"
proof -
  obtain stream b' where "ListByStream kv ctx x y R b = Some (stream, b')" "ok (kvState b')" "view (kvState b') = view (kvState b)"
      "stream \<noteq> []" "\<not> SMore (last stream)"
      "SErr (last stream) = None \<longrightarrow> (\<forall>msg \<in> set (butlast stream). batch_ok msg)
         \<and> listing (view (kvState b)) (readRevision R b) (within x y) (concat (map SKvs stream))"
    using kv_engine_bordered.ListByStream_reads[where ctx = ctx and R = R, OF assms] by (elim exE conjE) (rule that)
  then show ?thesis by (intro exI[of _ stream] exI[of _ b']) (auto dest: in_set_butlastD listing_batches)
qed

section \<open>Sample runs\<close>

text \<open>A range that holds the sample key.\<close>

definition sample_range :: RangeRequest where
  "sample_range = \<lparr>RKey = bytes_of_string ''/'', REnd = bytes_of_string ''0'', RRevision = 7, RLimit = 5\<rparr>"

lemma sample_range_wf:
  "wf_key (RKey sample_range)" "wf_key (REnd sample_range)" "RKey sample_range < REnd sample_range" "REnd sample_range \<noteq> []"
  "RLimit sample_range < 2 ^ 63 - 1" "RLimit sample_range = 5" "RRevision sample_range = 7"
  "RKey sample_range \<le> sample_key" "sample_key < REnd sample_range"
  by (simp_all add: sample_range_def wf_key_def bytes_of_string_def splitByte_def sample_key_def)

lemma config_sample_backend:
  "Prefix (config sample_backend) = bytes_of_string ''/registry''" "EnableEtcdCompatibility (config sample_backend)"
  by (simp_all add: sample_backend_def NewBackend_def SetCurrentRevision_def Let_def complete_def sample_config_def)

lemma GetCurrentRevision_sample_backend: "GetCurrentRevision sample_backend = 5"
  by (simp add: sample_backend_def NewBackend_def SetCurrentRevision_def Let_def GetCurrentRevision_def Commit_def
      GetRevision_def NewTSO_def)

lemma sample_no_record: "mem_view sample_store (getCompactKey (bytes_of_string ''/registry'')) = None"
  by (simp add: sample_store_def getCompactKey_def bytes_of_string_def EncodeRevisionKey_def EncodeObjectKey_def magicBytes_def)

lemma readable_sample_backend: "readable mem_view sample_backend"
  by (simp add: readable_def wf_store_sample_store config_sample_backend record_ok_def sample_no_record)

lemma listing_sample:
  assumes "listing (mem_view sample_store) R P L" "5 \<le> R" "P sample_key"
  shows "L = [\<lparr>Key = sample_key, Value = [1, 2], Revision = 5\<rparr>]"
proof -
  have "listing (mem_view sample_store) R P [\<lparr>Key = sample_key, Value = [1, 2], Revision = 5\<rparr>]"
    using assms(2,3) wf_sample_key by (auto simp: listing_def visible_sample_store split: if_splits)
  then show ?thesis using listing_unique[OF assms(1)] by blast
qed

theorem List_returns_visible_witness:
  "\<exists>res b'. List (memkv alist_skl) (\<lambda>i a j. False) sample_range sample_backend = Some (res, b')
     \<and> (\<forall>resp. res = Inr resp \<longrightarrow> RKvs resp = [\<lparr>Key = sample_key, Value = [1, 2], Revision = 5\<rparr>] \<and> \<not> RMore resp)"
proof -
  obtain res b' where "List (memkv alist_skl) (\<lambda>i a j. False) sample_range sample_backend = Some (res, b')"
    "\<And>resp. res = Inr resp \<Longrightarrow> \<exists>L. listing (mem_view sample_store) 7 (\<lambda>k. RKey sample_range \<le> k \<and> k < REnd sample_range) L
        \<and> RKvs resp = take 5 L \<and> (RMore resp \<longleftrightarrow> 5 < length L)"
    using List_returns_visible[where ctx = "\<lambda>i a j. False" and b = sample_backend, OF alist.memb.kv_engine_bordered_axioms _ _ sample_range_wf(1,2,5)]
      readable_sample_backend by (auto simp: sample_range_wf readRevision_def)
  then show ?thesis using listing_sample[of 7 "\<lambda>k. RKey sample_range \<le> k \<and> k < REnd sample_range"] sample_range_wf by fastforce
qed

theorem List_refused_iff_compacted_witness:
  "\<exists>resp b'. List (memkv alist_skl) (\<lambda>i a j. False) sample_range sample_backend = Some (Inr resp, b')"
proof -
  obtain res b' where r: "List (memkv alist_skl) (\<lambda>i a j. False) sample_range sample_backend = Some (res, b')"
    "(\<exists>err. res = Inl err) \<longleftrightarrow> readRevision (RRevision sample_range) sample_backend < compactedTo mem_view sample_backend"
    using List_refused_iff_compacted[where ctx = "\<lambda>i a j. False" and b = sample_backend,
        OF alist.memb.kv_engine_bordered_axioms serving_memkv _ _ sample_range_wf(1,2,5) _ sample_range_wf(4,3)]
      readable_sample_backend by auto
  have "compactedTo mem_view sample_backend = 0" by (simp add: compactRev_def config_sample_backend sample_no_record)
  then show ?thesis using r by (cases res) auto
qed

theorem ListByStream_sends_visible_witness:
  "\<exists>stream b'. ListByStream (memkv alist_skl) (\<lambda>i a j. False) (EncodeObjectKey (RKey sample_range) 0)
       (EncodeObjectKey (REnd sample_range) 0) 7 sample_backend = Some (stream, b')
     \<and> (SErr (last stream) = None \<longrightarrow> concat (map SKvs stream) = [\<lparr>Key = sample_key, Value = [1, 2], Revision = 5\<rparr>])"
proof -
  let ?x = "EncodeObjectKey (RKey sample_range) 0" and ?y = "EncodeObjectKey (REnd sample_range) 0"
  have al: "aligned ?x" "aligned ?y" "?x < ?y" "within ?x ?y sample_key"
    using sample_range_wf wf_sample_key by (simp_all add: aligned_Enc Enc_zero_mono within_Enc)
  obtain stream b' where "ListByStream (memkv alist_skl) (\<lambda>i a j. False) ?x ?y 7 sample_backend = Some (stream, b')"
    "SErr (last stream) = None \<Longrightarrow> \<exists>L. listing (mem_view sample_store) 7 (within ?x ?y) L \<and> mset (concat (map SKvs stream)) = mset L"
    using ListByStream_sends_visible[where ctx = "\<lambda>i a j. False" and b = sample_backend and R = 7,
        OF alist.memb.kv_engine_bordered_axioms _ _ servingD(4)[OF serving_memkv TrueI] al(1-3)]
      readable_sample_backend by (auto simp: readRevision_def)
  then show ?thesis using listing_sample[of 7 "within ?x ?y"] al(4) by fastforce
qed

end
