(* ===== verification/Compaction.thy ===== *)
theory Compaction
  imports Listing
begin

text \<open>
  Compaction is safe: whatever a compaction at revision \<open>R\<close> deletes, whichever of its deletions fail and wherever it
  is interrupted, no read at \<open>R\<close> or later sees a difference. The argument follows one user key through the
  loop of \<^verbatim>\<open>worker.run\<close>: a version is deleted when a newer one below \<open>R\<close> was seen, and a tombstone only once nothing
  older is left.
\<close>

section \<open>What compaction keeps of a user key\<close>

definition kept :: "rev \<Rightarrow> bytes \<Rightarrow> kvmap \<Rightarrow> kvmap \<Rightarrow> bool" where
  "kept R k n m \<longleftrightarrow>
     (\<forall>r. m (EncodeObjectKey k r) = None \<or> m (EncodeObjectKey k r) = n (EncodeObjectKey k r))
   \<and> (\<forall>r > R. m (EncodeObjectKey k r) = n (EncodeObjectKey k r))
   \<and> (\<forall>t. latest n k R = Some t \<longrightarrow> m (EncodeObjectKey k t) = n (EncodeObjectKey k t)
         \<or> (n (EncodeObjectKey k t) = Some tombStoneBytes \<and> (\<forall>r. 0 < r \<and> r \<le> R \<longrightarrow> m (EncodeObjectKey k r) = None)))
   \<and> (m (EncodeObjectKey k 0) = n (EncodeObjectKey k 0) \<or> (\<exists>v. n (EncodeObjectKey k 0) = Some v \<and> length v = 9))"

lemma kept_refl [simp]: "kept R k n n"
  by (simp add: kept_def)

lemma kept_cong:
  assumes "\<And>r. m' (EncodeObjectKey k r) = m (EncodeObjectKey k r)"
  shows "kept R k n m' = kept R k n m"
  by (simp add: kept_def assms)

lemma latest_mono: "latest n k R = Some t \<Longrightarrow> 0 < r \<Longrightarrow> r \<le> R \<Longrightarrow> n (EncodeObjectKey k r) \<noteq> None \<Longrightarrow> r \<le> t"
  by (metis latest_Some_iff linorder_not_less)

lemma latest_exists: "0 < r \<Longrightarrow> r \<le> R \<Longrightarrow> n (EncodeObjectKey k r) \<noteq> None \<Longrightarrow> \<exists>t. latest n k R = Some t"
  by (metis latest_None_iff option.exhaust)

lemma kept_del_old:
  assumes "kept R k n m" "0 < p" "p < r" "r \<le> R" "n (EncodeObjectKey k r) \<noteq> None"
  shows "kept R k n (m(EncodeObjectKey k p := None))"
proof -
  have "0 < r" using assms(2,3) by (rule less_trans)
  have "p \<noteq> t" if "latest n k R = Some t" for t using latest_mono[OF that \<open>0 < r\<close> assms(4,5)] assms(3) by auto
  moreover have "p \<noteq> 0" "\<not> p > R" using assms by auto
  ultimately show ?thesis using assms(1) unfolding kept_def fun_upd_apply by (simp add: word_gt_0) metis
qed

lemma kept_del_tombstone:
  assumes "kept R k n m" "0 < r" "r \<le> R" "n (EncodeObjectKey k r) = Some tombStoneBytes"
    and "\<And>q. 0 < q \<Longrightarrow> q < r \<Longrightarrow> m (EncodeObjectKey k q) = None"
  shows "kept R k n (m(EncodeObjectKey k r := None))"
proof -
  obtain t where t: "latest n k R = Some t" using latest_exists[OF assms(2,3)] assms(4) by blast
  have le: "r \<le> t" using latest_mono[OF t assms(2,3)] assms(4) by simp
  show ?thesis
  proof (cases "r = t")
    case False
    then have "r < t" "t \<le> R" "n (EncodeObjectKey k t) \<noteq> None" using le t by (auto simp: latest_Some_iff)
    then show ?thesis using kept_del_old[OF assms(1,2)] by blast
  next
    case True
    let ?m = "m(EncodeObjectKey k r := None)"
    have none: "?m (EncodeObjectKey k q) = None" if q: "0 < q" "q \<le> R" for q
    proof (cases "q \<le> t")
      case True
      then show ?thesis using assms(5)[OF q(1)] \<open>r = t\<close> by (auto simp: order_le_less)
    next
      case False
      then have "n (EncodeObjectKey k q) = None" using t q(2) by (auto simp: latest_Some_iff)
      then show ?thesis using assms(1) by (auto simp: kept_def)
    qed
    have "r \<noteq> 0" "\<not> r > R" using assms(2,3) by auto
    then show ?thesis using assms(1,4) none t True unfolding kept_def by auto
  qed
qed

lemma kept_del_index:
  assumes "kept R k n m" "n (EncodeObjectKey k 0) = Some v" "length v = 9"
  shows "kept R k n (m(EncodeObjectKey k 0 := None))"
proof -
  have "t \<noteq> 0" if "latest n k R = Some t" for t using that by (auto simp: latest_Some_iff)
  then show ?thesis using assms unfolding kept_def by auto
qed

lemma kept_latest_above:
  assumes "kept R k n m" "R \<le> R'" "latest n k R' = Some t" "R < t"
  shows "latest m k R' = Some t \<and> m (EncodeObjectKey k t) = n (EncodeObjectKey k t)"
  using assms unfolding latest_Some_iff kept_def by (metis order_less_trans)

lemma kept_visible:
  assumes "kept R k n m" "R \<le> R'"
  shows "visible m k R' = visible n k R'"
proof (cases "latest n k R'")
  case None
  then have "latest m k R' = None" using assms(1) unfolding latest_None_iff kept_def by metis
  then show ?thesis using None by (simp add: visible_def)
next
  case (Some t)
  show ?thesis
  proof (cases "R < t")
    case True
    then show ?thesis using kept_latest_above[OF assms Some] Some by (simp add: visible_def)
  next
    case False
    then have "latest n k R = Some t" using Some assms(2) by (auto simp: latest_Some_iff)
    then consider "m (EncodeObjectKey k t) = n (EncodeObjectKey k t)"
      | "n (EncodeObjectKey k t) = Some tombStoneBytes" "\<And>r. 0 < r \<Longrightarrow> r \<le> R \<Longrightarrow> m (EncodeObjectKey k r) = None"
      using assms(1) unfolding kept_def by blast
    then show ?thesis
    proof cases
      case 1
      have "latest m k R' = Some t"
        using Some 1 assms(1) unfolding latest_Some_iff kept_def by metis
      then show ?thesis using Some 1 by (simp add: visible_def)
    next
      case 2
      have "m (EncodeObjectKey k r) = None" if "0 < r" "r \<le> R'" for r
      proof (cases "r \<le> R")
        case False
        then have "n (EncodeObjectKey k r) = None" using Some that \<open>\<not> R < t\<close> by (auto simp: latest_Some_iff)
        then show ?thesis using assms(1) unfolding kept_def by metis
      qed (use 2 that in auto)
      then have "latest m k R' = None" by (simp add: latest_None_iff)
      then show ?thesis using Some 2 by (simp add: visible_def)
    qed
  qed
qed

lemma kept_index_ok:
  assumes "kept R k n m" "index_ok n k"
  shows "index_ok m k"
proof -
  have vis: "visible m k MaxUint64 = visible n k MaxUint64" by (rule kept_visible[OF assms(1)]) simp
  have names: "index_names n k r d \<Longrightarrow> index_names m k r d" for r d
    using assms(1) vis unfolding index_names_def kept_def by metis
  show ?thesis
  proof (cases "m (EncodeRevisionKey k) = n (EncodeRevisionKey k)")
    case True
    then show ?thesis using assms(2) vis names unfolding index_ok_def by (auto split: option.splits)
  next
    case False
    then obtain v where v: "n (EncodeRevisionKey k) = Some v" "length v = 9" "m (EncodeRevisionKey k) = None"
      using assms(1) unfolding kept_def EncodeRevisionKey_def by metis
    then obtain r d where rd: "v = index_val r d" "index_names n k r d" using assms(2) by (auto simp: index_ok_def)
    then have d using v(2) by (cases d) (auto simp: index_val_def)
    then have "visible n k MaxUint64 = None" using rd(2) by (simp add: index_names_def)
    then show ?thesis using v(3) vis by (simp add: index_ok_def)
  qed
qed


section \<open>The deletions of a worker\<close>

text \<open>
  \<open>n\<close> is the content when the compaction began: since then keys were only deleted, and the snapshot the worker iterates
  over shows each key as it was or as it is now.
\<close>

definition comp_state :: "('s \<Rightarrow> kvmap) \<Rightarrow> ('s \<Rightarrow> rev \<Rightarrow> kvmap) \<Rightarrow> ('s \<Rightarrow> bool) \<Rightarrow> rev \<Rightarrow> kvmap \<Rightarrow> 's \<Rightarrow> bool" where
  "comp_state view snap ok ts n s \<longleftrightarrow> ok s \<and> wf_store (view s) \<and> wf_store (snap s ts) \<and> finite (dom (snap s ts))
     \<and> (\<forall>k r. view s (EncodeObjectKey k r) = None \<or> view s (EncodeObjectKey k r) = n (EncodeObjectKey k r))
     \<and> (\<forall>k r. snap s ts (EncodeObjectKey k r) = None \<or> snap s ts (EncodeObjectKey k r) = n (EncodeObjectKey k r))
     \<and> (\<forall>k r. view s (EncodeObjectKey k r) \<noteq> None \<longrightarrow> snap s ts (EncodeObjectKey k r) = view s (EncodeObjectKey k r))
     \<and> (\<forall>x. (\<forall>k r. x \<noteq> EncodeObjectKey k r) \<longrightarrow> view s x = n x)"

lemma wf_store_from:
  "wf_store m \<Longrightarrow> wf_store m' \<Longrightarrow> (\<And>x. m'' x = None \<or> m'' x = m x \<or> m'' x = m' x) \<Longrightarrow> wf_store m''"
  unfolding wf_store_def by metis

lemma comp_state_del:
  assumes cs: "comp_state view snap ok ts n s" and ok: "ok s'" "finite (dom (view s'))"
    and v: "view s' = view s \<or> view s' = (view s)(EncodeObjectKey k0 r0 := None)"
    and sn: "\<And>y. snap s' ts y = snap s ts y \<or> snap s' ts y = view s' y"
  shows "comp_state view snap ok ts n s'"
proof -
  have le: "view s' y = None \<or> view s' y = view s y" for y using v by auto
  have C: "finite (dom (snap s ts))" "view s (EncodeObjectKey k r) = None \<or> view s (EncodeObjectKey k r) = n (EncodeObjectKey k r)"
     "snap s ts (EncodeObjectKey k r) = None \<or> snap s ts (EncodeObjectKey k r) = n (EncodeObjectKey k r)"
     "view s (EncodeObjectKey k r) \<noteq> None \<longrightarrow> snap s ts (EncodeObjectKey k r) = view s (EncodeObjectKey k r)"
     "(\<forall>k r. x \<noteq> EncodeObjectKey k r) \<longrightarrow> view s x = n x" for k r x
    using cs unfolding comp_state_def by blast+
  have other: "(\<forall>k r. y \<noteq> EncodeObjectKey k r) \<Longrightarrow> view s' y = view s y" for y using v by auto
  have wv: "wf_store (view s')" by (rule wf_store_from[of "view s" "view s"]) (use cs le in \<open>auto simp: comp_state_def\<close>)
  have ws: "wf_store (snap s' ts)"
    by (rule wf_store_from[of "snap s ts" "view s'"]) (use cs wv sn in \<open>auto simp: comp_state_def\<close>)
  have "dom (snap s' ts) \<subseteq> dom (snap s ts) \<union> dom (view s')" 
  proof
    fix y assume "y \<in> dom (snap s' ts)"
    then show "y \<in> dom (snap s ts) \<union> dom (view s')" using sn[of y] by (cases "snap s' ts y = view s' y") (auto simp: domIff)
  qed
  then have fin: "finite (dom (snap s' ts))" by (rule finite_subset) (use ok(2) C(1) in simp)
  show ?thesis unfolding comp_state_def
  proof (intro conjI ok(1) wv ws fin allI impI)
    fix k r
    show "view s' (EncodeObjectKey k r) = None \<or> view s' (EncodeObjectKey k r) = n (EncodeObjectKey k r)"
      "snap s' ts (EncodeObjectKey k r) = None \<or> snap s' ts (EncodeObjectKey k r) = n (EncodeObjectKey k r)"
      using C(2,3)[of k r] le[of "EncodeObjectKey k r"] sn[of "EncodeObjectKey k r"] by auto
    show "snap s' ts (EncodeObjectKey k r) = view s' (EncodeObjectKey k r)" if "view s' (EncodeObjectKey k r) \<noteq> None"
      using that C(4)[of k r] le[of "EncodeObjectKey k r"] sn[of "EncodeObjectKey k r"] by auto
  next
    fix y assume "\<forall>k r. y \<noteq> EncodeObjectKey k r"
    then show "view s' y = n y" using C(5)[of y] other[of y] by simp
  qed
qed

text \<open>What a step that deletes keys of the user key \<open>k\<close> does.\<close>

definition touch :: "('s \<Rightarrow> kvmap) \<Rightarrow> bytes \<Rightarrow> 's worker \<Rightarrow> 's worker \<Rightarrow> bool" where
  "touch view k w w' \<longleftrightarrow> (\<forall>k' r. k' \<noteq> k \<longrightarrow> view (w_kv w') (EncodeObjectKey k' r) = view (w_kv w) (EncodeObjectKey k' r))
     \<and> (\<forall>x. view (w_kv w') x = None \<or> view (w_kv w') x = view (w_kv w) x)
     \<and> (w_failed w' = w_failed w \<or> w_failed w' = k)"

lemma touch_refl [simp]: "touch view k w w"
  by (simp add: touch_def)

lemma touch_trans: "touch view k w w' \<Longrightarrow> touch view k w' w'' \<Longrightarrow> touch view k w w''"
  unfolding touch_def by metis

text \<open>A deletion does not fail for a comparison: it makes none.\<close>

locale kv_engine_clean = kv_engine_bordered +
  assumes del_clean: "ok s \<Longrightarrow> kv_Del kv s k = (Some err, s') \<Longrightarrow> \<not> errors_is err ErrCASFailed"
begin

abbreviation CS :: "rev \<Rightarrow> kvmap \<Rightarrow> 'a \<Rightarrow> bool" where
  "CS \<equiv> comp_state view snap ok"

lemma may_apply_one: "may_apply e [Del x] m m' \<Longrightarrow> m' = m \<or> m' = m(x := None)"
  by (auto dest!: may_apply_cases)

lemma may_apply_current: "may_apply e [DelCurrent x v] m m' \<Longrightarrow> m' = m \<or> m' = m(x := None)"
  by (auto dest!: may_apply_cases split: if_splits)

lemma compactKey_effect:
  assumes "CS ts n (w_kv w)"
  shows "CS ts n (w_kv (compactKey kv (EncodeObjectKey k0 r0) k w))"
    and "view (w_kv (compactKey kv (EncodeObjectKey k0 r0) k w)) = view (w_kv w) \<or> view (w_kv (compactKey kv (EncodeObjectKey k0 r0) k w)) = (view (w_kv w))(EncodeObjectKey k0 r0 := None)"
    and "k \<noteq> [] \<Longrightarrow> w_failed w = k \<Longrightarrow> compactKey kv (EncodeObjectKey k0 r0) k w = w"
    and "w_failed (compactKey kv (EncodeObjectKey k0 r0) k w) = k \<or>
         (w_failed (compactKey kv (EncodeObjectKey k0 r0) k w) = w_failed w \<and> view (w_kv (compactKey kv (EncodeObjectKey k0 r0) k w)) = (view (w_kv w))(EncodeObjectKey k0 r0 := None))"
proof -
  show "k \<noteq> [] \<Longrightarrow> w_failed w = k \<Longrightarrow> compactKey kv (EncodeObjectKey k0 r0) k w = w" by (simp add: compactKey_def isSkippedRawKey_def)
  obtain e s' where d: "kv_Del kv (w_kv w) (EncodeObjectKey k0 r0) = (e, s')" by fastforce
  have ok: "ok (w_kv w)" using assms by (simp add: comp_state_def)
  have s': "ok s'" "may_apply e [Del (EncodeObjectKey k0 r0)] (view (w_kv w)) (view s')" using del_law[OF ok d] by auto
  have cs: "CS ts n s'"
    using comp_state_del[OF assms s'(1) finite_view[OF s'(1)] may_apply_one[OF s'(2)]] del_snap[OF ok d] by blast
  have kvs: "w_kv (compactKey kv (EncodeObjectKey k0 r0) k w) = (if isSkippedRawKey k w then w_kv w else s')"
    using d by (simp add: compactKey_def updateSkippedRawKey_def split: option.splits)
  show "CS ts n (w_kv (compactKey kv (EncodeObjectKey k0 r0) k w))" using kvs cs assms by simp
  show "view (w_kv (compactKey kv (EncodeObjectKey k0 r0) k w)) = view (w_kv w) \<or> view (w_kv (compactKey kv (EncodeObjectKey k0 r0) k w)) = (view (w_kv w))(EncodeObjectKey k0 r0 := None)"
    using kvs may_apply_one[OF s'(2)] by simp
  show "w_failed (compactKey kv (EncodeObjectKey k0 r0) k w) = k \<or>
         (w_failed (compactKey kv (EncodeObjectKey k0 r0) k w) = w_failed w \<and> view (w_kv (compactKey kv (EncodeObjectKey k0 r0) k w)) = (view (w_kv w))(EncodeObjectKey k0 r0 := None))"
  proof (cases "isSkippedRawKey k w")
    case True
    then have "compactKey kv (EncodeObjectKey k0 r0) k w = w" by (simp add: compactKey_def)
    then show ?thesis using True by (simp add: isSkippedRawKey_def)
  next
    case False
    then show ?thesis using d s'(2) del_clean[OF ok, of "EncodeObjectKey k0 r0" _ s'] by (cases e) (auto simp: compactKey_def updateSkippedRawKey_def)
  qed
qed

lemma compactCurrent_effect:
  assumes "CS ts n (w_kv w)"
  shows "CS ts n (w_kv (compactCurrent kv (EncodeObjectKey k0 r0, v0) k w))"
    and "view (w_kv (compactCurrent kv (EncodeObjectKey k0 r0, v0) k w)) = view (w_kv w) \<or> view (w_kv (compactCurrent kv (EncodeObjectKey k0 r0, v0) k w)) = (view (w_kv w))(EncodeObjectKey k0 r0 := None)"
    and "w_failed (compactCurrent kv (EncodeObjectKey k0 r0, v0) k w) = w_failed w \<or> w_failed (compactCurrent kv (EncodeObjectKey k0 r0, v0) k w) = k"
proof -
  obtain e s' where d: "kv_DelCurrent kv (w_kv w) (EncodeObjectKey k0 r0) v0 = (e, s')" by fastforce
  have ok: "ok (w_kv w)" using assms by (simp add: comp_state_def)
  have s': "ok s'" "may_apply e [DelCurrent (EncodeObjectKey k0 r0) v0] (view (w_kv w)) (view s')" using delCurrent_law[OF ok d] by auto
  have cs: "CS ts n s'"
    using comp_state_del[OF assms s'(1) finite_view[OF s'(1)] may_apply_current[OF s'(2)]] delCurrent_snap[OF ok d] by blast
  have kvs: "w_kv (compactCurrent kv (EncodeObjectKey k0 r0, v0) k w) = (if isSkippedRawKey k w then w_kv w else s')"
    using d by (simp add: compactCurrent_def updateSkippedRawKey_def split: option.splits)
  show "CS ts n (w_kv (compactCurrent kv (EncodeObjectKey k0 r0, v0) k w))" using kvs cs assms by simp
  show "view (w_kv (compactCurrent kv (EncodeObjectKey k0 r0, v0) k w)) = view (w_kv w) \<or> view (w_kv (compactCurrent kv (EncodeObjectKey k0 r0, v0) k w)) = (view (w_kv w))(EncodeObjectKey k0 r0 := None)"
    using kvs may_apply_current[OF s'(2)] by simp
  show "w_failed (compactCurrent kv (EncodeObjectKey k0 r0, v0) k w) = w_failed w \<or> w_failed (compactCurrent kv (EncodeObjectKey k0 r0, v0) k w) = k"
    using d by (simp add: compactCurrent_def updateSkippedRawKey_def split: option.splits)
qed

lemma compactKey_touch: "CS ts n (w_kv w) \<Longrightarrow> touch view k w (compactKey kv (EncodeObjectKey k r) k w)"
  unfolding touch_def using compactKey_effect(2,4)[of ts n w k r k] by auto

lemma compactCurrent_touch: "CS ts n (w_kv w) \<Longrightarrow> touch view k w (compactCurrent kv (EncodeObjectKey k r, v) k w)"
  unfolding touch_def using compactCurrent_effect(2,3)[of ts n w k r v k] by auto


lemma compactIfExpired_effect:
  assumes "CS ts n (w_kv w)" "compactIfExpired kv c (EncodeObjectKey k r, v) k r w = Some (x, w')"
  shows "CS ts n (w_kv w')" "touch view k w w'"
  using assms compactKey_effect(1)[OF assms(1)] compactKey_touch[OF assms(1)] compactCurrent_effect(1)[OF assms(1)]
    compactCurrent_touch[OF assms(1)]
  by (auto simp: compactIfExpired_def split: if_splits option.splits)

text \<open>The three deletions a pair of the user key can cause, in the order of the code.\<close>

definition delPrev :: "bytes \<Rightarrow> 'a loop \<Rightarrow> 'a worker \<Rightarrow> 'a worker" where
  "delPrev k l w = (if k = l_prevUserKey l \<and> l_prevRevision l > 0
     then compactKey kv (EncodeObjectKey k (l_prevRevision l)) k w else w)"

definition delTomb :: "bytes \<Rightarrow> rev \<Rightarrow> bytes \<Rightarrow> 'a worker \<Rightarrow> 'a worker" where
  "delTomb k r v w = (if v = tombStoneBytes then compactKey kv (EncodeObjectKey k r) k w else w)"

definition delIndex :: "rev \<Rightarrow> bytes \<Rightarrow> rev \<Rightarrow> bytes \<Rightarrow> 'a worker \<Rightarrow> 'a worker" where
  "delIndex R k r v w = (if r = 0 \<and> length v = 9 \<and> the (Uint64 (take 8 v)) \<le> R
     then compactCurrent kv (EncodeObjectKey k r, v) k w else w)"

lemma processItem_compacts:
  assumes c: "wc_compact c" "wc_tombstone c = tombStoneBytes"
    and e: "compactIfExpired kv c (EncodeObjectKey k r, v) k r (l_worker l) = Some (x, w0)"
  shows "\<exists>l'. processItem kv c (EncodeObjectKey k r, v) k r l = Some l'
    \<and> (x \<or> r > wc_revision c \<longrightarrow> l_worker l' = w0 \<and> l_prevUserKey l' = l_prevUserKey l \<and> l_prevRevision l' = l_prevRevision l)
    \<and> (\<not> x \<longrightarrow> r \<le> wc_revision c \<longrightarrow> l_worker l' = delIndex (wc_revision c) k r v (delTomb k r v (delPrev k l w0))
        \<and> ((l_prevUserKey l' = k \<and> l_prevRevision l' = r)
           \<or> (r = 0 \<and> l_prevUserKey l' = l_prevUserKey l \<and> l_prevRevision l' = l_prevRevision l)))"
proof (cases "x \<or> r > wc_revision c")
  case True
  then show ?thesis using e by (cases x) (auto simp: processItem_def Let_def)
next
  case False
  have em: "l_worker (emit c l1) = l_worker l1" "l_prevUserKey (emit c l1) = l_prevUserKey l1"
      "l_prevRevision (emit c l1) = l_prevRevision l1" for l1 :: "'a loop"
    by (simp_all add: emit_def)
  have e': "compactIfExpired kv c (EncodeObjectKey k r, v) k r (l_worker l) = Some (False, w0)" and newer: "(r > wc_revision c) = False"
    using e False by simp_all
  define l1 where "l1 = l\<lparr>l_worker := w0\<rparr>"
  define l2 where "l2 = (if k \<noteq> l_prevUserKey l1 then emit c l1
                      else if wc_compact c \<and> l_prevRevision l1 > 0
                      then l1\<lparr>l_worker := compactKey kv (EncodeObjectKey (l_prevUserKey l1) (l_prevRevision l1))
                                            (l_prevUserKey l1) (l_worker l1)\<rparr>
                      else l1)"
  define l3 where "l3 = (if wc_compact c \<and> v = wc_tombstone c
                      then l2\<lparr>l_worker := compactKey kv (EncodeObjectKey k r) k (l_worker l2)\<rparr> else l2)"
  have l2: "l_worker l2 = delPrev k l w0" "l_prevUserKey l2 = l_prevUserKey l" "l_prevRevision l2 = l_prevRevision l"
    using c by (auto simp: l2_def l1_def em delPrev_def)
  have l3: "l_worker l3 = delTomb k r v (delPrev k l w0)" "l_prevUserKey l3 = l_prevUserKey l" "l_prevRevision l3 = l_prevRevision l"
    using c l2 by (auto simp: l3_def delTomb_def)
  have eq: "processItem kv c (EncodeObjectKey k r, v) k r l =
     (if wc_compact c \<and> r = 0 \<and> length v = 9
      then case Uint64 (take 8 v) of None \<Rightarrow> None
           | Some objRev \<Rightarrow> if objRev > wc_revision c then Some l3
               else Some (l3\<lparr>l_worker := compactCurrent kv (EncodeObjectKey k r, v) k (l_worker l3),
                            l_prevUserKey := k, l_prevRevision := r, l_prevValue := v\<rparr>)
      else Some (l3\<lparr>l_prevUserKey := k, l_prevRevision := r, l_prevValue := v\<rparr>))"
    unfolding processItem_def e' l3_def l2_def l1_def revisionValueLengthWithDeletionFlag_def Let_def
    by (simp only: option.case prod.case bool.case fst_conv snd_conv newer if_False)
  show ?thesis
  proof (cases "r = 0 \<and> length v = 9")
    case True
    then obtain objRev where "Uint64 (take 8 v) = Some objRev" by (simp add: Uint64_eq)
    then show ?thesis unfolding eq using True False c l3 by (auto simp: delIndex_def)
  next
    case nine: False
    then show ?thesis unfolding eq using False c l3 by (auto simp: delIndex_def)
  qed
qed


lemma delPrev_effect:
  assumes "CS ts n (w_kv w)"
  shows "CS ts n (w_kv (delPrev k l w))" "touch view k w (delPrev k l w)"
  using assms compactKey_effect(1)[OF assms] compactKey_touch[OF assms] by (simp_all add: delPrev_def)

lemma delTomb_effect:
  assumes "CS ts n (w_kv w)"
  shows "CS ts n (w_kv (delTomb k r v w))" "touch view k w (delTomb k r v w)"
  using assms compactKey_effect(1)[OF assms] compactKey_touch[OF assms] by (simp_all add: delTomb_def)

lemma delIndex_effect:
  assumes "CS ts n (w_kv w)"
  shows "CS ts n (w_kv (delIndex R k r v w))" "touch view k w (delIndex R k r v w)"
  using assms compactCurrent_effect(1)[OF assms] compactCurrent_touch[OF assms] by (simp_all add: delIndex_def)

lemma processItem_touch:
  assumes c: "wc_compact c" "wc_tombstone c = tombStoneBytes" and cs: "CS ts n (w_kv (l_worker l))"
    and p: "processItem kv c (EncodeObjectKey k r, v) k r l = Some l'"
  shows "CS ts n (w_kv (l_worker l')) \<and> touch view k (l_worker l) (l_worker l')"
proof -
  obtain x w0 where e: "compactIfExpired kv c (EncodeObjectKey k r, v) k r (l_worker l) = Some (x, w0)"
    using p by (auto simp: processItem_def split: option.splits)
  note w0 = compactIfExpired_effect[OF cs e]
  let ?w = "delIndex (wc_revision c) k r v (delTomb k r v (delPrev k l w0))"
  note d1 = delPrev_effect[OF w0(1), where k = k and l = l]
  note d2 = delTomb_effect[OF d1(1), where k = k and r = r and v = v]
  note d3 = delIndex_effect[OF d2(1), where R = "wc_revision c" and k = k and r = r and v = v]
  have "CS ts n (w_kv ?w)" by (rule d3(1))
  moreover have "touch view k w0 ?w" using touch_trans[OF touch_trans[OF d1(2) d2(2)] d3(2)] .
  moreover have "l_worker l' = w0 \<or> l_worker l' = ?w"
    using processItem_compacts[OF c e] p by (cases "x \<or> r > wc_revision c") auto
  ultimately show ?thesis using w0 touch_trans[OF w0(2)] by auto
qed

end

section \<open>One user key through the loop\<close>

text \<open>
  \<open>upcoming k up r\<close>: version \<open>r\<close> of \<open>k\<close> is among the pairs still to come. While there are pairs of \<open>k\<close> to come, either a
  deletion of \<open>k\<close> failed (then the worker deletes nothing of \<open>k\<close> any more), or every version that is left is to
  come or is the previous pair.
\<close>

definition upcoming :: "bytes \<Rightarrow> kvpair list \<Rightarrow> rev \<Rightarrow> bool" where
  "upcoming k up r \<longleftrightarrow> EncodeObjectKey k r \<in> fst ` set up"

definition tracked :: "rev \<Rightarrow> bytes \<Rightarrow> kvmap \<Rightarrow> kvmap \<Rightarrow> bytes \<Rightarrow> bytes \<Rightarrow> rev \<Rightarrow> kvpair list \<Rightarrow> bool" where
  "tracked R k n m failed prevKey prevRev up \<longleftrightarrow> kept R k n m
     \<and> ((\<forall>r. \<not> upcoming k up r) \<or> failed = k
        \<or> (\<forall>r. 0 < r \<longrightarrow> r \<le> R \<longrightarrow> m (EncodeObjectKey k r) \<noteq> None \<longrightarrow> upcoming k up r \<or> (prevKey = k \<and> prevRev = r)))"

lemma upcoming_Cons: "upcoming k ((EncodeObjectKey k' r', v) # up) r \<longleftrightarrow> (k' = k \<and> r' = r) \<or> upcoming k up r"
  by (auto simp: upcoming_def)

context kv_engine_clean
begin

text \<open>A pair of the tracked key itself.\<close>

lemma tracked_same:
  assumes k: "k \<noteq> []" and r: "r \<le> R" and n: "n (EncodeObjectKey k r) = Some v"
    and cs: "CS ts n (w_kv w)"
    and tr: "tracked R k n (view (w_kv w)) (w_failed w) (l_prevUserKey l) (l_prevRevision l) ((EncodeObjectKey k r, v) # up)"
    and pv: "l_prevUserKey l = k \<Longrightarrow> l_prevRevision l < r" and up: "\<And>q. upcoming k up q \<Longrightarrow> r < q"
    and w': "w' = delIndex R k r v (delTomb k r v (delPrev k l w))"
    and l': "(pk = k \<and> pr = r) \<or> (r = 0 \<and> pk = l_prevUserKey l \<and> pr = l_prevRevision l)"
  shows "tracked R k n (view (w_kv w')) (w_failed w') pk pr up"
proof -
  let ?up = "(EncodeObjectKey k r, v) # up"
  define left where "left w \<longleftrightarrow> w_failed w = k \<or>
    (\<forall>q. 0 < q \<longrightarrow> q \<le> R \<longrightarrow> view (w_kv w) (EncodeObjectKey k q) \<noteq> None \<longrightarrow> upcoming k ?up q)" for w :: "'a worker"
  have later: "left w2" if "left w1" "touch view k w1 w2" for w1 w2
    using that unfolding left_def touch_def by metis
  have kp: "kept R k n (view (w_kv w))" using tr by (simp add: tracked_def)
  have old: "w_failed w = k \<or> (\<forall>q. 0 < q \<longrightarrow> q \<le> R \<longrightarrow> view (w_kv w) (EncodeObjectKey k q) \<noteq> None
      \<longrightarrow> upcoming k ?up q \<or> (l_prevUserKey l = k \<and> l_prevRevision l = q))"
    using tr by (auto simp: tracked_def upcoming_Cons)
  \<comment> \<open>the previous version\<close>
  define w1 where "w1 = delPrev k l w"
  have cs1: "CS ts n (w_kv w1)" using delPrev_effect(1)[OF cs] by (simp add: w1_def)
  have 1: "kept R k n (view (w_kv w1)) \<and> left w1"
  proof (cases "k = l_prevUserKey l \<and> l_prevRevision l > 0")
    case True
    let ?p = "l_prevRevision l" let ?w = "compactKey kv (EncodeObjectKey k ?p) k w"
    have p: "0 < ?p" "?p < r" using True pv by auto
    have w1: "w1 = ?w" using True by (simp add: w1_def delPrev_def)
    have kept1: "kept R k n ((view (w_kv w))(EncodeObjectKey k ?p := None))"
      using kept_del_old[OF kp p r] n by simp
    have "left ?w"
    proof (cases "w_failed w = k")
      case True
      then show ?thesis using compactKey_effect(3)[OF cs k] by (simp add: left_def)
    next
      case False
      then show ?thesis using old compactKey_effect(4)[OF cs, of k ?p k]
        by (auto simp: left_def split: if_splits)
    qed
    then show ?thesis unfolding w1 using compactKey_effect(2)[OF cs, of k ?p k] kp kept1 by auto
  next
    case False
    then have "l_prevUserKey l = k \<Longrightarrow> l_prevRevision l = 0" by (auto simp: word_gt_0)
    then have "left w" using old unfolding left_def by (metis less_irrefl)
    then show ?thesis using False kp by (auto simp: w1_def delPrev_def)
  qed
  \<comment> \<open>a tombstone\<close>
  define w2 where "w2 = delTomb k r v w1"
  have cs2: "CS ts n (w_kv w2)" and t2: "touch view k w1 w2" using delTomb_effect[OF cs1] by (simp_all add: w2_def)
  have 2: "kept R k n (view (w_kv w2))"
  proof (cases "v = tombStoneBytes \<and> w_failed w1 \<noteq> k")
    case True
    have "kept R k n ((view (w_kv w1))(EncodeObjectKey k r := None))"
    proof (cases "r = 0")
      case True
      then show ?thesis using kept_del_index[OF conjunct1[OF 1], of v] n \<open>v = tombStoneBytes \<and> _\<close>
        by (simp add: tombStoneBytes_def bytes_of_string_def)
    next
      case False
      have "view (w_kv w1) (EncodeObjectKey k q) = None" if "0 < q" "q < r" for q
      proof (rule ccontr)
        assume "view (w_kv w1) (EncodeObjectKey k q) \<noteq> None"
        moreover have "q \<le> R" using that(2) r by simp
        ultimately have "upcoming k ?up q" using 1 True that(1) unfolding left_def by blast
        then show False using up[of q] that(2) by (auto simp: upcoming_Cons)
      qed
      then show ?thesis using kept_del_tombstone[OF conjunct1[OF 1] _ r] n True False by (simp add: word_gt_0)
    qed
    then show ?thesis using compactKey_effect(2)[OF cs1, of k r k] 1 True by (auto simp: w2_def delTomb_def)
  next
    case False
    then have "w2 = w1" using compactKey_effect(3)[OF cs1 k] by (auto simp: w2_def delTomb_def)
    then show ?thesis using 1 by simp
  qed
  \<comment> \<open>the revision key\<close>
  have w'2: "w' = delIndex R k r v w2" by (simp add: w' w2_def w1_def)
  have 3: "kept R k n (view (w_kv w'))"
  proof (cases "r = 0 \<and> length v = 9 \<and> the (Uint64 (take 8 v)) \<le> R")
    case True
    then have "kept R k n ((view (w_kv w2))(EncodeObjectKey k r := None))" using kept_del_index[OF 2] n by auto
    then show ?thesis using compactCurrent_effect(2)[OF cs2, of k r v k] 2 True
      by (auto simp: w'2 delIndex_def)
  next
    case False
    then show ?thesis using 2 by (auto simp: w'2 delIndex_def)
  qed
  have "left w'" using later[OF later[OF conjunct2[OF 1] t2] delIndex_effect(2)[OF cs2, of k R r v]] by (simp add: w'2)
  then show ?thesis using 3 l' unfolding tracked_def left_def upcoming_Cons by (metis less_irrefl)
qed


lemma compactIfExpired_off:
  assumes "kv_SupportTTL kv \<or> wc_timeoutRevision c = 0 \<or> \<not> bytes_contains k events"
  shows "compactIfExpired kv c it k r w = Some (False, w)"
  using assms by (auto simp: compactIfExpired_def)

text \<open>One pair, of any user key.\<close>

lemma tracked_step:
  assumes c: "wc_compact c" "wc_tombstone c = tombStoneBytes" and k: "k \<noteq> []" "wf_key k"
    and off: "kv_SupportTTL kv \<or> wc_timeoutRevision c = 0 \<or> \<not> bytes_contains k events"
    and F: "sorted_wrt (<) (map fst (don @ (EncodeObjectKey k' r', v) # up))" "n (EncodeObjectKey k' r') = Some v" "wf_key k'"
    and cs: "CS ts n (w_kv (l_worker l))"
    and cov: "\<And>q r. upcoming k (don @ (EncodeObjectKey k' r', v) # up) q \<Longrightarrow>
        view (w_kv (l_worker l)) (EncodeObjectKey k r) \<noteq> None \<Longrightarrow> upcoming k (don @ (EncodeObjectKey k' r', v) # up) r"
    and pv: "l_prevUserKey l = k \<Longrightarrow> upcoming k don (l_prevRevision l)"
    and tr: "tracked (wc_revision c) k n (view (w_kv (l_worker l))) (w_failed (l_worker l)) (l_prevUserKey l) (l_prevRevision l)
        ((EncodeObjectKey k' r', v) # up)"
    and p: "processItem kv c (EncodeObjectKey k' r', v) k' r' l = Some l'"
  shows "tracked (wc_revision c) k n (view (w_kv (l_worker l'))) (w_failed (l_worker l')) (l_prevUserKey l') (l_prevRevision l') up
    \<and> (l_prevUserKey l' = k \<longrightarrow> upcoming k (don @ [(EncodeObjectKey k' r', v)]) (l_prevRevision l'))"
proof -
  let ?m = "view (w_kv (l_worker l))" and ?R = "wc_revision c"
  have before: "EncodeObjectKey k q < EncodeObjectKey k' r'" if "upcoming k don q" for q
    using that F(1) by (auto simp: upcoming_def sorted_wrt_append)
  have after: "EncodeObjectKey k' r' < EncodeObjectKey k q" if "upcoming k up q" for q
    using that F(1) by (auto simp: upcoming_def sorted_wrt_append)
  have don: "upcoming k (don @ xs) q \<longleftrightarrow> upcoming k don q \<or> upcoming k xs q" for xs q by (auto simp: upcoming_def)
  obtain x w0 where e: "compactIfExpired kv c (EncodeObjectKey k' r', v) k' r' (l_worker l) = Some (x, w0)"
    using p by (auto simp: processItem_def split: option.splits)
  have res: "(x \<or> r' > ?R \<longrightarrow> l_worker l' = w0 \<and> l_prevUserKey l' = l_prevUserKey l \<and> l_prevRevision l' = l_prevRevision l)
    \<and> (\<not> x \<longrightarrow> r' \<le> ?R \<longrightarrow> l_worker l' = delIndex ?R k' r' v (delTomb k' r' v (delPrev k' l w0))
        \<and> ((l_prevUserKey l' = k' \<and> l_prevRevision l' = r')
           \<or> (r' = 0 \<and> l_prevUserKey l' = l_prevUserKey l \<and> l_prevRevision l' = l_prevRevision l)))"
    using processItem_compacts[OF c e] p by auto
  then have pv': "l_prevUserKey l' = k \<longrightarrow> upcoming k (don @ [(EncodeObjectKey k' r', v)]) (l_prevRevision l')"
    using pv by (cases "x \<or> r' > ?R") (auto simp: don upcoming_Cons)
  show ?thesis
  proof (cases "k' = k")
    case False
    have t: "touch view k' (l_worker l) (l_worker l')" using processItem_touch[OF c cs p] by blast
    then have same: "view (w_kv (l_worker l')) (EncodeObjectKey k q) = ?m (EncodeObjectKey k q)" for q
      using False by (simp add: touch_def)
    have "kept ?R k n ?m" using tr by (simp add: tracked_def)
    then have "kept ?R k n (view (w_kv (l_worker l')))" using kept_cong[of "view (w_kv (l_worker l'))" k ?m] same by simp
    moreover have "upcoming k up r" if q: "upcoming k up q" and r: "?m (EncodeObjectKey k r) \<noteq> None" for q r
    proof -
      have "upcoming k (don @ (EncodeObjectKey k' r', v) # up) r"
        using cov[OF _ r, of q] q by (auto simp: don upcoming_Cons)
      moreover have "\<not> upcoming k don r"
        using before[of r] after[OF q] False F(3) k(2) by (auto simp: EncodeObjectKey_less_iff)
      ultimately show ?thesis using False by (auto simp: don upcoming_Cons)
    qed
    ultimately show ?thesis using pv' same unfolding tracked_def by metis
  next
    case True
    have w0: "x = False" "w0 = l_worker l" using compactIfExpired_off[OF off, of "(EncodeObjectKey k' r', v)" r' "l_worker l"] e True by auto
    show ?thesis
    proof (cases "r' > ?R")
      case True
      then have "l_worker l' = l_worker l" "l_prevUserKey l' = l_prevUserKey l" "l_prevRevision l' = l_prevRevision l"
        using res w0 by auto
      then show ?thesis using tr True pv' unfolding tracked_def by (auto simp: upcoming_Cons)
    next
      case False
      have "tracked ?R k n (view (w_kv (l_worker l'))) (w_failed (l_worker l')) (l_prevUserKey l') (l_prevRevision l') up"
      proof (rule tracked_same[where w = "l_worker l" and l = l and r = r' and v = v and ts = ts, OF k(1)])
        show "l_prevUserKey l = k \<Longrightarrow> l_prevRevision l < r'" using pv before True k(2) by (auto simp: EncodeObjectKey_less_iff)
        show "upcoming k up q \<Longrightarrow> r' < q" for q using after[of q] True k(2) by (simp add: EncodeObjectKey_less_iff)
      qed (use False res w0 True cs tr F(2) in \<open>auto simp: not_less\<close>)
      then show ?thesis using pv' by blast
    qed
  qed
qed

lemma runLoop_compacts:
  assumes c: "wc_compact c" "wc_tombstone c = tombStoneBytes" and k: "k \<noteq> []" "wf_key k"
    and off: "kv_SupportTTL kv \<or> wc_timeoutRevision c = 0 \<or> \<not> bytes_contains k events"
    and F: "sorted_wrt (<) (map fst F)" "\<And>k r v. (EncodeObjectKey k r, v) \<in> set F \<Longrightarrow> n (EncodeObjectKey k r) = Some v"
      "\<And>k r v. (EncodeObjectKey k r, v) \<in> set F \<Longrightarrow> wf_key k"
  shows "F = don @ items @ rest \<Longrightarrow> CS ts n (w_kv (l_worker l)) \<Longrightarrow>
    (\<And>q r. upcoming k F q \<Longrightarrow> view (w_kv (l_worker l)) (EncodeObjectKey k r) \<noteq> None \<Longrightarrow> upcoming k F r) \<Longrightarrow>
    (l_prevUserKey l = k \<Longrightarrow> upcoming k don (l_prevRevision l)) \<Longrightarrow>
    tracked (wc_revision c) k n (view (w_kv (l_worker l))) (w_failed (l_worker l)) (l_prevUserKey l) (l_prevRevision l) (items @ rest) \<Longrightarrow>
    runLoop kv c ctx i items endErr err l = Some (res, l') \<Longrightarrow>
    CS ts n (w_kv (l_worker l')) \<and> kept (wc_revision c) k n (view (w_kv (l_worker l')))"
proof (induction items arbitrary: don i err l)
  case Nil
  then show ?case by (auto simp: tracked_def split: if_splits)
next
  case (Cons it items)
  show ?case
  proof (cases "needMore (l_recv l) \<and> \<not> ctx i")
    case False
    then show ?thesis using Cons.prems by (auto simp: tracked_def split: if_splits)
  next
    case True
    obtain ik v where it: "it = (ik, v)" by (cases it)
    have "it \<in> set F" using Cons.prems(1) by simp
    obtain d where d: "Decode ik = Some d" using Cons.prems(6) True it by (cases "Decode ik") auto
    show ?thesis
    proof (cases d)
      case (Inl e)
      have "ik \<noteq> EncodeObjectKey k r" for r using d Inl by auto
      then have up: "upcoming k (it # xs) = upcoming k xs" "upcoming k don q \<Longrightarrow> upcoming k (don @ [it]) q" for xs q
        using it by (auto simp: upcoming_def fun_eq_iff)
      show ?thesis
        by (rule Cons.IH[of "don @ [it]" l "i + 1" "Some e"])
          (use Cons.prems True it d Inl up in \<open>auto simp: tracked_def\<close>)
    next
      case (Inr kr)
      obtain k' r' where kr: "kr = (k', r')" by (cases kr)
      have ik: "ik = EncodeObjectKey k' r'" using d Inr kr Decode_SomeInr by blast
      obtain l1 where l1: "processItem kv c it k' r' l = Some l1" "runLoop kv c ctx (i + 1) items endErr None l1 = Some (res, l')"
        using Cons.prems(6) True it d Inr kr by (cases "processItem kv c it k' r' l") auto
      note th = processItem_touch[OF c Cons.prems(2), of k' r' v l1]
      have cs1: "CS ts n (w_kv (l_worker l1))" and t1: "touch view k' (l_worker l) (l_worker l1)" using th l1 it ik by auto
      have wfk: "wf_key k'" and nk: "n (EncodeObjectKey k' r') = Some v" using F(2,3) \<open>it \<in> set F\<close> it ik by auto
      have "tracked (wc_revision c) k n (view (w_kv (l_worker l1))) (w_failed (l_worker l1)) (l_prevUserKey l1) (l_prevRevision l1) (items @ rest)
          \<and> (l_prevUserKey l1 = k \<longrightarrow> upcoming k (don @ [(EncodeObjectKey k' r', v)]) (l_prevRevision l1))"
        by (rule tracked_step[OF c k off _ nk wfk Cons.prems(2)])
          (use Cons.prems(1,3,4,5) F(1) it ik l1(1) in auto)
      then have tr1: "tracked (wc_revision c) k n (view (w_kv (l_worker l1))) (w_failed (l_worker l1)) (l_prevUserKey l1) (l_prevRevision l1) (items @ rest)"
          "l_prevUserKey l1 = k \<Longrightarrow> upcoming k (don @ [it]) (l_prevRevision l1)" using it ik by auto
      have cov1: "upcoming k F r" if "upcoming k F q" "view (w_kv (l_worker l1)) (EncodeObjectKey k r) \<noteq> None" for q r
        using Cons.prems(3)[OF that(1)] that(2) t1 unfolding touch_def by metis
      show ?thesis by (rule Cons.IH[OF _ cs1 cov1 tr1(2) tr1(1) l1(2)]) (use Cons.prems(1) in auto)
    qed
  qed
qed


text \<open>No panic: the values of revision keys are long enough to be read.\<close>

lemma processItem_total:
  assumes "wc_compact c" "wc_tombstone c = tombStoneBytes" "r = 0 \<Longrightarrow> 8 \<le> length v"
  shows "processItem kv c (EncodeObjectKey k r, v) k r l \<noteq> None"
proof -
  have "compactIfExpired kv c (EncodeObjectKey k r, v) k r (l_worker l) \<noteq> None"
    using assms(3) by (auto simp: compactIfExpired_def Uint64_eq split: option.splits)
  then obtain x w0 where "compactIfExpired kv c (EncodeObjectKey k r, v) k r (l_worker l) = Some (x, w0)" by auto
  then show ?thesis using processItem_compacts[OF assms(1,2)] by blast
qed

lemma runLoop_total:
  assumes "wc_compact c" "wc_tombstone c = tombStoneBytes"
    and "\<And>x v. (x, v) \<in> set items \<Longrightarrow> Decode x \<noteq> None" "\<And>k v. (EncodeObjectKey k 0, v) \<in> set items \<Longrightarrow> 8 \<le> length v"
  shows "runLoop kv c ctx i items endErr err l \<noteq> None"
  using assms(3,4)
proof (induction items arbitrary: i err l)
  case (Cons it items)
  obtain ik v where it: "it = (ik, v)" by (cases it)
  have IH: "runLoop kv c ctx i items endErr err l \<noteq> None" for i err l
    by (rule Cons.IH) (use Cons.prems in auto)
  obtain d where d: "Decode ik = Some d" using Cons.prems it by fastforce
  show ?case
  proof (cases d)
    case (Inl e)
    then show ?thesis using IH d it by simp
  next
    case (Inr kr)
    obtain k r where kr: "kr = (k, r)" by (cases kr)
    have ik: "ik = EncodeObjectKey k r" using d Inr kr Decode_SomeInr by blast
    then obtain l1 where "processItem kv c it k r l = Some l1"
      using processItem_total[OF assms(1,2), of r v k l] Cons.prems(2)[of k v] it by auto
    then show ?thesis using IH d it Inr kr by simp
  qed
qed simp

end

section \<open>Workers that compact\<close>

text \<open>The user keys a compaction must not change for readers: those whose entries it does not expire.\<close>

definition spared :: "'s kv_storage \<Rightarrow> rev \<Rightarrow> bytes \<Rightarrow> bool" where
  "spared kv timeout k \<longleftrightarrow> k \<noteq> [] \<and> wf_key k \<and> (kv_SupportTTL kv \<or> timeout = 0 \<or> \<not> bytes_contains k events)"

definition compactable :: "kvmap \<Rightarrow> bool" where
  "compactable n \<longleftrightarrow> (\<forall>k v. n (EncodeObjectKey k 0) = Some v \<longrightarrow> 8 \<le> length v)"

context kv_engine_clean
begin

definition compacting :: "rev \<Rightarrow> rev \<Rightarrow> rev \<Rightarrow> kvmap \<Rightarrow> 'a \<Rightarrow> bool" where
  "compacting timeout R ts n s \<longleftrightarrow> CS ts n s \<and> (\<forall>k. spared kv timeout k \<longrightarrow> kept R k n (view s))"

lemma run_compacts:
  assumes c: "wc_compact c" "wc_tombstone c = tombStoneBytes"
    and ab: "Start (wc_partition c) \<le> End (wc_partition c)" "End (wc_partition c) \<noteq> []" "aligned (Start (wc_partition c))" "aligned (End (wc_partition c))"
    and n: "compactable n" and s: "compacting (wc_timeoutRevision c) (wc_revision c) (wc_tso c) n (w_kv w)"
  shows "\<exists>ne r w'. run kv c ctx recv w = Some (ne, r, w') \<and> compacting (wc_timeoutRevision c) (wc_revision c) (wc_tso c) n (w_kv w')"
proof -
  let ?a = "Start (wc_partition c)" and ?b = "End (wc_partition c)" and ?ts = "wc_tso c" and ?R = "wc_revision c"
  have cs: "CS ?ts n (w_kv w)" using s by (simp add: compacting_def)
  then have ok: "ok (w_kv w)" by (simp add: comp_state_def)
  obtain it s1 where it: "kv_Iter kv (w_kv w) ?a ?b ?ts 0 = (it, s1)" by fastforce
  note st = iter_state[OF ok it]
  have s1: "compacting (wc_timeoutRevision c) ?R ?ts n s1" using s st by (simp add: compacting_def comp_state_def)
  show ?thesis
  proof (cases it)
    case (Inl err)
    then show ?thesis using it s1 by (simp add: run_def)
  next
    case (Inr its)
    obtain items endErr where its: "its = (items, endErr)" by (cases its)
    let ?sn = "snap (w_kv w) ?ts" let ?F = "forward_range ?sn ?a ?b"
    have "prefix items ?F" using iter_forward[OF ok ab(1,2)] it Inr its by blast
    then obtain rest where F: "?F = items @ rest" by (auto simp: prefix_def)
    have sub: "?sn (EncodeObjectKey k r) = None \<or> ?sn (EncodeObjectKey k r) = n (EncodeObjectKey k r)" for k r
      using cs unfolding comp_state_def by blast
    have fin: "finite (dom ?sn)" and wfs: "wf_store ?sn" using cs by (auto simp: comp_state_def)
    have setF: "(x, v) \<in> set ?F \<longleftrightarrow> ?sn x = Some v \<and> x \<in> {?a..<?b}" for x v using fin by (simp add: forward_range_def)
    have nF: "n (EncodeObjectKey k r) = Some v" if "(EncodeObjectKey k r, v) \<in> set ?F" for k r v
      using that sub[of k r] setF by auto
    have wfF: "wf_key k" if "(EncodeObjectKey k r, v) \<in> set ?F" for k r v using that setF wf_store_key[OF wfs, of k r] by auto
    have sorted: "sorted_wrt (<) (map fst ?F)" by (simp add: forward_range_def sorted_entries_of)
    define l where "l = \<lparr>l_worker = w\<lparr>w_kv := s1\<rparr>, l_recv = reset recv, l_count = 0, l_prevUserKey = [],
                   l_prevRevision = 0, l_prevValue = []\<rparr>"
    have lw: "w_kv (l_worker l) = s1" by (simp add: l_def)
    have "runLoop kv c ctx 0 items endErr None l \<noteq> None"
    proof (rule runLoop_total[OF c])
      fix x v assume "(x, v) \<in> set items"
      then have "(x, v) \<in> set ?F" using F by simp
      then have "?sn x = Some v" using setF by blast
      then show "Decode x \<noteq> None" using wf_store_decodes[OF wfs, of x] by simp
    next
      fix k v assume "(EncodeObjectKey k 0, v) \<in> set items"
      then have "n (EncodeObjectKey k 0) = Some v" using nF F by simp
      then show "8 \<le> length v" using n by (simp add: compactable_def)
    qed
    then obtain res l' where lp: "runLoop kv c ctx 0 items endErr None l = Some (res, l')" by auto
    have key: "CS ?ts n (w_kv (l_worker l')) \<and> kept ?R k n (view (w_kv (l_worker l')))" if sp: "spared kv (wc_timeoutRevision c) k" for k
    proof (rule runLoop_compacts[where F = ?F and don = "[]" and rest = rest and n = n and k = k and ts = ?ts, OF c _ _ _ sorted nF wfF _ _ _ _ _ lp])
      show "k \<noteq> []" "wf_key k" "kv_SupportTTL kv \<or> wc_timeoutRevision c = 0 \<or> \<not> bytes_contains k events"
        using sp by (auto simp: spared_def)
      have wfk: "wf_key k" using sp by (simp add: spared_def)
      have cov: "upcoming k ?F r" if q: "upcoming k ?F q" and r: "view s1 (EncodeObjectKey k r) \<noteq> None" for q r
      proof -
        have "EncodeObjectKey k q \<in> {?a..<?b}" using q setF by (auto simp: upcoming_def)
        then have "EncodeObjectKey k r \<in> {?a..<?b}" using aligned_within[OF ab(3,4) wfk] by blast
        moreover have "?sn (EncodeObjectKey k r) \<noteq> None" using cs r st by (auto simp: comp_state_def)
        ultimately show ?thesis using setF unfolding upcoming_def by force
      qed
      then show "upcoming k ?F q \<Longrightarrow> view (w_kv (l_worker l)) (EncodeObjectKey k r) \<noteq> None \<Longrightarrow> upcoming k ?F r" for q r
        by (simp add: lw)
      show "tracked ?R k n (view (w_kv (l_worker l))) (w_failed (l_worker l)) (l_prevUserKey l) (l_prevRevision l) (items @ rest)"
        using cov s1 sp F unfolding tracked_def lw compacting_def by metis
      show "CS ?ts n (w_kv (l_worker l))" using s1 by (simp add: lw compacting_def)
      show "l_prevUserKey l = k \<Longrightarrow> upcoming k [] (l_prevRevision l)" using sp by (auto simp: l_def spared_def)
    qed (use F in simp_all)
    have "spared kv (wc_timeoutRevision c) [0xff]"
      by (simp add: spared_def wf_key_def splitByte_def bytes_contains_def events_def bytes_of_string_def)
    then have fin': "compacting (wc_timeoutRevision c) ?R ?ts n (w_kv (l_worker l'))" using key by (auto simp: compacting_def)
    show ?thesis
    proof (cases res)
      case (Inl e)
      then show ?thesis using it Inr its lp fin' by (simp add: run_def l_def)
    next
      case (Inr err)
      have "l_worker (emit c l') = l_worker l'" by (simp add: emit_def)
      then show ?thesis using it \<open>it = Inr its\<close> Inr its lp fin' by (simp add: run_def l_def Let_def)
    qed
  qed
qed


lemma backoffLoop_compacts:
  assumes c: "wc_compact c" "wc_tombstone c = tombStoneBytes"
    and ab: "Start (wc_partition c) \<le> End (wc_partition c)" "End (wc_partition c) \<noteq> []" "aligned (Start (wc_partition c))" "aligned (End (wc_partition c))"
    and n: "compactable n"
  shows "compacting (wc_timeoutRevision c) (wc_revision c) (wc_tso c) n (w_kv w) \<Longrightarrow>
    \<exists>ne r w'. backoffLoop kv c ctx a steps cnt se recv w = Some (ne, r, w')
      \<and> compacting (wc_timeoutRevision c) (wc_revision c) (wc_tso c) n (w_kv w')"
proof (induction steps arbitrary: a cnt se recv w)
  case (Suc steps)
  obtain m e r w' where r: "run kv c (\<lambda>i. ctx a (i + 1)) recv w = Some ((m, e), r, w')"
      "compacting (wc_timeoutRevision c) (wc_revision c) (wc_tso c) n (w_kv w')"
    using run_compacts[OF c ab n Suc.prems, of "\<lambda>i. ctx a (i + 1)" recv] by auto
  then show ?case using Suc.prems Suc.IH[OF r(2), of "a + 1" m e r] by (cases e) auto
qed simp

lemma runWorkers_compacts:
  assumes mk: "\<And>p. wc_compact (mk p) \<and> wc_tombstone (mk p) = tombStoneBytes \<and> wc_tso (mk p) = ts
                 \<and> wc_revision (mk p) = R \<and> wc_partition (mk p) = p \<and> wc_timeoutRevision (mk p) = timeout"
    and n: "compactable n"
  shows "compacting timeout R ts n s \<Longrightarrow> aligned a \<Longrightarrow> chained ps a b \<Longrightarrow>
    \<exists>outs s'. runWorkers kv mk ctx idx ps recv s = Some (outs, s') \<and> compacting timeout R ts n s'"
proof (induction ps arbitrary: s a idx)
  case (Cons p ps)
  have p: "Start p = a" "a \<le> End p" "End p \<noteq> []" "aligned (End p)" "chained ps (End p) b" using Cons.prems by auto
  obtain m e r w where w: "runWithBackoffRetry kv (mk p) (ctx idx) (fork recv) \<lparr>w_kv = s, w_failed = []\<rparr> = Some ((m, e), r, w)"
      "compacting timeout R ts n (w_kv w)"
    using backoffLoop_compacts[of "mk p" n "\<lparr>w_kv = s, w_failed = []\<rparr>" "ctx idx" 0 scanBackoffSteps 0 None "fork recv"]
      mk[of p] p n Cons.prems by (auto simp: runWithBackoffRetry_def)
  then show ?case using Cons.IH[OF w(2) p(4,5), of "idx + 1"] by auto
qed simp

end

section \<open>A compaction scan\<close>

text \<open>What readers at \<open>R\<close> or later, and the revision key, say of a user key.\<close>

definition stable :: "rev \<Rightarrow> bytes \<Rightarrow> kvmap \<Rightarrow> kvmap \<Rightarrow> bool" where
  "stable R k m m' \<longleftrightarrow> (\<forall>R' \<ge> R. visible m' k R' = visible m k R') \<and> (index_ok m k \<longrightarrow> index_ok m' k)"

lemma stable_refl [simp]: "stable R k m m"
  by (simp add: stable_def)

lemma stable_trans: "stable R k m m' \<Longrightarrow> stable R k m' m'' \<Longrightarrow> stable R k m m''"
  by (simp add: stable_def)

lemma kept_stable: "kept R k n m \<Longrightarrow> stable R k n m"
  by (simp add: stable_def kept_visible kept_index_ok)

text \<open>Keys the backend stores beside the encoded ones.\<close>

definition plain :: "bytes \<Rightarrow> bool" where
  "plain x \<longleftrightarrow> 4 \<le> length x \<and> take 4 x \<noteq> magicBytes"

lemma plain_not_Enc [simp]: "plain x \<Longrightarrow> x \<noteq> EncodeObjectKey k r" "plain x \<Longrightarrow> EncodeObjectKey k r \<noteq> x"
  by (auto simp: plain_def EncodeObjectKey_def)

lemma wf_store_plain: "wf_store m \<Longrightarrow> plain x \<Longrightarrow> wf_store (m(x \<mapsto> v))"
  by (simp add: wf_store_def plain_def)

lemma stable_same:
  assumes "\<And>r. m' (EncodeObjectKey k r) = m (EncodeObjectKey k r)"
  shows "stable R k m m'"
  using kept_stable[of R k m m'] kept_cong[of m' k m R m] assms by simp

definition timeless :: "'s kv_storage \<Rightarrow> bytes \<Rightarrow> bool" where
  "timeless kv k \<longleftrightarrow> k \<noteq> [] \<and> wf_key k \<and> (kv_SupportTTL kv \<or> \<not> bytes_contains k events)"

text \<open>An engine that does not refuse an unconditional write.\<close>

definition puts :: "'s kv_storage \<Rightarrow> ('s \<Rightarrow> bool) \<Rightarrow> bool" where
  "puts kv ok \<longleftrightarrow> (\<forall>s k v. ok s \<longrightarrow> (\<exists>s'. kv_Commit kv s [Put k v 0] = (None, s')))"

lemma putsD: "puts kv ok \<Longrightarrow> ok s \<Longrightarrow> kv_Commit kv s [Put k v 0] = (e, s') \<Longrightarrow> e = None"
  unfolding puts_def by (metis prod.inject)

definition compact_ok :: "kvmap \<Rightarrow> bool" where
  "compact_ok m \<longleftrightarrow> wf_store m \<and> compactable m"

context kv_engine_clean
begin

lemma scan_compacts:
  assumes s: "ok (sc_kv st)" "compact_ok (view (sc_kv st))"
    and conf: "plain (CompactKey conf)" "Tombstone conf = tombStoneBytes"
    and ab: "aligned a" "aligned b" "a < b"
  shows "\<exists>ne recv' st'. scan kv conf ctx a b R True recv st = Some (ne, recv', st') \<and> ok (sc_kv st')
    \<and> compact_ok (view (sc_kv st')) \<and> (\<forall>k. timeless kv k \<longrightarrow> stable R k (view (sc_kv st)) (view (sc_kv st')))
    \<and> (view (sc_kv st') (CompactKey conf) = view (sc_kv st) (CompactKey conf) \<or> view (sc_kv st') (CompactKey conf) = Some (uint64ToBytes R))
    \<and> (serving kv view ok \<longrightarrow> puts kv ok \<longrightarrow> view (sc_kv st') (CompactKey conf) = Some (uint64ToBytes R))"
proof -
  let ?m = "view (sc_kv st)"
  obtain t s1 where t: "kv_GetTimestampOracle kv (sc_kv st) = (t, s1)" by fastforce
  have s1: "ok s1" "view s1 = ?m" using tso_state[OF s(1) t] by auto
  show ?thesis
  proof (cases t)
    case (Inl err)
    then show ?thesis using t s1 s servingD(1)[where ok = ok, OF _ s(1)] by (auto simp: scan_def)
  next
    case ts: (Inr ts)
    have sn: "snap s1 ts = ?m" using tso_snap[OF s(1)] t ts s1 by simp
    obtain e2 s2 where c: "kv_Commit kv s1 [Put (CompactKey conf) (uint64ToBytes R) 0] = (e2, s2)" by fastforce
    have s2: "ok s2" "view s2 = ?m \<or> view s2 = ?m(CompactKey conf \<mapsto> uint64ToBytes R)"
      using commit_law[OF s1(1) c] s1(2) by (auto dest: may_apply_cases)
    have rec: "e2 = None \<Longrightarrow> view s2 (CompactKey conf) = Some (uint64ToBytes R)"
      using commit_law[OF s1(1) c] by (auto dest: sym)
    have rec2: "view s2 (CompactKey conf) = ?m (CompactKey conf) \<or> view s2 (CompactKey conf) = Some (uint64ToBytes R)"
      using s2(2) by auto
    have same: "view s2 (EncodeObjectKey k r) = ?m (EncodeObjectKey k r)" for k r using s2(2) conf(1) by auto
    have ok2: "compact_ok (view s2)" using s(2) s2(2) wf_store_plain[OF _ conf(1)] same
      by (auto simp: compact_ok_def compactable_def)
    have st2: "stable R k ?m (view s2)" for k by (rule stable_same) (rule same)
    have race: "checkCompactRace kv conf R True s1 = Some (e2, s2)" using c by (simp add: checkCompactRace_def)
    show ?thesis
    proof (cases e2)
      case (Some err)
      then show ?thesis using t ts race s2(1) ok2 st2 rec2 putsD[where ok = ok, OF _ s1(1) c] by (auto simp: scan_def)
    next
      case none: None
      obtain p s3 where p: "kv_GetPartitions kv s2 a b = (p, s3)" by fastforce
      note s3 = partitions_state[OF s2(1) p]
      show ?thesis
      proof (cases p)
        case (Inl err)
        then show ?thesis using t ts race none p s3 ok2 st2 rec by (simp add: scan_def)
      next
        case (Inr ps)
        obtain qs where qs: "adjustPartitionsBorders ps = Some qs" "chained qs a b"
          using adjusted[OF s2(1) ab(3), of ps s3] p Inr ab by auto
        obtain timeout st4 where to: "getTimeoutRevision kv conf (st\<lparr>sc_kv := s3\<rparr>) = (timeout, st4)" by fastforce
        then have st4: "sc_kv st4 = s3" "kv_SupportTTL kv \<Longrightarrow> timeout = 0"
          by (auto simp: getTimeoutRevision_def Let_def split: if_splits prod.splits)
        define mk where "mk = (\<lambda>p. \<lparr>wc_partition = p, wc_tso = ts, wc_revision = R, wc_tombstone = Tombstone conf,
                                  wc_compact = True, wc_timeoutRevision = timeout\<rparr>)"
        let ?n = "view s2"
        have snap3: "snap s3 ts y = ?m y \<or> snap s3 ts y = ?n y" for y
          using commit_snap[OF s1(1) c, of ts y] s3 sn by auto
        have "wf_store (snap s3 ts)"
          by (rule wf_store_from[of ?m ?n]) (use s ok2 snap3 in \<open>auto simp: compact_ok_def\<close>)
        moreover have "finite (dom (snap s3 ts))"
        proof (rule finite_subset)
          show "dom (snap s3 ts) \<subseteq> dom ?m \<union> dom ?n"
          proof
            fix y assume "y \<in> dom (snap s3 ts)"
            then show "y \<in> dom ?m \<union> dom ?n" using snap3[of y] by (cases "snap s3 ts y = ?m y") (auto simp: domIff)
          qed
        qed (use finite_view[OF s(1)] finite_view[OF s2(1)] in simp)
        moreover have "snap s3 ts (EncodeObjectKey k r) = ?n (EncodeObjectKey k r)" for k r
          using snap3[of "EncodeObjectKey k r"] same by auto
        ultimately have cs: "compacting timeout R ts ?n s3"
          using s3 ok2 by (simp add: compacting_def comp_state_def compact_ok_def)
        obtain outs s4 where w: "runWorkers kv mk ctx 0 qs recv s3 = Some (outs, s4)" "compacting timeout R ts ?n s4"
          using runWorkers_compacts[of mk ts R timeout ?n s3 a qs b ctx 0 recv] cs ab(1) qs(2) ok2 conf(2)
          by (auto simp: mk_def compact_ok_def)
        have "stable R k ?m (view s4)" if "timeless kv k" for k
        proof -
          have "spared kv timeout k" using that by (auto simp: timeless_def spared_def)
          then have "kept R k ?n (view s4)" using w(2) by (simp add: compacting_def)
          then show ?thesis using stable_trans[OF st2] kept_stable by blast
        qed
        moreover have "view s4 (CompactKey conf) = ?n (CompactKey conf)"
          using w(2) conf(1) unfolding compacting_def comp_state_def by simp
        moreover have "ok s4" "compact_ok (view s4)"
          using w(2) ok2 by (auto simp: compacting_def comp_state_def compact_ok_def compactable_def) (metis option.distinct(1))
        moreover have "\<exists>ne recv'. scan kv conf ctx a b R True recv st = Some (ne, recv', st4\<lparr>sc_kv := s4\<rparr>)"
          using t ts race none p Inr qs(1) w(1) to st4(1) by (cases "firstErr outs") (simp_all add: scan_def mk_def Let_def)
        ultimately show ?thesis using rec none by auto
      qed
    qed
  qed
qed

end

end
