(* ===== verification/Compact.thy ===== *)
theory Compact
  imports Compaction Sequencer
begin

text \<open>
  \<^verbatim>\<open>pkg/backend/compact.go\<close>: which revision is compacted, the compaction record, the ranges, and what a compaction
  leaves to readers. \<^verbatim>\<open>MinRevision\<close> is the operation of \<^verbatim>\<open>pkg/backend/retry/retry.go\<close> it asks first.
\<close>

section \<open>Operations\<close>

definition MinRevision :: "eventQueue \<Rightarrow> rev" where
  "MinRevision q = (case getHead q of Some (ev, _) \<Rightarrow> WRevision ev | None \<Rightarrow> 0)"

definition withSlash :: "bytes \<Rightarrow> bytes" where
  "withSlash key = (if \<not> suffix (bytes_of_string ''/'') key then key @ bytes_of_string ''/'' else key)"

definition getCompactBorders :: "Config \<Rightarrow> bytes list" where
  "getCompactBorders c =
     sort (concat (map (\<lambda>key. [EncodeObjectKey (withSlash key) 0, EncodeObjectKey (PrefixEnd (withSlash key)) 0])
                       (Prefix c # SkippedPrefixes c)))"

definition setCompactRecord :: "'s kv_storage \<Rightarrow> Config \<Rightarrow> rev \<Rightarrow> 's \<Rightarrow> (error option \<times> 's) option" where
  "setCompactRecord kv c revision s =
     (let ck = getCompactKey (Prefix c);
          (g, s1) = kv_Get kv s ck;
          val = (case g of Inl _ \<Rightarrow> [] | Inr v \<Rightarrow> v);
          failed = (case g of Inl err \<Rightarrow> if err \<noteq> ErrKeyNotFound then Some err else None | Inr _ \<Rightarrow> None)
      in case failed of
           Some err \<Rightarrow> Some (Some err, s1)
         | None \<Rightarrow>
             if length val > 0 then
               (case Uint64 val of
                  None \<Rightarrow> None
                | Some compactRevision \<Rightarrow>
                    if compactRevision > revision then Some (None, s1)
                    else Some (kv_Commit kv s1 [CAS ck (uint64ToBytes revision) val 0]))
             else Some (kv_Commit kv s1 [PutIfNotExist ck (uint64ToBytes revision) 0]))"

text \<open>The loop over the borders; an odd one would be an index out of range.\<close>

fun compactRanges ::
    "'s kv_storage \<Rightarrow> ScannerConfig \<Rightarrow> (nat \<Rightarrow> nat \<Rightarrow> nat \<Rightarrow> nat \<Rightarrow> bool) \<Rightarrow> rev \<Rightarrow> bytes list \<Rightarrow> 's scst \<Rightarrow> 's scst option" where
  "compactRanges kv conf ctx revision [] st = Some st"
| "compactRanges kv conf ctx revision [a] st = None"
| "compactRanges kv conf ctx revision (a # b # bs) st =
     (case scanner_Compact kv conf (ctx (length bs)) a b revision st of
        None \<Rightarrow> None
      | Some st1 \<Rightarrow> compactRanges kv conf ctx revision bs st1)"

definition compact ::
    "'s kv_storage \<Rightarrow> (nat \<Rightarrow> nat \<Rightarrow> nat \<Rightarrow> nat \<Rightarrow> bool) \<Rightarrow> rev \<Rightarrow> 's backend \<Rightarrow> (error option \<times> 's backend) option" where
  "compact kv ctx revision b =
     (case setCompactRecord kv (config b) revision (kvState b) of
        None \<Rightarrow> None
      | Some (Some err, s) \<Rightarrow> Some (Some err, b\<lparr>kvState := s\<rparr>)
      | Some (None, s) \<Rightarrow>
          map_option (\<lambda>st. (None, putScanner st b))
            (compactRanges kv (getScannerConfig (config b)) ctx revision (getCompactBorders (config b))
               (scannerOf (b\<lparr>kvState := s\<rparr>))))"

text \<open>The revision \<^verbatim>\<open>Compact\<close> settles on: not past the committed one, and before the oldest uncertain write.\<close>

definition compactRevision :: "rev \<Rightarrow> 's backend \<Rightarrow> rev" where
  "compactRevision revision b =
     (let curRevision = GetRevision (tso b);
          revision = (if revision = 0 \<or> revision > curRevision then curRevision else revision);
          uncertainRev = MinRevision (retryQueue b)
      in if uncertainRev \<noteq> 0 then minUint64 (uncertainRev - 1) revision else revision)"

definition Compact ::
    "'s kv_storage \<Rightarrow> (nat \<Rightarrow> nat \<Rightarrow> nat \<Rightarrow> nat \<Rightarrow> bool) \<Rightarrow> rev \<Rightarrow> 's backend
     \<Rightarrow> ((rev \<times> error option) \<times> 's backend) option" where
  "Compact kv ctx revision b =
     map_option (\<lambda>(err, b'). ((compactRevision revision b, err), b')) (compact kv ctx (compactRevision revision b) b)"

section \<open>The revision\<close>

lemma MinRevision_least:
  assumes "queue_ok b" "x \<in> set (entries (retryQueue b))"
  shows "MinRevision (retryQueue b) \<le> WRevision (fst x)"
proof -
  obtain y where y: "getHead (retryQueue b) = Some y" "(WRevision \<circ> fst) y \<le> (WRevision \<circ> fst) x"
    using rq.front_least[of "retryQueue b" "WRevision \<circ> fst" x] assms by (auto simp: queue_ok_def)
  then show ?thesis by (cases y) (simp add: MinRevision_def)
qed

lemma MinRevision_zero:
  assumes "queue_ok b" "MinRevision (retryQueue b) = 0" "\<forall>x \<in> set (entries (retryQueue b)). WRevision (fst x) \<noteq> 0"
  shows "entries (retryQueue b) = []"
proof (rule ccontr)
  assume "entries (retryQueue b) \<noteq> []"
  then have "getHead (retryQueue b) = Some (hd (entries (retryQueue b)))"
    using assms(1) getHead_refines[of "retryQueue b"] by (simp add: queue_ok_def)
  then have "MinRevision (retryQueue b) = WRevision (fst (hd (entries (retryQueue b))))"
    by (cases "hd (entries (retryQueue b))") (simp add: MinRevision_def)
  then show False using assms(2,3) \<open>entries (retryQueue b) \<noteq> []\<close> by simp
qed

lemma word_pred_less: "(u :: rev) \<noteq> 0 \<Longrightarrow> u - 1 < u"
  by (simp add: word_less_nat_alt unat_minus_one) (metis diff_Suc_less unat_gt_0)

lemma compactRevision_bounds:
  assumes "queue_ok b" "\<forall>x \<in> set (entries (retryQueue b)). WRevision (fst x) \<noteq> 0"
  shows "compactRevision R b \<le> GetCurrentRevision b"
    and "x \<in> set (entries (retryQueue b)) \<Longrightarrow> compactRevision R b < WRevision (fst x)"
proof -
  show "compactRevision R b \<le> GetCurrentRevision b"
    by (auto simp: compactRevision_def Let_def minUint64_def GetCurrentRevision_def)
  assume x: "x \<in> set (entries (retryQueue b))"
  have u: "MinRevision (retryQueue b) \<noteq> 0" using MinRevision_zero[OF assms(1) _ assms(2)] x by auto
  have "compactRevision R b \<le> MinRevision (retryQueue b) - 1"
    using u by (auto simp: compactRevision_def Let_def minUint64_def)
  also have "\<dots> < MinRevision (retryQueue b)" by (rule word_pred_less[OF u])
  finally show "compactRevision R b < WRevision (fst x)" using MinRevision_least[OF assms(1) x] by simp
qed

section \<open>The borders\<close>

lemma withSlash_end: "\<exists>p. withSlash key = p @ [0x2f]"
  by (auto simp: withSlash_def bytes_of_string_def suffix_def)

lemma wf_withSlash: "wf_key key \<Longrightarrow> wf_key (withSlash key)"
  by (auto simp: withSlash_def wf_key_def bytes_of_string_def splitByte_def)

lemma wf_PrefixEnd_withSlash: "wf_key key \<Longrightarrow> wf_key (PrefixEnd (withSlash key))"
proof -
  assume "wf_key key"
  then have "wf_key (withSlash key)" by (rule wf_withSlash)
  moreover obtain p where p: "withSlash key = p @ [0x2f]" using withSlash_end by blast
  have "PrefixEnd (withSlash key) = p @ [0x30]" using PrefixEnd_eq[of "0x2f" p 0] p by simp
  ultimately show ?thesis using p by (auto simp: wf_key_def splitByte_def)
qed

definition borders_ok :: "Config \<Rightarrow> bool" where
  "borders_ok c \<longleftrightarrow> (\<forall>p \<in> set (Prefix c # SkippedPrefixes c). wf_key p)
     \<and> plain (getCompactKey (Prefix c)) \<and> distinct (getCompactBorders c)"

lemma set_getCompactBorders:
  "set (getCompactBorders c) = (\<Union>p \<in> set (Prefix c # SkippedPrefixes c).
     {EncodeObjectKey (withSlash p) 0, EncodeObjectKey (PrefixEnd (withSlash p)) 0})"
  unfolding getCompactBorders_def set_sort by auto

lemma borders_aligned: "borders_ok c \<Longrightarrow> x \<in> set (getCompactBorders c) \<Longrightarrow> aligned x"
  by (auto simp: borders_ok_def set_getCompactBorders intro!: aligned_Enc wf_withSlash wf_PrefixEnd_withSlash)

lemma borders_sorted: "borders_ok c \<Longrightarrow> sorted_wrt (<) (getCompactBorders c)"
  unfolding borders_ok_def strict_sorted_iff getCompactBorders_def using sorted_sort by blast

lemma length_getCompactBorders: "length (getCompactBorders c) = 2 + 2 * length (SkippedPrefixes c)"
proof -
  have "length (concat (map (\<lambda>key. [f key, g key]) ks)) = 2 * length ks" for f g :: "bytes \<Rightarrow> bytes" and ks
    by (induction ks) auto
  then show ?thesis by (simp add: getCompactBorders_def)
qed


section \<open>A whole compaction\<close>

definition record_step :: "rev \<Rightarrow> bytes \<Rightarrow> kvmap \<Rightarrow> kvmap \<Rightarrow> bool" where
  "record_step R ck m m' \<longleftrightarrow> m' ck = m ck \<or> m' ck = Some (uint64ToBytes R)"

context kv_engine_clean
begin

lemma scanner_Compact_safe:
  assumes "ok (sc_kv st)" "compact_ok (view (sc_kv st))" "plain (CompactKey conf)" "Tombstone conf = tombStoneBytes"
    and "aligned a" "aligned b" "a < b"
  shows "\<exists>st'. scanner_Compact kv conf ctx a b R st = Some st' \<and> ok (sc_kv st') \<and> compact_ok (view (sc_kv st'))
    \<and> (\<forall>k. timeless kv k \<longrightarrow> stable R k (view (sc_kv st)) (view (sc_kv st')))
    \<and> record_step R (CompactKey conf) (view (sc_kv st)) (view (sc_kv st'))
    \<and> (serving kv view ok \<longrightarrow> puts kv ok \<longrightarrow> view (sc_kv st') (CompactKey conf) = Some (uint64ToBytes R))"
proof -
  have l: "sc_kv (logCompactHistory R st) = sc_kv st" by (simp add: logCompactHistory_def)
  obtain ne recv' st' where sc: "scan kv conf ctx a b R True emptyResultReceiver (logCompactHistory R st) = Some (ne, recv', st')"
      "ok (sc_kv st')" "compact_ok (view (sc_kv st'))" "\<forall>k. timeless kv k \<longrightarrow> stable R k (view (sc_kv st)) (view (sc_kv st'))"
      "record_step R (CompactKey conf) (view (sc_kv st)) (view (sc_kv st'))"
      "serving kv view ok \<longrightarrow> puts kv ok \<longrightarrow> view (sc_kv st') (CompactKey conf) = Some (uint64ToBytes R)"
    using scan_compacts[of "logCompactHistory R st" conf a b ctx R emptyResultReceiver] assms unfolding l record_step_def by blast
  then show ?thesis by (simp add: scanner_Compact_def)
qed

lemma compactRanges_safe:
  assumes "plain (CompactKey conf)" "Tombstone conf = tombStoneBytes"
  shows "sorted_wrt (<) bs \<Longrightarrow> \<forall>x \<in> set bs. aligned x \<Longrightarrow> even (length bs) \<Longrightarrow> ok (sc_kv st) \<Longrightarrow> compact_ok (view (sc_kv st)) \<Longrightarrow>
    \<exists>st'. compactRanges kv conf ctx R bs st = Some st' \<and> ok (sc_kv st') \<and> compact_ok (view (sc_kv st'))
      \<and> (\<forall>k. timeless kv k \<longrightarrow> stable R k (view (sc_kv st)) (view (sc_kv st')))
      \<and> record_step R (CompactKey conf) (view (sc_kv st)) (view (sc_kv st'))
      \<and> (serving kv view ok \<longrightarrow> puts kv ok \<longrightarrow> bs \<noteq> [] \<longrightarrow> view (sc_kv st') (CompactKey conf) = Some (uint64ToBytes R))"
proof (induction bs arbitrary: st rule: induct_list012)
  case (3 a b bs)
  have ab: "aligned a" "aligned b" "a < b" using 3(3,4) by auto
  obtain st1 where st1: "scanner_Compact kv conf (ctx (length bs)) a b R st = Some st1" "ok (sc_kv st1)" "compact_ok (view (sc_kv st1))"
      "\<forall>k. timeless kv k \<longrightarrow> stable R k (view (sc_kv st)) (view (sc_kv st1))"
      "record_step R (CompactKey conf) (view (sc_kv st)) (view (sc_kv st1))"
      "serving kv view ok \<longrightarrow> puts kv ok \<longrightarrow> view (sc_kv st1) (CompactKey conf) = Some (uint64ToBytes R)"
    using scanner_Compact_safe[OF 3(6,7) assms ab, of "ctx (length bs)" R] by blast
  obtain st2 where st2: "compactRanges kv conf ctx R bs st1 = Some st2" "ok (sc_kv st2)" "compact_ok (view (sc_kv st2))"
      "\<forall>k. timeless kv k \<longrightarrow> stable R k (view (sc_kv st1)) (view (sc_kv st2))"
      "record_step R (CompactKey conf) (view (sc_kv st1)) (view (sc_kv st2))"
    using 3(1)[of st1] 3(3,4,5) st1(2,3) by auto
  have "record_step R (CompactKey conf) (view (sc_kv st)) (view (sc_kv st2))"
    "serving kv view ok \<longrightarrow> puts kv ok \<longrightarrow> view (sc_kv st2) (CompactKey conf) = Some (uint64ToBytes R)"
    using st1(5,6) st2(5) by (auto simp: record_step_def)
  then show ?case using st1(1,4) st2 stable_trans by (simp add: exI[of _ st2]) blast
qed (auto simp: record_step_def)

lemma setCompactRecord_safe:
  assumes s: "ok s" "compact_ok (view s)" and ck: "plain (getCompactKey (Prefix c))" "record_ok (view s) (getCompactKey (Prefix c))"
  shows "\<exists>e s'. setCompactRecord kv c R s = Some (e, s') \<and> ok s' \<and> compact_ok (view s')
    \<and> (\<forall>k. stable R k (view s) (view s')) \<and> record_step R (getCompactKey (Prefix c)) (view s) (view s')
    \<and> (e = None \<longrightarrow> view s' (getCompactKey (Prefix c)) = Some (uint64ToBytes R) \<or> R < compactRev (view s) (getCompactKey (Prefix c)))
    \<and> (serving kv view ok \<longrightarrow> R < compactRev (view s) (getCompactKey (Prefix c)) \<longrightarrow> e = None)"
proof -
  let ?ck = "getCompactKey (Prefix c)"
  obtain g s1 where g: "kv_Get kv s ?ck = (g, s1)" by fastforce
  note s1 = get_state[OF s(1) g]
  have written: "ok s' \<and> compact_ok (view s') \<and> (\<forall>k. stable R k (view s) (view s')) \<and> record_step R ?ck (view s) (view s')
      \<and> (e = None \<longrightarrow> view s' ?ck = Some (uint64ToBytes R))"
    if w: "is_write op" and c: "kv_Commit kv s1 [op] = (e, s')" and op: "apply_batch [op] (view s1) \<in> {None, Some ((view s1)(?ck \<mapsto> uint64ToBytes R))}" for op e s'
  proof -
    have m: "ok s'" "may_apply e [op] (view s) (view s')" using commit_law[OF _ c] w s1 by auto
    have v: "view s' = view s \<or> view s' = (view s)(?ck \<mapsto> uint64ToBytes R)" using may_apply_cases[OF m(2)] op s1 by auto
    have same: "view s' (EncodeObjectKey k r) = view s (EncodeObjectKey k r)" for k r using v ck(1) by auto
    have "compact_ok (view s')" using s(2) v same wf_store_plain[OF _ ck(1)] by (auto simp: compact_ok_def compactable_def)
    moreover have "e = None \<longrightarrow> view s' ?ck = Some (uint64ToBytes R)" using m(2) op s1 by (auto dest: sym)
    ultimately show ?thesis using m(1) v same stable_same by (auto simp: record_step_def)
  qed
  show ?thesis
  proof (cases g)
    case (Inl err)
    show ?thesis
    proof (cases "err = ErrKeyNotFound")
      case True
      then have none: "view s ?ck = None" using get_notfound[OF s(1)] g Inl by simp
      obtain e s2 where c: "kv_Commit kv s1 [PutIfNotExist ?ck (uint64ToBytes R) 0] = (e, s2)" by fastforce
      have "setCompactRecord kv c R s = Some (e, s2)" using g Inl True c by (simp add: setCompactRecord_def)
      then show ?thesis using written[OF _ c] none by (auto simp: compactRev_def)
    next
      case False
      then have "setCompactRecord kv c R s = Some (Some err, s1)" using g Inl by (simp add: setCompactRecord_def)
      moreover have "\<not> serving kv view ok" using servingD(3)[where ok = ok, OF _ s(1)] g Inl False by blast
      ultimately show ?thesis using s1 s by (auto simp: record_step_def)
    qed
  next
    case (Inr v)
    then have v: "view s ?ck = Some v" using get_val[OF s(1)] g by simp
    then have len: "8 \<le> length v" and u: "Uint64 v = Some (compactRev (view s) ?ck)"
      using ck(2) record_ok_Uint64[OF ck(2)] by (auto simp: record_ok_def)
    have ne: "v \<noteq> []" using len by auto
    show ?thesis
    proof (cases "compactRev (view s) ?ck > R")
      case True
      then have "setCompactRecord kv c R s = Some (None, s1)" using g Inr u ne by (simp add: setCompactRecord_def Let_def)
      then show ?thesis using s1 s True by (auto simp: record_step_def)
    next
      case False
      obtain e s2 where c: "kv_Commit kv s1 [CAS ?ck (uint64ToBytes R) v 0] = (e, s2)" by fastforce
      have "setCompactRecord kv c R s = Some (e, s2)" using g Inr u ne c False by (simp add: setCompactRecord_def Let_def)
      then show ?thesis using written[OF _ c] v s1 False by auto
    qed
  qed
qed

lemma Compact_safe:
  fixes revision :: rev
  assumes s: "ok (kvState b)" "compact_ok (view (kvState b))" "record_ok (view (kvState b)) (getCompactKey (Prefix (config b)))"
    and c: "borders_ok (config b)"
  defines "R \<equiv> compactRevision revision b" and "ck \<equiv> getCompactKey (Prefix (config b))"
  shows "\<exists>err b'. Compact kv ctx revision b = Some ((R, err), b') \<and> ok (kvState b') \<and> compact_ok (view (kvState b'))
    \<and> (\<forall>k. timeless kv k \<longrightarrow> stable R k (view (kvState b)) (view (kvState b')))
    \<and> record_step R ck (view (kvState b)) (view (kvState b'))
    \<and> config b' = config b \<and> tso b' = tso b \<and> retryQueue b' = retryQueue b \<and> watchCache b' = watchCache b
    \<and> (serving kv view ok \<longrightarrow> puts kv ok \<longrightarrow> R < compactRev (view (kvState b)) ck \<longrightarrow>
         err = None \<and> view (kvState b') ck = Some (uint64ToBytes R))"
proof -
  have pl: "plain ck" using c by (simp add: borders_ok_def ck_def)
  obtain e s1 where r: "setCompactRecord kv (config b) R (kvState b) = Some (e, s1)" "ok s1" "compact_ok (view s1)"
      "\<forall>k. stable R k (view (kvState b)) (view s1)" "record_step R ck (view (kvState b)) (view s1)"
      "serving kv view ok \<longrightarrow> R < compactRev (view (kvState b)) ck \<longrightarrow> e = None"
    using setCompactRecord_safe[OF s(1,2) pl[unfolded ck_def] s(3), of R] unfolding ck_def by blast
  show ?thesis
  proof (cases e)
    case (Some err)
    then show ?thesis using r by (auto simp: Compact_def compact_def R_def ck_def)
  next
    case None
    let ?st = "scannerOf (b\<lparr>kvState := s1\<rparr>)"
    have ev: "even (length (getCompactBorders (config b)))" and ne: "getCompactBorders (config b) \<noteq> []"
      using length_getCompactBorders[of "config b"] by auto
    obtain st2 where st2: "compactRanges kv (getScannerConfig (config b)) ctx R (getCompactBorders (config b)) ?st = Some st2"
        "ok (sc_kv st2)" "compact_ok (view (sc_kv st2))" "\<forall>k. timeless kv k \<longrightarrow> stable R k (view s1) (view (sc_kv st2))"
        "record_step R ck (view s1) (view (sc_kv st2))"
        "serving kv view ok \<longrightarrow> puts kv ok \<longrightarrow> view (sc_kv st2) ck = Some (uint64ToBytes R)"
      using compactRanges_safe[of "getScannerConfig (config b)" "getCompactBorders (config b)" ?st ctx R]
        borders_sorted[OF c] borders_aligned[OF c] ev ne pl r(2,3) by (auto simp: ck_def)
    have "Compact kv ctx revision b = Some ((R, None), putScanner st2 b)"
      using r(1) None st2(1) by (simp add: Compact_def compact_def R_def putScanner_def)
    moreover have "record_step R ck (view (kvState b)) (view (sc_kv st2))" using r(5) st2(5) by (auto simp: record_step_def)
    moreover have "timeless kv k \<longrightarrow> stable R k (view (kvState b)) (view (sc_kv st2))" for k
      using r(4) st2(4) stable_trans by blast
    ultimately show ?thesis using st2(2,3,6) by (auto simp: putScanner_def)
  qed
qed

end

section \<open>Properties\<close>

sublocale skiplist_spec \<subseteq> memc: kv_engine_clean "memkv skl" "\<lambda>s. cont (sklist s)"
  "\<lambda>s ts. cont (sklist s)" "\<lambda>s. True"
  by unfold_locales (use mem.del_answers in blast)


text \<open>
  C39: the compaction record can go back. When a compaction is asked for a revision older than the
  recorded one, \<^verbatim>\<open>setCompactRecord\<close> leaves the record alone, but the scan that follows overwrites it with the
  older revision; reads between the two are then answered although their versions were compacted away.
\<close>

theorem Compact_lowers_record:
  assumes "kv_engine_clean kv view snap ok" "serving kv view ok" "puts kv ok" "ok (kvState b)" "compact_ok (view (kvState b))"
    and "record_ok (view (kvState b)) (getCompactKey (Prefix (config b)))" "borders_ok (config b)"
    and "compactRevision revision b < compactedTo view b"
  shows "\<exists>b'. Compact kv ctx revision b = Some ((compactRevision revision b, None), b')
    \<and> compactedTo view b' = compactRevision revision b \<and> compactedTo view b' < compactedTo view b"
proof -
  obtain b' where "Compact kv ctx revision b = Some ((compactRevision revision b, None), b')" "config b' = config b"
      "view (kvState b') (getCompactKey (Prefix (config b))) = Some (uint64ToBytes (compactRevision revision b))"
    using kv_engine_clean.Compact_safe[where ctx = ctx and revision = revision, OF assms(1,4-7)] assms(2,3,8) by blast
  moreover have "Uint64 (uint64ToBytes (compactRevision revision b)) = Some (compactRevision revision b)"
    using Uint64_uint64ToBytes[of _ "[]"] by simp
  ultimately show ?thesis using assms(8) by (auto simp: compactRev_def)
qed


section \<open>Sample runs\<close>

lemma puts_memkv: "puts (memkv alist_skl) (\<lambda>s. True)"
  unfolding puts_def
proof (intro allI impI)
  fix s k v
  obtain e s' where c: "kv_Commit (memkv alist_skl) s [Put k v 0] = (e, s')" by fastforce
  then have "e = None" using alist.mem.commit_answers[OF TrueI, of s "[Put k v 0]" _ s'] by (cases e) auto
  then show "\<exists>s'. kv_Commit (memkv alist_skl) s [Put k v 0] = (None, s')" using c by auto
qed

lemma borders_sample: "borders_ok (config sample_backend)"
proof -
  have c: "config sample_backend = sample_config"
    by (simp add: sample_backend_def NewBackend_def SetCurrentRevision_def Let_def complete_def sample_config_def)
  have "wf_key (bytes_of_string ''/registry'')" "plain (getCompactKey (bytes_of_string ''/registry''))"
    by (simp_all add: wf_key_def bytes_of_string_def splitByte_def plain_def getCompactKey_def magicBytes_def)
  moreover obtain q where q: "withSlash (Prefix sample_config) = q @ [0x2f]" using withSlash_end by blast
  then have "PrefixEnd (withSlash (Prefix sample_config)) = q @ [0x30]" using PrefixEnd_eq[of "0x2f" q 0] by simp
  then have "distinct (getCompactBorders sample_config)"
    unfolding getCompactBorders_def distinct_sort using q by (simp add: sample_config_def)
  ultimately show ?thesis by (simp add: borders_ok_def c) (simp add: sample_config_def)
qed

lemma compact_ok_sample: "compact_ok (mem_view sample_store)"
proof -
  have "m (EncodeObjectKey k 0) = Some v \<Longrightarrow> 8 \<le> length v" if "m = mem_view sample_store" for m k v
    unfolding that by (auto simp: sample_store_def EncodeRevisionKey_def index_val_def split: if_splits)
  then show ?thesis using wf_store_sample_store by (auto simp: compact_ok_def compactable_def)
qed

lemma queue_sample: "retryQueue sample_backend = emptyQueue"
  by (simp add: sample_backend_def NewBackend_def SetCurrentRevision_def Let_def)

lemma record_sample: "record_ok (mem_view sample_store) (getCompactKey (bytes_of_string ''/registry''))"
  by (simp add: record_ok_def sample_no_record)


text \<open>The sample store with a record of revision 4.\<close>

definition sample_compacted :: "(bytes \<times> bytes) list memstore backend" where
  "sample_compacted = sample_backend\<lparr>kvState := sample_store\<lparr>sklist :=
     (getCompactKey (bytes_of_string ''/registry''), uint64ToBytes 4) # sklist sample_store\<rparr>\<rparr>"

theorem Compact_lowers_record_witness:
  "\<exists>b'. Compact (memkv alist_skl) (\<lambda>j i a n. False) 2 sample_compacted = Some ((2, None), b')
     \<and> compactedTo mem_view sample_compacted = 4 \<and> compactedTo mem_view b' = 2"
proof -
  let ?b = sample_compacted and ?ck = "getCompactKey (bytes_of_string ''/registry'')"
  have b: "config ?b = config sample_backend" "tso ?b = tso sample_backend" "retryQueue ?b = emptyQueue"
      "mem_view (kvState ?b) = (mem_view sample_store)(?ck \<mapsto> uint64ToBytes 4)"
    by (auto simp: sample_compacted_def queue_sample)
  have pl: "plain ?ck" using borders_sample by (simp add: borders_ok_def config_sample_backend)
  have four: "compactedTo mem_view ?b = 4"
    using Uint64_uint64ToBytes[of 4 "[]"] by (simp add: compactRev_def b config_sample_backend)
  have two: "compactRevision 2 ?b = 2"
    using GetCurrentRevision_sample_backend
    by (simp add: compactRevision_def b MinRevision_def getHead_def emptyQueue_def GetCurrentRevision_def)
  have "compact_ok (mem_view (kvState ?b))"
    using compact_ok_sample wf_store_plain[OF _ pl] pl by (auto simp: b compact_ok_def compactable_def)
  moreover have "record_ok (mem_view (kvState ?b)) (getCompactKey (Prefix (config ?b)))"
    by (simp add: b record_ok_def config_sample_backend)
  ultimately show ?thesis
    using Compact_lowers_record[where ctx = "\<lambda>j i a n. False" and revision = 2 and b = ?b,
        OF alist.memc.kv_engine_clean_axioms serving_memkv puts_memkv TrueI] borders_sample four two by (auto simp: b)
qed

end
