(* ===== verification/WatcherHub.thy ===== *)
theory WatcherHub
  imports Proto
begin

text \<open>
  \<^verbatim>\<open>pkg/backend/watcherhub.go\<close>: the registry of watch channels. A channel is a number; \<open>chans\<close> holds what was
  sent on it and not read yet, \<open>chClosed\<close> the closed ones. \<^verbatim>\<open>Stream\<close> starts a goroutine to delete a watcher
  whose buffer is full: \<open>dropping\<close> holds the goroutines that have not run yet.
\<close>

section \<open>Operations\<close>

definition watchBuffer :: nat where
  "watchBuffer = 10000"

record WatcherHub =
  subs :: "nat list"
  chans :: "nat \<Rightarrow> Event list list"
  chClosed :: "nat list"
  dropping :: "nat list"
  nextChan :: nat

definition emptyHub :: WatcherHub where
  "emptyHub = \<lparr>subs = [], chans = (\<lambda>c. []), chClosed = [], dropping = [], nextChan = 0\<rparr>"

definition AddWatcher :: "WatcherHub \<Rightarrow> nat \<times> WatcherHub" where
  "AddWatcher w = (let sub = nextChan w in
     (sub, w\<lparr>subs := subs w @ [sub], chans := (chans w)(sub := []), nextChan := sub + 1\<rparr>))"

definition DeleteWatcher :: "nat \<Rightarrow> WatcherHub \<Rightarrow> WatcherHub" where
  "DeleteWatcher sub w =
     (if sub \<in> set (subs w) then w\<lparr>chClosed := chClosed w @ [sub], subs := removeAll sub (subs w)\<rparr> else w)"

text \<open>The \<^verbatim>\<open>select\<close> for one subscriber.\<close>

definition offer :: "Event list \<Rightarrow> nat \<Rightarrow> WatcherHub \<Rightarrow> WatcherHub" where
  "offer item sub w =
     (if length (chans w sub) < watchBuffer then w\<lparr>chans := (chans w)(sub := chans w sub @ [item])\<rparr>
      else w\<lparr>dropping := dropping w @ [sub]\<rparr>)"

definition streamItem :: "Event list \<Rightarrow> WatcherHub \<Rightarrow> WatcherHub" where
  "streamItem item w = fold (offer item) (subs w) w"

text \<open>After the input channel is closed.\<close>

definition streamEnd :: "WatcherHub \<Rightarrow> WatcherHub" where
  "streamEnd w = fold DeleteWatcher (subs w) w"

definition Stream :: "Event list list \<Rightarrow> WatcherHub \<Rightarrow> WatcherHub" where
  "Stream input w = streamEnd (fold streamItem input w)"

section \<open>Runs\<close>

text \<open>
  The hub with its surroundings: the batches streamed so far, for each channel how many of them were streamed
  before it was registered and what its reader took, and the channels that were ever passed over.
\<close>

record hub_sys =
  whub :: WatcherHub
  streamed :: "Event list list"
  since :: "nat \<Rightarrow> nat"
  taken :: "nat \<Rightarrow> Event list list"
  missed :: "nat set"

definition hub_init :: hub_sys where
  "hub_init = \<lparr>whub = emptyHub, streamed = [], since = (\<lambda>c. 0), taken = (\<lambda>c. []), missed = {}\<rparr>"

inductive hub_step :: "hub_sys \<Rightarrow> hub_sys \<Rightarrow> bool" where
  hub_add: "AddWatcher (whub h) = (sub, w) \<Longrightarrow> hub_step h (h\<lparr>whub := w, since := (since h)(sub := length (streamed h))\<rparr>)"
| hub_stream: "hub_step h (h\<lparr>whub := streamItem item (whub h), streamed := streamed h @ [item],
     missed := missed h \<union> {sub \<in> set (subs (whub h)). \<not> length (chans (whub h) sub) < watchBuffer}\<rparr>)"
| hub_drop: "dropping (whub h) = xs @ sub # ys \<Longrightarrow>
     hub_step h (h\<lparr>whub := DeleteWatcher sub ((whub h)\<lparr>dropping := xs @ ys\<rparr>)\<rparr>)"
| hub_cancel: "hub_step h (h\<lparr>whub := DeleteWatcher sub (whub h)\<rparr>)"
| hub_read: "chans (whub h) sub = x # xs \<Longrightarrow>
     hub_step h (h\<lparr>whub := (whub h)\<lparr>chans := (chans (whub h))(sub := xs)\<rparr>, taken := (taken h)(sub := taken h sub @ [x])\<rparr>)"

inductive hub_reach :: "hub_sys \<Rightarrow> bool" where
  hub_start: "hub_reach hub_init"
| hub_next: "hub_reach h \<Longrightarrow> hub_step h h' \<Longrightarrow> hub_reach h'"

lemma fold_offer:
  assumes "distinct xs"
  shows "chans (fold (offer item) xs w) c =
      (if c \<in> set xs \<and> length (chans w c) < watchBuffer then chans w c @ [item] else chans w c)
    \<and> subs (fold (offer item) xs w) = subs w \<and> nextChan (fold (offer item) xs w) = nextChan w
    \<and> chClosed (fold (offer item) xs w) = chClosed w"
  using assms
proof (induction xs arbitrary: w)
  case (Cons x xs)
  have "chans (offer item x w) c = (if c = x \<and> length (chans w c) < watchBuffer then chans w c @ [item] else chans w c)" for c
    by (simp add: offer_def)
  moreover have "subs (offer item x w) = subs w" "nextChan (offer item x w) = nextChan w" "chClosed (offer item x w) = chClosed w"
    by (simp_all add: offer_def)
  ultimately show ?case using Cons by auto
qed simp

text \<open>What was read from and is left on a channel, against what was streamed since it was registered.\<close>

definition hub_ok :: "hub_sys \<Rightarrow> bool" where
  "hub_ok h \<longleftrightarrow> (let w = whub h in
     distinct (subs w) \<and> (\<forall>c. since h c \<le> length (streamed h)) \<and> (\<forall>c \<in> set (subs w). c < nextChan w)
     \<and> (\<forall>c \<ge> nextChan w. taken h c = [] \<and> chans w c = [] \<and> c \<notin> missed h)
     \<and> (\<forall>c < nextChan w. c \<notin> missed h \<longrightarrow>
          prefix (taken h c @ chans w c) (drop (since h c) (streamed h))
          \<and> (c \<in> set (subs w) \<longrightarrow> taken h c @ chans w c = drop (since h c) (streamed h))))"

lemma hub_ok_delete: "hub_ok h \<Longrightarrow> hub_ok (h\<lparr>whub := DeleteWatcher sub (whub h)\<rparr>)"
  by (auto simp: hub_ok_def DeleteWatcher_def Let_def distinct_removeAll)

lemma hub_ok_step:
  assumes "hub_step h h'" "hub_ok h"
  shows "hub_ok h'"
  using assms
proof (induction rule: hub_step.induct)
  case (hub_add h sub w)
  then show ?case by (auto simp: hub_ok_def AddWatcher_def Let_def less_Suc_eq)
next
  case (hub_stream h item)
  have d: "distinct (subs (whub h))" using hub_stream by (simp add: hub_ok_def Let_def)
  have len: "since h c \<le> length (streamed h)" for c using hub_stream by (simp add: hub_ok_def Let_def)
  show ?case using hub_stream len fold_offer[OF d, of item "whub h"]
    by (auto simp: hub_ok_def streamItem_def Let_def le_SucI)
next
  case (hub_drop h xs sub ys)
  then have "hub_ok (h\<lparr>whub := (whub h)\<lparr>dropping := xs @ ys\<rparr>\<rparr>)" by (simp add: hub_ok_def Let_def)
  from hub_ok_delete[OF this, of sub] show ?case by simp
next
  case (hub_cancel h sub)
  then show ?case by (rule hub_ok_delete)
next
  case (hub_read h sub x xs)
  then show ?case by (auto simp: hub_ok_def Let_def)
qed

lemma hub_ok_reach: "hub_reach h \<Longrightarrow> hub_ok h"
proof (induction rule: hub_reach.induct)
  case hub_start
  then show ?case by (simp add: hub_init_def hub_ok_def emptyHub_def Let_def)
qed (blast intro: hub_ok_step)

section \<open>Properties\<close>

text \<open>
  C29: a registered watcher that was never passed over for a full buffer has read, or has in its buffer,
  exactly the batches streamed since it registered, in order; after it was deleted, what it can read is
  a prefix of them. This holds in every interleaving of registrations, cancellations, deletions, streaming and reading.
\<close>

theorem watcher_gets_every_batch:
  assumes "hub_reach h" "c < nextChan (whub h)" "c \<notin> missed h"
  shows "prefix (taken h c @ chans (whub h) c) (drop (since h c) (streamed h))
    \<and> (c \<in> set (subs (whub h)) \<longrightarrow> taken h c @ chans (whub h) c = drop (since h c) (streamed h))"
  using hub_ok_reach[OF assms(1)] assms(2,3) by (simp add: hub_ok_def Let_def)


text \<open>A hub with one watcher, to which batches are streamed.\<close>

definition one_hub :: "Event list list \<Rightarrow> nat list \<Rightarrow> WatcherHub" where
  "one_hub buf drops = \<lparr>subs = [0], chans = (\<lambda>c. [])(0 := buf), chClosed = [], dropping = drops, nextChan = 1\<rparr>"

definition one_sys :: "Event list list \<Rightarrow> nat list \<Rightarrow> Event list list \<Rightarrow> Event list list \<Rightarrow> nat set \<Rightarrow> hub_sys" where
  "one_sys buf drops lg tk ms = \<lparr>whub = one_hub buf drops, streamed = lg, since = (\<lambda>c. 0), taken = (\<lambda>c. [])(0 := tk), missed = ms\<rparr>"

lemma one_start: "hub_reach (one_sys [] [] [] [] {})"
proof -
  have [simp]: "(\<lambda>c :: nat. 0 :: nat)(0 := 0) = (\<lambda>c. 0)" "(\<lambda>c :: nat. [] :: Event list list)(0 := []) = (\<lambda>c. [])" by auto
  have "hub_step hub_init (one_sys [] [] [] [] {})"
    using hub_add[of hub_init 0 "one_hub [] []"]
    by (simp add: hub_init_def one_sys_def one_hub_def AddWatcher_def emptyHub_def Let_def)
  then show ?thesis using hub_start hub_next by blast
qed

lemma one_stream_step:
  "hub_step (one_sys buf drops lg tk ms)
     (if length buf < watchBuffer then one_sys (buf @ [x]) drops (lg @ [x]) tk ms
      else one_sys buf (drops @ [0]) (lg @ [x]) tk (insert 0 ms))"
proof -
  let ?h = "one_sys buf drops lg tk ms"
  have eq: "?h\<lparr>whub := streamItem x (whub ?h), streamed := streamed ?h @ [x],
      missed := missed ?h \<union> {sub \<in> set (subs (whub ?h)). \<not> length (chans (whub ?h) sub) < watchBuffer}\<rparr>
    = (if length buf < watchBuffer then one_sys (buf @ [x]) drops (lg @ [x]) tk ms
       else one_sys buf (drops @ [0]) (lg @ [x]) tk (insert 0 ms))"
    by (auto simp: one_sys_def one_hub_def streamItem_def offer_def)
  show ?thesis using hub_stream[of ?h x] unfolding eq .
qed

lemma one_stream:
  "hub_reach (one_sys buf [] lg [] {}) \<Longrightarrow> length buf < watchBuffer \<Longrightarrow> hub_reach (one_sys (buf @ [x]) [] (lg @ [x]) [] {})"
  using hub_next[OF _ one_stream_step[of buf "[]" lg "[]" "{}" x]] by simp

lemma one_fill: "n \<le> watchBuffer \<Longrightarrow> hub_reach (one_sys (replicate n x) [] (replicate n x) [] {})"
proof (induction n)
  case (Suc n)
  then show ?case using one_stream[of "replicate n x" "replicate n x" x] by (simp add: replicate_append_same)
qed (simp add: one_start)

text \<open>
  A slow watcher can see a gap. A watcher whose buffer was full when a batch was streamed is deleted by another
  goroutine, some time later; if it reads in between, later batches reach it although the one before is lost.
\<close>

lemma slow_watcher_can_see_gap:
  "\<exists>h buf. hub_reach h \<and> 0 \<in> set (subs (whub h)) \<and> streamed h = buf @ [[e1], [e2]]
     \<and> taken h 0 @ chans (whub h) 0 = buf @ [[e2]]"
proof -
  define buf where "buf = replicate watchBuffer ([] :: Event list)"
  have "watchBuffer = Suc 9999" by (simp add: watchBuffer_def)
  then obtain rest where buf: "buf = [] # rest" "length rest < watchBuffer" "length buf = watchBuffer"
    unfolding buf_def by (metis length_replicate lessI replicate_Suc)
  have 0: "hub_reach (one_sys buf [] buf [] {})" unfolding buf_def by (rule one_fill) simp
  have 1: "hub_step (one_sys buf [] buf [] {}) (one_sys buf [0] (buf @ [[e1]]) [] {0})"
    using one_stream_step[of buf "[]" buf "[]" "{}" "[e1]"] buf(3) by simp
  have 2: "hub_step (one_sys buf [0] (buf @ [[e1]]) [] {0}) (one_sys rest [0] (buf @ [[e1]]) [[]] {0})"
    using hub_read[of "one_sys buf [0] (buf @ [[e1]]) [] {0}" 0 "[]" rest] buf(1) by (simp add: one_sys_def one_hub_def)
  have 3: "hub_step (one_sys rest [0] (buf @ [[e1]]) [[]] {0}) (one_sys (rest @ [[e2]]) [0] (buf @ [[e1], [e2]]) [[]] {0})"
    using one_stream_step[of rest "[0]" "buf @ [[e1]]" "[[]]" "{0}" "[e2]"] buf(2) by simp
  have "hub_reach (one_sys (rest @ [[e2]]) [0] (buf @ [[e1], [e2]]) [[]] {0})"
    using hub_next[OF hub_next[OF hub_next[OF 0 1] 2] 3] .
  then show ?thesis using buf(1)
    by (intro exI[of _ "one_sys (rest @ [[e2]]) [0] (buf @ [[e1], [e2]]) [[]] {0}"] exI[of _ buf]) (simp add: one_sys_def one_hub_def)
qed

theorem watcher_gets_every_batch_witness:
  "taken (one_sys [[]] [] [[]] [] {}) 0 @ chans (whub (one_sys [[]] [] [[]] [] {})) 0 = [[]]"
proof -
  have "hub_reach (one_sys [[]] [] [[]] [] {})" using one_fill[of 1 "[]"] by (simp add: watchBuffer_def)
  from watcher_gets_every_batch[OF this, of 0] show ?thesis by (simp add: one_sys_def one_hub_def)
qed

end
