(* ===== verification/Watch.thy ===== *)
theory Watch
  imports WatcherHub Sequencer
begin

text \<open>
  \<^verbatim>\<open>pkg/backend/watch.go\<close>: a watch starts by registering with the hub, then looks up in the cache what happened before,
  sends that in batches, and from then on forwards what the hub streams. \<open>Watch\<close> gives the batches sent at
  once and the revision from which \<open>processEvents\<close> forwards; \<open>processEvents\<close> maps the batches of the hub to
  those sent on the result channel.
\<close>

section \<open>Operations\<close>

definition resultChanLength :: nat where
  "resultChanLength = 100"

definition filterByPrefix :: "Event list \<Rightarrow> bytes \<Rightarrow> Event list" where
  "filterByPrefix evs p = filter (\<lambda>e. prefix p (Key (Kv e))) evs"

fun filterByRevision :: "Event list \<Rightarrow> rev \<Rightarrow> Event list" where
  "filterByRevision [] r = []"
| "filterByRevision (e # evs) r = (if EvRevision e < r then filterByRevision evs r else e # evs)"

text \<open>The loop of \<^verbatim>\<open>catchUpEvents\<close>; a batch size of zero would make it run forever, which \<open>None\<close> stands for.\<close>

function batches :: "nat \<Rightarrow> Event list \<Rightarrow> Event list list option" where
  "batches batchSize evs =
     (if length evs > batchSize then
        if batchSize = 0 then None
        else map_option (\<lambda>bs. take batchSize evs # bs) (batches batchSize (drop batchSize evs))
      else Some [evs])"
  by auto
termination
  by (relation "measure (length \<circ> snd)") auto

declare batches.simps [simp del]

definition catchUpBatchSize :: "nat \<Rightarrow> nat" where
  "catchUpBatchSize n = (if n > resultChanLength * eventBatchSize then n div (resultChanLength - 1) else eventBatchSize)"

definition catchUpEvents :: "Event list \<Rightarrow> Event list list option" where
  "catchUpEvents evs = batches (catchUpBatchSize (length evs)) evs"

definition processEvents :: "bytes \<Rightarrow> rev \<Rightarrow> Event list list \<Rightarrow> Event list list" where
  "processEvents p revision input =
     filter (\<lambda>evs. length evs > 0) (map (\<lambda>evs. filterByPrefix (filterByRevision evs revision) p) input)"

definition emptyCacheErr :: error where
  "emptyCacheErr = OtherErr '' empty cache event, current revision is %d''"

definition lowErr :: error where
  "lowErr = OtherErr ''cache event oldest revision is %d newer than requested revision %d''"

text \<open>
  A watch that fails cancels its context, on which a goroutine deletes the watcher again. The result of a
  successful one is its channel, what was sent on the result channel at once, and the revision to forward from.
\<close>

definition cancelWatch :: "nat \<Rightarrow> WatcherHub \<Rightarrow> WatcherHub" where
  "cancelWatch sub w = w\<lparr>dropping := dropping w @ [sub]\<rparr>"

definition Watch ::
    "bytes \<Rightarrow> rev \<Rightarrow> 's backend \<Rightarrow> WatcherHub \<Rightarrow> ((error + nat \<times> Event list list \<times> rev) \<times> WatcherHub) option" where
  "Watch p revision b w =
     (let (sub, w1) = AddWatcher w in
      if revision = 0 then Some (Inr (sub, [], revision), w1)
      else
        case FindEvents (watchCache b) revision of
          None \<Rightarrow> None
        | Some ret \<Rightarrow>
            if fempty ret then
              if revision > GetCurrentRevision b then Some (Inr (sub, [], revision), w1)
              else Some (Inl emptyCacheErr, cancelWatch sub w1)
            else if high ret then Some (Inr (sub, [], revision), w1)
            else if low ret then
              (case foldest ret of None \<Rightarrow> None | Some _ \<Rightarrow> Some (Inl lowErr, cancelWatch sub w1))
            else
              case fnewest ret of
                None \<Rightarrow> None
              | Some n \<Rightarrow>
                  if \<exists>e \<in> set (fevents ret). e = None then None
                  else
                    let evs = filterByPrefix (map the (fevents ret)) p in
                    if length evs > 0 then
                      map_option (\<lambda>bs. (Inr (sub, bs, EvRevision n + 1), w1)) (catchUpEvents evs)
                    else Some (Inr (sub, [], revision), w1))"

section \<open>Batches\<close>

lemma batches_spec:
  assumes "0 < n"
  shows "\<exists>bs. batches n evs = Some bs \<and> concat bs = evs \<and> (\<forall>b \<in> set bs. length b \<le> n)
    \<and> (evs \<noteq> [] \<longrightarrow> (\<forall>b \<in> set bs. b \<noteq> []) \<and> (length bs - 1) * n < length evs)"
proof (induction "length evs" arbitrary: evs rule: less_induct)
  case less
  show ?case
  proof (cases "length evs > n")
    case True
    then have "length (drop n evs) < length evs" using assms by simp
    from less[OF this] obtain bs where bs: "batches n (drop n evs) = Some bs" "concat bs = drop n evs" "\<forall>b \<in> set bs. length b \<le> n"
        "drop n evs \<noteq> [] \<longrightarrow> (\<forall>b \<in> set bs. b \<noteq> []) \<and> (length bs - 1) * n < length (drop n evs)"
      by blast
    have "bs \<noteq> []" using bs(2) True by auto
    then have "length bs = Suc (length bs - 1)" by simp
    then have "length bs * n = n + (length bs - 1) * n" by (metis mult_Suc)
    then have "length bs * n < length evs" using bs(4) True by auto
    then show ?thesis using bs True assms by (subst batches.simps) auto
  next
    case False
    then show ?thesis by (subst batches.simps) auto
  qed
qed

lemma catchUpBatchSize_pos: "0 < catchUpBatchSize n"
  by (auto simp: catchUpBatchSize_def resultChanLength_def eventBatchSize_def div_greater_zero_iff)

lemma few_batches:
  assumes "m * catchUpBatchSize n < n"
  shows "m < resultChanLength"
proof (cases "n > resultChanLength * eventBatchSize")
  case False
  then have "m * 300 < 30000" using assms by (simp add: catchUpBatchSize_def resultChanLength_def eventBatchSize_def)
  then show ?thesis by (simp add: resultChanLength_def)
next
  case True
  define q where "q = n div 99"
  have n: "n = 99 * q + n mod 99" "n mod 99 < 99" by (simp_all add: q_def)
  have "300 < q" using True n unfolding resultChanLength_def eventBatchSize_def by simp
  have "m * q < 99 * q + 99" using assms n True by (simp add: catchUpBatchSize_def resultChanLength_def q_def)
  also have "\<dots> \<le> 100 * q" using \<open>300 < q\<close> by simp
  finally show ?thesis by (simp add: resultChanLength_def)
qed

text \<open>
  Catching up never blocks: however many events the cache holds, \<^verbatim>\<open>catchUpEvents\<close> ends, sends all of them
  in order and without loss, and sends at most as many batches as the result channel has room for.
\<close>

lemma catchUpEvents_spec:
  "\<exists>bs. catchUpEvents evs = Some bs \<and> concat bs = evs \<and> length bs \<le> resultChanLength"
proof -
  obtain bs where bs: "catchUpEvents evs = Some bs" "concat bs = evs"
      "evs \<noteq> [] \<longrightarrow> (length bs - 1) * catchUpBatchSize (length evs) < length evs"
    using batches_spec[OF catchUpBatchSize_pos] unfolding catchUpEvents_def by blast
  show ?thesis
  proof (cases "evs = []")
    case True
    then have "bs = [[]]" using bs(1) by (simp add: catchUpEvents_def batches.simps)
    then show ?thesis using bs by (simp add: resultChanLength_def)
  next
    case False
    then show ?thesis using bs few_batches by fastforce
  qed
qed

section \<open>What a watch sends\<close>

definition wanted :: "bytes \<Rightarrow> rev \<Rightarrow> Event \<Rightarrow> bool" where
  "wanted p R e \<longleftrightarrow> prefix p (Key (Kv e)) \<and> R \<le> EvRevision e"

lemma filterByRevision_sorted:
  "sorted (map EvRevision evs) \<Longrightarrow> filterByRevision evs r = filter (\<lambda>e. r \<le> EvRevision e) evs"
proof (induction evs)
  case (Cons e evs)
  show ?case
  proof (cases "EvRevision e < r")
    case False
    then have "\<forall>x \<in> set evs. r \<le> EvRevision x" using Cons.prems by auto
    then show ?thesis using False by auto
  qed (use Cons in auto)
qed simp

lemma concat_processEvents:
  assumes "sorted (map EvRevision (concat input))"
  shows "concat (processEvents p r input) = filter (wanted p r) (concat input)"
  using assms
proof (induction input)
  case (Cons evs input)
  have "filterByPrefix (filterByRevision evs r) p = filter (wanted p r) evs"
    using Cons.prems by (auto simp: filterByRevision_sorted sorted_append filterByPrefix_def wanted_def intro!: filter_cong)
  then show ?case using Cons by (simp add: processEvents_def sorted_append)
qed (simp add: processEvents_def)

lemma wanted_later:
  assumes srt: "sorted_wrt (<) (map EvRevision ((pre @ mid) @ D1))" and ne: "pre @ mid \<noteq> []"
    and R: "R \<le> EvRevision (last (pre @ mid))" "EvRevision (last (pre @ mid)) < MaxUint64"
  shows "filter (wanted p (EvRevision (last (pre @ mid)) + 1)) (mid @ D1) = filter (wanted p R) D1"
proof -
  let ?n = "EvRevision (last (pre @ mid))"
  have le: "EvRevision e \<le> ?n" if "e \<in> set (pre @ mid)" for e
  proof -
    have "sorted_wrt (<) (map EvRevision (pre @ mid))" using srt by (metis map_append sorted_wrt_append)
    then have "sorted (map EvRevision (pre @ mid))" by (rule strict_sorted_imp_sorted)
    then show ?thesis using that ne by (cases "pre @ mid" rule: rev_cases) (auto simp: sorted_append)
  qed
  have gt: "?n < EvRevision e" if "e \<in> set D1" for e
    using srt that last_in_set[OF ne] by (auto simp: sorted_wrt_append)
  have succ: "?n < ?n + 1" "?n < r \<Longrightarrow> ?n + 1 \<le> r" for r
    using succ_greater[OF R(2)] by (simp_all add: inc_le)
  have "filter (wanted p (?n + 1)) mid = []"
    using le succ(1) by (auto simp: filter_empty_conv wanted_def) (meson UnI2 leD order_le_less_trans)
  moreover have "?n + 1 \<le> EvRevision e" "R \<le> EvRevision e" if "e \<in> set D1" for e
    using gt[OF that] succ(2) R(1) by simp_all
  then have "filter (wanted p (?n + 1)) D1 = filter (wanted p R) D1" by (intro filter_cong) (auto simp: wanted_def)
  ultimately show ?thesis by simp
qed

section \<open>Growth\<close>

lemma step_grows:
  assumes "seq_step st st'"
  shows "prefix (watchChan (sb st)) (watchChan (sb st')) \<and> prefix (delivered (sb st)) (delivered (sb st'))"
  using assms
proof (induction rule: seq_step.induct)
  case (seq_deal prev st r e b')
  then show ?case by (auto simp: deal_eq Let_def delivered_def)
next
  case (seq_notify r st key val pre valid ty err b')
  then show ?case using notify_frame[OF seq_notify(2)] by (simp add: delivered_def)
next
  case (seq_collect st)
  then show ?case
    by (auto simp: collectStep_def flushEvents_def delivered_def Let_def SetCurrentRevision_def Append_def split: option.splits)
qed (simp_all add: delivered_def)

lemma reach_grows:
  assumes "seq_reach st st'"
  shows "prefix (watchChan (sb st)) (watchChan (sb st')) \<and> prefix (delivered (sb st)) (delivered (sb st'))"
  using assms
proof (induction rule: seq_reach.induct)
  case (seq_next st' st'')
  note g = step_grows[OF seq_next(2)]
  show ?case using prefix_order.trans[OF conjunct1[OF seq_next(3)] conjunct1[OF g]]
      prefix_order.trans[OF conjunct2[OF seq_next(3)] conjunct2[OF g]] by simp
qed simp

lemma reach_trans: "seq_reach st' st'' \<Longrightarrow> seq_reach st st' \<Longrightarrow> seq_reach st st''"
  by (induction rule: seq_reach.induct) (auto intro: seq_reach.intros)


section \<open>A watch and the hub together\<close>

text \<open>The events in the cache, and those a watch from revision \<open>R\<close> sends at once, over the list of cached events.\<close>

lemma Watch_over_cache:
  assumes inv: "seq_inv c0 st"
  defines "D0 \<equiv> delivered (sb st)"
  shows "\<exists>res w' L. Watch p R (sb st) w = Some (res, w') \<and> L = ring_list (watchCache (sb st)) \<and> (L = [] \<longrightarrow> D0 = [])
    \<and> sorted (map EvRevision L)
    \<and> (\<forall>err. res = Inl err \<longrightarrow> R \<noteq> 0 \<and> (if L = [] then R \<le> GetCurrentRevision (sb st) else R < EvRevision (hd L)))
    \<and> (\<forall>sub bs from. res = Inr (sub, bs, from) \<longrightarrow> (bs = [] \<and> from = R \<and> (R = 0 \<or> filter (wanted p R) D0 = []))
         \<or> (R \<noteq> 0 \<and> L \<noteq> [] \<and> concat bs = filter (wanted p R) D0 \<and> from = EvRevision (last D0) + 1 \<and> R \<le> EvRevision (last D0)))"
proof -
  let ?b = "sb st" and ?n = "length D0 - rl (watchCache (sb st))"
  have C: "ring_inv (watchCache ?b)" "ring_list (watchCache ?b) = drop ?n D0"
    using seq_invD(10)[OF inv] by (auto simp: cache_ok_def D0_def)
  have srt: "sorted_wrt (<) (map EvRevision D0)" using seq_inv_sorted[OF inv] by (simp add: D0_def)
  define L where "L = drop ?n D0"
  obtain K where D0: "D0 = K @ L" unfolding L_def by (metis append_take_drop_id)
  have "sorted_wrt (<) (map EvRevision (K @ L))" using srt D0 by metis
  then have srtL: "sorted_wrt (<) (map EvRevision L)" and before: "\<And>x e. x \<in> set K \<Longrightarrow> e \<in> set L \<Longrightarrow> EvRevision x < EvRevision e"
    by (auto simp: sorted_wrt_append)
  have "0 < rl (watchCache ?b)" using C(1) by (simp add: ring_inv_def)
  then have Lne: "L = [] \<longrightarrow> D0 = []" by (cases D0) (auto simp: L_def)
  have find: "FindEvents (watchCache ?b) R = Some (find_spec L R)"
    using FindEvents_eq[OF C(1)] C(2) srtL by (simp add: L_def strict_sorted_imp_sorted)
  let ?evs = "filterByPrefix (filter (\<lambda>ev. R \<le> EvRevision ev) L) p"
  obtain bs where bs: "catchUpEvents ?evs = Some bs" "concat bs = ?evs" using catchUpEvents_spec by blast
  have evs: "?evs = filter (wanted p R) L" by (auto simp: filterByPrefix_def wanted_def intro!: filter_cong)
  have all: "filter (wanted p R) D0 = filter (wanted p R) L" if "L \<noteq> []" "EvRevision (hd L) \<le> R"
  proof -
    have "filter (wanted p R) K = []"
      using before[OF _ hd_in_set[OF that(1)]] that(2) by (auto simp: filter_empty_conv wanted_def dest!: order_less_le_trans)
    then show ?thesis by (simp add: D0)
  qed
  have high: "filter (wanted p R) D0 = []" if "L \<noteq> []" "EvRevision (last L) < R"
  proof -
    have "EvRevision e \<le> EvRevision (last L)" if "e \<in> set D0" for e
    proof -
      have "last D0 = last L" "D0 \<noteq> []" using \<open>L \<noteq> []\<close> D0 by simp_all
      then show ?thesis using that srt by (cases D0 rule: rev_cases) (auto simp: sorted_wrt_append intro: less_imp_le)
    qed
    then show ?thesis using that(2) by (auto simp: filter_empty_conv wanted_def) (meson leD order_le_less_trans)
  qed
  have last: "L \<noteq> [] \<Longrightarrow> last D0 = last L" using D0 by simp
  let ?w1 = "snd (AddWatcher w)" and ?sub = "fst (AddWatcher w)"
  define out where "out = (if R = 0 then (Inr (?sub, [], R), ?w1)
     else if L = [] then if R > GetCurrentRevision ?b then (Inr (?sub, [], R), ?w1) else (Inl emptyCacheErr, cancelWatch ?sub ?w1)
     else if R > EvRevision (last L) then (Inr (?sub, [], R), ?w1)
     else if R < EvRevision (hd L) then (Inl lowErr, cancelWatch ?sub ?w1)
     else if length ?evs > 0 then (Inr (?sub, bs, EvRevision (last L) + 1), ?w1) else (Inr (?sub, [], R), ?w1))"
  have W: "Watch p R ?b w = Some out"
    using bs(1) by (auto simp: Watch_def find find_spec_def emptyRet_def out_def Let_def o_def split: prod.splits)
  have "R \<noteq> 0 \<and> (if L = [] then R \<le> GetCurrentRevision ?b else R < EvRevision (hd L))" if "fst out = Inl err" for err
    using that by (simp add: out_def not_less split: if_splits)
  moreover have "(bs' = [] \<and> from = R \<and> (R = 0 \<or> filter (wanted p R) D0 = []))
         \<or> (R \<noteq> 0 \<and> L \<noteq> [] \<and> concat bs' = filter (wanted p R) D0 \<and> from = EvRevision (last D0) + 1 \<and> R \<le> EvRevision (last D0))"
    if res: "fst out = Inr (sub, bs', from)" for sub bs' "from"
  proof -
    consider "R = 0" | "L = []" | "L \<noteq> []" "EvRevision (last L) < R"
      | "R \<noteq> 0" "L \<noteq> []" "R \<le> EvRevision (last L)" "EvRevision (hd L) \<le> R"
      using res by (fastforce simp: out_def split: if_splits)
    then show ?thesis
    proof cases
      case 4
      then have "out = (if length ?evs > 0 then (Inr (?sub, bs, EvRevision (last L) + 1), ?w1) else (Inr (?sub, [], R), ?w1))"
        by (simp add: out_def leD)
      then show ?thesis using res all[OF 4(2,4)] bs(2) evs 4 last by (auto split: if_splits)
    qed (use res Lne high in \<open>auto simp: out_def split: if_splits\<close>)
  qed
  ultimately have "(\<forall>err. fst out = Inl err \<longrightarrow> R \<noteq> 0 \<and> (if L = [] then R \<le> GetCurrentRevision ?b else R < EvRevision (hd L)))
    \<and> (\<forall>sub bs from. fst out = Inr (sub, bs, from) \<longrightarrow> (bs = [] \<and> from = R \<and> (R = 0 \<or> filter (wanted p R) D0 = []))
         \<or> (R \<noteq> 0 \<and> L \<noteq> [] \<and> concat bs = filter (wanted p R) D0 \<and> from = EvRevision (last D0) + 1 \<and> R \<le> EvRevision (last D0)))"
    by blast
  moreover have "Watch p R ?b w = Some (fst out, snd out)" using W by simp
  moreover have "L = ring_list (watchCache ?b)" using C(2) by (simp add: L_def)
  ultimately show ?thesis using Lne strict_sorted_imp_sorted[OF srtL] by blast
qed

text \<open>
  A watch neither loses nor repeats an event. Let a watch start in any reachable state, after the hub took
  \<open>n0\<close> batches from the collector, and let the hub stream the later ones to it. The watch never panics; it is refused
  only when the cache does not reach back to the requested revision. Otherwise what it sends - the
  events from the cache, then what it forwards - is exactly the events under the prefix with at least the
  requested revision, in order, once the collector has handed over what the cache had.
\<close>

lemma Watch_complete:
  fixes st st' :: "'s seq"
  assumes "seq_reach (seq_init s conf now start) st" "int64_ok start" "seq_reach st st'"
    and n0: "n0 \<le> length (watchChan (sb st))" and flushed: "length (delivered (sb st)) \<le> length (concat (watchChan (sb st')))"
  shows "\<exists>res w'. Watch p R (sb st) w = Some (res, w')
    \<and> (\<forall>err. res = Inl err \<longrightarrow> R \<noteq> 0 \<and> (delivered (sb st) = [] \<longrightarrow> R \<le> GetCurrentRevision (sb st))
         \<and> (\<forall>e \<in> set (ring_list (watchCache (sb st))). R < EvRevision e))
    \<and> (\<forall>sub bs from. res = Inr (sub, bs, from) \<longrightarrow>
         concat bs @ concat (processEvents p from (drop n0 (watchChan (sb st'))))
         = filter (wanted p R) (if R = 0 then concat (drop n0 (watchChan (sb st'))) else concat (watchChan (sb st'))))"
proof -
  note inv = seq_inv_reach[OF assms(1) seq_inv_init[OF assms(2)]]
  note inv' = seq_inv_reach[OF reach_trans[OF assms(3,1)] seq_inv_init[OF assms(2)]]
  define D0 where "D0 = delivered (sb st)"
  define pre where "pre = concat (take n0 (watchChan (sb st')))"
  define input where "input = drop n0 (watchChan (sb st'))"
  have D: "concat (watchChan (sb st')) = pre @ concat input"
    by (simp add: pre_def input_def flip: concat_append)
  have srt: "sorted_wrt (<) (map EvRevision (pre @ concat input))"
    using seq_inv_sorted[OF inv'] unfolding delivered_def D by (metis map_append sorted_wrt_append)
  note g = reach_grows[OF assms(3)]
  have "prefix D0 (pre @ concat input)"
    using g flushed unfolding D0_def D[symmetric] delivered_def[of "sb st'"] by (metis prefix_length_prefix prefixI)
  moreover have "prefix pre D0"
  proof -
    have "take n0 (watchChan (sb st')) = take n0 (watchChan (sb st))" using g n0 by (auto simp: prefix_def)
    then have "D0 = pre @ concat (drop n0 (watchChan (sb st))) @ pending (sb st)"
      unfolding D0_def delivered_def pre_def by (metis append_assoc append_take_drop_id concat_append)
    then show ?thesis by simp
  qed
  ultimately obtain mid D1 where mid: "D0 = pre @ mid" "concat input = mid @ D1"
    by (auto simp: prefix_def)
  have proc: "concat (processEvents p r input) = filter (wanted p r) (mid @ D1)" for r
  proof -
    have "sorted_wrt (<) (map EvRevision (concat input))" using srt by (metis map_append sorted_wrt_append)
    then show ?thesis using concat_processEvents[of input p r] strict_sorted_imp_sorted mid(2) by metis
  qed
  have last: "EvRevision (last D0) < MaxUint64" if "D0 \<noteq> []"
  proof -
    have "last D0 \<in> set D0" using that by simp
    then have "unat (EvRevision (last D0)) \<le> cm (sb st)"
      using should_deliver_sorted[of "noted st" "unat start" "cm (sb st)"] seq_invD[OF inv] by (auto simp: D0_def)
    then show ?thesis using seq_invD(2,3)[OF inv] by (intro small_less_Max) linarith
  qed
  obtain res w' L where W: "Watch p R (sb st) w = Some (res, w')" "L = ring_list (watchCache (sb st))" "L = [] \<longrightarrow> D0 = []"
      "sorted (map EvRevision L)"
      "\<And>err. res = Inl err \<Longrightarrow> R \<noteq> 0 \<and> (if L = [] then R \<le> GetCurrentRevision (sb st) else R < EvRevision (hd L))"
      "\<And>sub bs from. res = Inr (sub, bs, from) \<Longrightarrow> (bs = [] \<and> from = R \<and> (R = 0 \<or> filter (wanted p R) D0 = []))
         \<or> (R \<noteq> 0 \<and> L \<noteq> [] \<and> concat bs = filter (wanted p R) D0 \<and> from = EvRevision (last D0) + 1 \<and> R \<le> EvRevision (last D0))"
    using Watch_over_cache[OF inv, of p R w] unfolding D0_def by blast
  show ?thesis
  proof (intro exI conjI allI impI, rule W(1))
    fix err assume e: "res = Inl err"
    show "R \<noteq> 0" using W(5)[OF e] by simp
    show "R \<le> GetCurrentRevision (sb st)" if "delivered (sb st) = []"
    proof -
      have "L = []" using seq_invD(10)[OF inv] that W(2) by (simp add: cache_ok_def)
      then show ?thesis using W(5)[OF e] by simp
    qed
    show "\<forall>e \<in> set (ring_list (watchCache (sb st))). R < EvRevision e"
    proof
      fix x assume "x \<in> set (ring_list (watchCache (sb st)))"
      then have x: "x \<in> set L" using W(2) by simp
      then have "EvRevision (hd L) \<le> EvRevision x" using W(4) by (cases L) auto
      moreover have "L \<noteq> []" using x by auto
      ultimately show "R < EvRevision x" using W(5)[OF e] by auto
    qed
  next
    fix sub bs "from" assume "res = Inr (sub, bs, from)"
    from W(6)[OF this]
    have "concat bs @ concat (processEvents p from input) = filter (wanted p R) (if R = 0 then concat input else pre @ concat input)"
    proof
      assume "bs = [] \<and> from = R \<and> (R = 0 \<or> filter (wanted p R) D0 = [])"
      then show ?thesis using proc mid by auto
    next
      assume a: "R \<noteq> 0 \<and> L \<noteq> [] \<and> concat bs = filter (wanted p R) D0 \<and> from = EvRevision (last D0) + 1 \<and> R \<le> EvRevision (last D0)"
      have ne: "pre @ mid \<noteq> []"
      proof
        assume "pre @ mid = []"
        then have "delivered (sb st) = []" using mid(1) D0_def by simp
        then show False using seq_invD(10)[OF inv] W(2) a by (simp add: cache_ok_def)
      qed
      have "filter (wanted p (EvRevision (last (pre @ mid)) + 1)) (mid @ D1) = filter (wanted p R) D1"
        using wanted_later[OF _ ne, of D1 R p] srt mid last a ne by simp
      then show ?thesis using proc a mid by simp
    qed
    then show "concat bs @ concat (processEvents p from (drop n0 (watchChan (sb st'))))
         = filter (wanted p R) (if R = 0 then concat (drop n0 (watchChan (sb st'))) else concat (watchChan (sb st')))"
      unfolding D by (simp add: input_def)
  qed
qed

end
