(* ===== verification/Retry.thy ===== *)
theory Retry
  imports Txn
begin

text \<open>
  \<^verbatim>\<open>pkg/backend/retry/retry.go\<close>: the loop that settles uncertain writes. The oldest one is looked up: if it is
  the newest version of its key it took effect, and is written again at a new revision and announced;
  otherwise there is nothing to do. The queue is that of \<open>RetryQueue\<close>, the getter and the dispatcher are
  the backend's \<^verbatim>\<open>getLatestInternalVal\<close> and \<^verbatim>\<open>notify\<close>.
\<close>

section \<open>Operations\<close>

definition Size_retry :: "'s backend \<Rightarrow> int" where
  "Size_retry b = size_queue (retryQueue b)"

definition overwrite ::
    "'s kv_storage \<Rightarrow> bytes \<Rightarrow> rev \<Rightarrow> 's backend \<Rightarrow> ((rev \<times> error option) \<times> 's backend) option" where
  "overwrite kv key prevOpRev b =
     (case getLatestInternalVal kv (kvState b) key of
        None \<Rightarrow> None
      | Some ((_, _, Some err), s) \<Rightarrow>
          if err = ErrKeyNotFound then Some ((0, None), b\<lparr>kvState := s\<rparr>)
          else Some ((0, Some err), b\<lparr>kvState := s\<rparr>)
      | Some ((val, modRev, None), s) \<Rightarrow>
          let val = (case val of None \<Rightarrow> [] | Some v \<Rightarrow> v) in
          if length val = 0 \<or> modRev \<noteq> prevOpRev then Some ((0, None), b\<lparr>kvState := s\<rparr>)
          else
            case Deal (tso b) of
              (Inl err, t) \<Rightarrow> Some ((0, Some err), b\<lparr>kvState := s, tso := t\<rparr>)
            | (Inr rv, t) \<Rightarrow>
                let flag = (if val = tombStoneBytes then [0] else []);
                    (err, s') = kv_Commit kv s
                      [CAS (EncodeRevisionKey key) (uint64ToBytes rv @ flag) (uint64ToBytes prevOpRev @ flag) 0,
                       Put (EncodeObjectKey key rv) val 0]
                in Some ((rv, err), b\<lparr>kvState := s', tso := t\<rparr>))"

text \<open>\<^verbatim>\<open>retry\<close>; the result tells whether to leave the loop until the next tick.\<close>

definition retry :: "'s kv_storage \<Rightarrow> int \<Rightarrow> 's backend \<Rightarrow> (bool \<times> 's backend) option" where
  "retry kv retryInterval b =
     (case getHead (retryQueue b) of
        None \<Rightarrow> Some (True, b)
      | Some (ev, t) \<Rightarrow>
          if clock b - t < retryInterval then Some (True, b)
          else
            case overwrite kv (WKey ev) (WRevision ev) b of
              None \<Rightarrow> None
            | Some ((rv, err), b1) \<Rightarrow>
                if rv = 0 then
                  if err \<noteq> None then Some (True, b1)
                  else Some (False, b1\<lparr>retryQueue := pop (retryQueue b1)\<rparr>)
                else
                  map_option (\<lambda>b2. (False, b2\<lparr>retryQueue := pop (retryQueue b2)\<rparr>))
                    (notify (WKey ev) (WValue ev) rv (WPrevRevision ev) (err = None) (WResourceVerb ev) err b1))"

text \<open>The loop of one tick of \<^verbatim>\<open>Run\<close>, with fuel; \<open>None\<close> also when it runs out.\<close>

fun retryLoop :: "'s kv_storage \<Rightarrow> int \<Rightarrow> nat \<Rightarrow> 's backend \<Rightarrow> 's backend option" where
  "retryLoop kv retryInterval 0 b = None"
| "retryLoop kv retryInterval (Suc fuel) b =
     (case retry kv retryInterval b of
        None \<Rightarrow> None
      | Some (True, b') \<Rightarrow> Some b'
      | Some (False, b') \<Rightarrow> retryLoop kv retryInterval fuel b')"


section \<open>One round\<close>

definition settles :: "bytes \<Rightarrow> rev \<Rightarrow> kvmap \<Rightarrow> bytes \<Rightarrow> bool" where
  "settles key r m v \<longleftrightarrow> latest m key MaxUint64 = Some r \<and> m (EncodeObjectKey key r) = Some v \<and> v \<noteq> []"

lemma overwrite_settles:
  assumes eng: "kv_engine kv view snap ok" and b: "store_ok view ok b" "room b" and key: "wf_key key"
  shows "\<exists>rv e b1. overwrite kv key r0 b = Some ((rv, e), b1) \<and> store_ok view ok b1 \<and> retryQueue b1 = retryQueue b
    \<and> watchEventsRingBuffer b1 = watchEventsRingBuffer b
    \<and> ((rv = 0 \<and> tso b1 = tso b \<and> view (kvState b1) = view (kvState b) \<and> (e = None \<longrightarrow> (\<nexists>v. settles key r0 (view (kvState b)) v)))
       \<or> (rv = dealRevision (tso b) + 1 \<and> tso b1 = (tso b)\<lparr>dealRevision := rv\<rparr>
          \<and> (\<exists>v. settles key r0 (view (kvState b)) v
               \<and> wrote key rv (if v = tombStoneBytes then None else Some v) True e
                    (visible (view (kvState b))) (visible (view (kvState b1))))))"
proof -
  let ?m = "view (kvState b)" and ?d = "dealRevision (tso b)"
  have m: "ok (kvState b)" "mvcc_inv ?m" "bounded ?m ?d" using b(1) by (auto simp: store_ok_def)
  have "wf_store ?m" using m(2) by (simp add: mvcc_inv_def)
  from kv_engine.getInternalVal_reads[OF eng m(1) this key, of 0]
  obtain val r err s where g: "getLatestInternalVal kv (kvState b) key = Some ((val, r, err), s)" "ok s" "view s = ?m"
      "internal_answer ?m key MaxUint64 (val, r, err)"
    by (fastforce simp: getLatestInternalVal_def read_rev_def)
  have same: "store_ok view ok (b\<lparr>kvState := s\<rparr>)" using g(2,3) m by (simp add: store_ok_def)
  show ?thesis
  proof (cases err)
    case (Some e)
    then have "e = ErrKeyNotFound \<Longrightarrow> latest ?m key MaxUint64 = None" using g(4) by (auto simp: internal_answer_def)
    then show ?thesis using g Some same by (auto simp: overwrite_def settles_def)
  next
    case None
    then have l: "latest ?m key MaxUint64 = Some r" "?m (EncodeObjectKey key r) = val"
      using g(4) by (simp_all add: internal_answer_def)
    from l(1) have "?m (EncodeObjectKey key r) \<noteq> None" by (blast dest: latest_Some_iff[THEN iffD1])
    then obtain v where "?m (EncodeObjectKey key r) = Some v" by blast
    note v = trans[OF l(2)[symmetric] this] l(1) this
    show ?thesis
    proof (cases "v = [] \<or> r \<noteq> r0")
      case True
      then have "overwrite kv key r0 b = Some ((0, None), b\<lparr>kvState := s\<rparr>)" "\<nexists>v. settles key r0 ?m v"
        using g(1) None v by (auto simp: overwrite_def settles_def)
      then show ?thesis using g(3) same by simp
    next
      case False
      define del where "del \<longleftrightarrow> v = tombStoneBytes"
      obtain e s' where c: "kv_Commit kv s [CAS (EncodeRevisionKey key) (index_val (?d + 1) del) (index_val r0 del) 0,
                       Put (EncodeObjectKey key (?d + 1)) v 0] = (e, s')" by fastforce
      have ov: "overwrite kv key r0 b = Some ((?d + 1, e), b\<lparr>kvState := s', tso := (tso b)\<lparr>dealRevision := ?d + 1\<rparr>\<rparr>)"
        using g(1) None v(1) False c by (simp add: overwrite_def Deal_def Let_def index_val_def del_def)
      have o: "ok s'" "outcome e (cas_write (index_val r0 del) key (?d + 1) del v) ?m (view s')"
        using kv_engine.commit_law[OF eng g(2) c] g(3) by (auto simp: outcome_batch[symmetric] apply_batch_cas)
      have "mvcc_inv (view s') \<and> bounded (view s') (?d + 1) \<and> (case e of
         None \<Rightarrow> cas_write (index_val r0 del) key (?d + 1) del v ?m \<noteq> None
                 \<and> visible (view s') = abs_write key (?d + 1) (if del then None else Some v) (visible ?m)
       | Some err \<Rightarrow> view s' = ?m \<or> (errors_is err ErrUncertainResult
                       \<and> cas_write (index_val r0 del) key (?d + 1) del v ?m \<noteq> None
                       \<and> visible (view s') = abs_write key (?d + 1) (if del then None else Some v) (visible ?m)))"
        using room_next(1)[OF b(2)] cas_write_SomeD by (intro outcome_visible[OF m(2,3) _ key o(2)]) (auto simp: del_def)
      then have "wrote key (?d + 1) (if v = tombStoneBytes then None else Some v) True e (visible ?m) (visible (view s'))"
        "store_ok view ok (b\<lparr>kvState := s', tso := (tso b)\<lparr>dealRevision := ?d + 1\<rparr>\<rparr>)"
        using o(1) by (auto simp: wrote_def store_ok_def del_def split: option.splits)
      moreover have "settles key r0 ?m v" using v False by (simp add: settles_def)
      ultimately show ?thesis unfolding ov
        by (intro exI[of _ "?d + 1"] exI[of _ e] exI[of _ "b\<lparr>kvState := s', tso := (tso b)\<lparr>dealRevision := ?d + 1\<rparr>\<rparr>"]
              exI[of _ v] conjI disjI2) simp_all
    qed
  qed
qed

lemma rewritten_event:
  "\<lparr>WRevision = r, WPrevRevision = WPrevRevision ev, WResourceVerb = WResourceVerb ev, WValid = ok, WKey = WKey ev,
    WValue = WValue ev, WErr = e\<rparr> = (ev :: WatchEvent)\<lparr>WRevision := r, WValid := ok, WErr := e\<rparr>"
  by (cases ev) simp

text \<open>An overwrite changes the revision of the newest value, not the value.\<close>

lemma wrote_keeps_value:
  assumes "settles key r0 m v" "wrote key (d + 1) (if v = tombStoneBytes then None else Some v) True e (visible m) (visible m')"
  shows "map_option fst (visible m' k MaxUint64) = map_option fst (visible m k MaxUint64)"
    and "R < d + 1 \<Longrightarrow> visible m' k R = visible m k R"
proof -
  have cur: "visible m key MaxUint64 = (if v = tombStoneBytes then None else Some (v, r0))"
    using assms(1) by (auto simp: settles_def visible_def)
  have "visible m' = visible m \<or> visible m' = abs_write key (d + 1) (if v = tombStoneBytes then None else Some v) (visible m)"
    using assms(2) by (auto simp: wrote_def split: option.splits)
  then show "map_option fst (visible m' k MaxUint64) = map_option fst (visible m k MaxUint64)"
    "R < d + 1 \<Longrightarrow> visible m' k R = visible m k R"
    using cur by (auto simp: abs_write_def)
qed

lemma retry_round:
  assumes "kv_engine kv view snap ok" "store_ok view ok b" "room b" "queue_inv (retryQueue b)"
    and "getHead (retryQueue b) = Some (ev, t)" "wf_key (WKey ev)"
  defines "m \<equiv> view (kvState b)" and "d \<equiv> dealRevision (tso b)"
  shows "\<exists>brk b'. retry kv interval b = Some (brk, b') \<and> store_ok view ok b'
    \<and> (brk \<longrightarrow> retryQueue b' = retryQueue b \<and> view (kvState b') = m \<and> tso b' = tso b
         \<and> watchEventsRingBuffer b' = watchEventsRingBuffer b)
    \<and> queue_inv (retryQueue b')
    \<and> (\<not> brk \<longrightarrow> entries (retryQueue b') = tl (entries (retryQueue b)) \<and>
         ((view (kvState b') = m \<and> watchEventsRingBuffer b' = watchEventsRingBuffer b \<and> tso b' = tso b
             \<and> (\<nexists>v. settles (WKey ev) (WRevision ev) m v))
          \<or> (\<exists>v e. settles (WKey ev) (WRevision ev) m v \<and> tso b' = (tso b)\<lparr>dealRevision := d + 1\<rparr>
               \<and> wrote (WKey ev) (d + 1) (if v = tombStoneBytes then None else Some v) True e (visible m) (visible (view (kvState b')))
               \<and> watchEventsRingBuffer b' (unat (d + 1) mod capNat) =
                   Some (ev\<lparr>WRevision := d + 1, WValid := (e = None), WErr := e\<rparr>))))
    \<and> (\<forall>k. map_option fst (visible (view (kvState b')) k MaxUint64) = map_option fst (visible m k MaxUint64))
    \<and> (\<forall>k R. R < d + 1 \<longrightarrow> visible (view (kvState b')) k R = visible m k R)"
proof -
  have pop: "entries (pop (retryQueue b)) = tl (entries (retryQueue b)) \<and> queue_inv (pop (retryQueue b))"
    using pop_refines[OF assms(4)] getHead_refines[OF assms(4)] assms(5) by (auto split: if_splits)
  show ?thesis
  proof (cases "clock b - t < interval")
    case True
    then show ?thesis using assms(2,4,5) by (intro exI[of _ True] exI[of _ b]) (simp add: retry_def m_def)
  next
    case False
    obtain rv e b1 where o: "overwrite kv (WKey ev) (WRevision ev) b = Some ((rv, e), b1)" "store_ok view ok b1"
        "retryQueue b1 = retryQueue b" "watchEventsRingBuffer b1 = watchEventsRingBuffer b"
        "(rv = 0 \<and> tso b1 = tso b \<and> view (kvState b1) = m \<and> (e = None \<longrightarrow> (\<nexists>v. settles (WKey ev) (WRevision ev) m v)))
         \<or> (rv = d + 1 \<and> tso b1 = (tso b)\<lparr>dealRevision := rv\<rparr>
          \<and> (\<exists>v. settles (WKey ev) (WRevision ev) m v
               \<and> wrote (WKey ev) rv (if v = tombStoneBytes then None else Some v) True e (visible m) (visible (view (kvState b1)))))"
      using overwrite_settles[OF assms(1-3,6), of "WRevision ev"] unfolding m_def d_def by blast
    from o(5) show ?thesis
    proof
      assume z: "rv = 0 \<and> tso b1 = tso b \<and> view (kvState b1) = m \<and> (e = None \<longrightarrow> (\<nexists>v. settles (WKey ev) (WRevision ev) m v))"
      have "store_ok view ok (b1\<lparr>retryQueue := pop (retryQueue b1)\<rparr>)" using o(2) by (simp add: store_ok_def)
      moreover have "retry kv interval b =
          Some (if e = None then (False, b1\<lparr>retryQueue := pop (retryQueue b1)\<rparr>) else (True, b1))"
        using o(1) z False assms(5) by (simp add: retry_def)
      ultimately show ?thesis using z o(2-4) pop assms(4)
        by (intro exI[of _ "e \<noteq> None"] exI[of _ "if e = None then b1\<lparr>retryQueue := pop (retryQueue b1)\<rparr> else b1"]) simp
    next
      assume n: "rv = d + 1 \<and> tso b1 = (tso b)\<lparr>dealRevision := rv\<rparr>
          \<and> (\<exists>v. settles (WKey ev) (WRevision ev) m v
               \<and> wrote (WKey ev) rv (if v = tombStoneBytes then None else Some v) True e (visible m) (visible (view (kvState b1))))"
      then obtain v where v: "settles (WKey ev) (WRevision ev) m v"
          "wrote (WKey ev) (d + 1) (if v = tombStoneBytes then None else Some v) True e (visible m) (visible (view (kvState b1)))" by blast
      let ?ev = "ev\<lparr>WRevision := d + 1, WValid := (e = None), WErr := e\<rparr>"
      let ?b2 = "b1\<lparr>watchEventsRingBuffer := (watchEventsRingBuffer b1)(unat (d + 1) mod capNat \<mapsto> ?ev)\<rparr>"
      have "d + 1 - GetCurrentRevision b1 < watchersChanCapacity"
        using assms(3) n by (simp add: room_def d_def GetCurrentRevision_def GetRevision_def)
      then have nt: "notify (WKey ev) (WValue ev) (d + 1) (WPrevRevision ev) (e = None) (WResourceVerb ev) e b1 = Some ?b2"
        using notify_cases[of "d + 1" b1] room_next(2,3)[OF assms(3)] by (simp add: d_def rewritten_event)
      have r: "retry kv interval b = Some (False, ?b2\<lparr>retryQueue := pop (retryQueue ?b2)\<rparr>)"
        using o(1) False assms(5) n nt room_next(3)[OF assms(3)] by (simp add: retry_def d_def)
      have "store_ok view ok (?b2\<lparr>retryQueue := pop (retryQueue ?b2)\<rparr>)" using o(2) by (simp add: store_ok_def)
      then show ?thesis unfolding r using v wrote_keeps_value[OF v] n o(3) pop
        by (intro exI[of _ False] exI[of _ "?b2\<lparr>retryQueue := pop (retryQueue ?b2)\<rparr>"] conjI impI disjI2 exI[of _ v] exI[of _ e])
           simp_all
    qed
  qed
qed

section \<open>One tick\<close>

definition room_for :: "nat \<Rightarrow> 's backend \<Rightarrow> bool" where
  "room_for n b \<longleftrightarrow> (\<forall>i < n. room (b\<lparr>tso := (tso b)\<lparr>dealRevision := dealRevision (tso b) + of_nat i\<rparr>\<rparr>))"

lemma room_cong: "tso b' = tso b \<Longrightarrow> room b' = room b"
  by (simp add: room_def)

lemma room_for_Suc:
  assumes "room_for (Suc n) b"
  shows "room b" and "tso b' = tso b \<or> tso b' = (tso b)\<lparr>dealRevision := dealRevision (tso b) + 1\<rparr> \<Longrightarrow> room_for n b'"
proof -
  have all: "room (b\<lparr>tso := (tso b)\<lparr>dealRevision := dealRevision (tso b) + of_nat i\<rparr>\<rparr>)" if "i < Suc n" for i
    using assms that unfolding room_for_def by blast
  show "room b" using all[of 0] by (simp add: room_def)
  show "room_for n b'" if "tso b' = tso b \<or> tso b' = (tso b)\<lparr>dealRevision := dealRevision (tso b) + 1\<rparr>"
    unfolding room_for_def
  proof (intro allI impI)
    fix i assume "i < n"
    then show "room (b'\<lparr>tso := (tso b')\<lparr>dealRevision := dealRevision (tso b') + of_nat i\<rparr>\<rparr>)"
      using that all[of i] all[of "Suc i"] by (auto simp: room_def algebra_simps)
  qed
qed

lemma retryLoop_rounds:
  assumes "kv_engine kv view snap ok"
  shows "\<lbrakk>store_ok view ok b; queue_inv (retryQueue b); \<forall>(ev, t) \<in> set (entries (retryQueue b)). wf_key (WKey ev);
      room_for (length (entries (retryQueue b))) b; length (entries (retryQueue b)) < fuel\<rbrakk> \<Longrightarrow>
    \<exists>b'. retryLoop kv interval fuel b = Some b' \<and> store_ok view ok b' \<and> queue_inv (retryQueue b')
      \<and> (\<exists>n. entries (retryQueue b') = drop n (entries (retryQueue b)))
      \<and> (\<forall>k. map_option fst (visible (view (kvState b')) k MaxUint64) = map_option fst (visible (view (kvState b)) k MaxUint64))
      \<and> (\<forall>k R. R \<le> dealRevision (tso b) \<longrightarrow> visible (view (kvState b')) k R = visible (view (kvState b)) k R)"
proof (induction fuel arbitrary: b)
  case (Suc fuel)
  show ?case
  proof (cases "entries (retryQueue b)")
    case Nil
    then have "retryLoop kv interval (Suc fuel) b = Some b"
      using getHead_refines[OF Suc.prems(2)] by (simp add: retry_def)
    then show ?thesis using Suc.prems(1,2) by (auto intro: exI[of _ 0])
  next
    case (Cons x xs)
    obtain ev t where x: "x = (ev, t)" by fastforce
    have rm: "room_for (Suc (length xs)) b" using Suc.prems(4) Cons by simp
    have hd: "getHead (retryQueue b) = Some (ev, t)" "wf_key (WKey ev)"
      using getHead_refines[OF Suc.prems(2)] Suc.prems(3) Cons x by auto
    let ?m = "view (kvState b)"
    obtain brk b1 where r: "retry kv interval b = Some (brk, b1)" "store_ok view ok b1" "queue_inv (retryQueue b1)"
        "brk \<Longrightarrow> retryQueue b1 = retryQueue b" "\<not> brk \<Longrightarrow> entries (retryQueue b1) = xs"
        "\<not> brk \<Longrightarrow> tso b1 = tso b \<or> tso b1 = (tso b)\<lparr>dealRevision := dealRevision (tso b) + 1\<rparr>"
        "\<And>k. map_option fst (visible (view (kvState b1)) k MaxUint64) = map_option fst (visible ?m k MaxUint64)"
        "\<And>k R. R < dealRevision (tso b) + 1 \<Longrightarrow> visible (view (kvState b1)) k R = visible ?m k R"
      using retry_round[OF assms Suc.prems(1) room_for_Suc(1)[OF rm] Suc.prems(2) hd, of interval] Cons by auto
    have lt: "R < dealRevision (tso b) + 1" if "R \<le> dealRevision (tso b)" for R
      using that room_next(4)[OF room_for_Suc(1)[OF rm]] by (rule order.strict_trans1)
    show ?thesis
    proof (cases brk)
      case True
      then show ?thesis using r lt by (auto intro: exI[of _ 0])
    next
      case False
      have "dealRevision (tso b) \<le> dealRevision (tso b1)"
        using r(6)[OF False] room_next(4)[OF room_for_Suc(1)[OF rm]] by auto
      then have le: "R \<le> dealRevision (tso b1)" if "R \<le> dealRevision (tso b)" for R using that by simp
      from Suc.IH[of b1] obtain b' n where b': "retryLoop kv interval fuel b1 = Some b'" "store_ok view ok b'"
          "queue_inv (retryQueue b')" "entries (retryQueue b') = drop n xs"
          "\<And>k. map_option fst (visible (view (kvState b')) k MaxUint64) = map_option fst (visible (view (kvState b1)) k MaxUint64)"
          "\<And>k R. R \<le> dealRevision (tso b1) \<Longrightarrow> visible (view (kvState b')) k R = visible (view (kvState b1)) k R"
        using r(2,3) r(5)[OF False] room_for_Suc(2)[OF rm r(6)[OF False]] Suc.prems(3,5) Cons by auto
      then show ?thesis using r(1,7,8) False Cons lt le
        by (intro exI[of _ b']) (auto intro: exI[of _ "Suc n"])
    qed
  qed
qed simp


section \<open>Properties\<close>


text \<open>
  C17: one tick of the retry loop ends, whatever the engine answers: with one round more than there are uncertain writes
  in the queue it returns, without panicking. What is left is a suffix of the queue, no key got another value and no
  read at a revision dealt before the tick changed.
\<close>

theorem retryLoop_terminates:
  assumes "kv_engine kv view snap ok" "store_ok view ok b" "queue_inv (retryQueue b)"
    and "\<forall>(ev, t) \<in> set (entries (retryQueue b)). wf_key (WKey ev)"
    and "room_for (length (entries (retryQueue b))) b" "length (entries (retryQueue b)) < fuel"
  shows "\<exists>b'. retryLoop kv interval fuel b = Some b' \<and> store_ok view ok b'
      \<and> (\<exists>n. entries (retryQueue b') = drop n (entries (retryQueue b)))
      \<and> (\<forall>k. map_option fst (visible (view (kvState b')) k MaxUint64) = map_option fst (visible (view (kvState b)) k MaxUint64))
      \<and> (\<forall>k R. R \<le> dealRevision (tso b) \<longrightarrow> visible (view (kvState b')) k R = visible (view (kvState b)) k R)"
  using retryLoop_rounds[OF assms, of interval] by blast


section \<open>Witnesses\<close>

definition sample_uncertain :: WatchEvent where
  "sample_uncertain = \<lparr>WRevision = 5, WPrevRevision = 0, WResourceVerb = Event_CREATE, WValid = False, WKey = sample_key,
     WValue = [1, 2], WErr = Some ErrUncertainResult\<rparr>"

text \<open>The stored value was written at revision 5 with an uncertain result, and waits in the queue.\<close>

definition sample_retrying :: "(bytes \<times> bytes) list memstore backend" where
  "sample_retrying = sample_backend\<lparr>retryQueue := push (sample_uncertain, 0) emptyQueue, clock := 100\<rparr>"

lemma sample_retrying_queue:
  "queue_inv (retryQueue sample_retrying)" "entries (retryQueue sample_retrying) = [(sample_uncertain, 0)]"
  using rq.fold_enq[of emptyQueue "[(sample_uncertain, 0)]"] emptyQueue_inv by (auto simp: sample_retrying_def)

lemma sample_retrying_facts:
  "store_ok mem_view (\<lambda>s. True) sample_retrying" "room sample_retrying"
  "getHead (retryQueue sample_retrying) = Some (sample_uncertain, 0)" "wf_key (WKey sample_uncertain)"
  using sample_facts getHead_refines[OF sample_retrying_queue(1)] sample_retrying_queue(2)
  by (simp_all add: sample_retrying_def store_ok_def room_def sample_uncertain_def)


theorem retryLoop_terminates_witness:
  "\<exists>b'. retryLoop (memkv alist_skl) 10 2 sample_retrying = Some b' \<and> store_ok mem_view (\<lambda>s. True) b'"
  using retryLoop_terminates[OF alist.mem.kv_engine_axioms sample_retrying_facts(1) sample_retrying_queue(1), of 2 10]
    sample_retrying_facts(2,4)
  by (auto simp: sample_retrying_queue(2) room_for_def room_def)

end
