(* ===== verification/Election.thy ===== *)
theory Election
  imports Txn
begin

text \<open>
  \<^verbatim>\<open>pkg/backend/election/election.go\<close>, the leader lock kept in the store, and \<^verbatim>\<open>pkg/server/service/leader/leader.go\<close>, what a
  server does with it. The election record and its JSON encoding belong to client-go: \<open>'r\<close> is the type of
  records, \<open>holder\<close> reads \<^verbatim>\<open>HolderIdentity\<close>, \<open>marshal\<close> and \<open>unmarshal\<close> stand for \<^verbatim>\<open>json.Marshal\<close> and
  \<^verbatim>\<open>json.Unmarshal\<close> at that type.
\<close>

section \<open>The resource lock\<close>

record 'r resourceLock =
  lk_record :: 'r
  lastVal :: bytes
  electionKey :: bytes
  lk_tso :: rev
  identity :: string

definition getElectionKey :: "bytes \<Rightarrow> bytes" where
  "getElectionKey pre = pre @ bytes_of_string ''/election''"

definition NewResourceLock :: "'r \<Rightarrow> bytes \<Rightarrow> string \<Rightarrow> 'r resourceLock" where
  "NewResourceLock zero pre ident =
     \<lparr>lk_record = zero, lastVal = [], electionKey = getElectionKey pre, lk_tso = 0, identity = ident\<rparr>"

definition notFoundErr :: error where
  "notFoundErr = OtherErr ''%s not found''"

definition uninitializedErr :: error where
  "uninitializedErr = OtherErr ''endpoint not initialized, call get or create first''"

definition getRecord ::
    "'s kv_storage \<Rightarrow> (bytes \<Rightarrow> error + 'r) \<Rightarrow> 'r resourceLock \<Rightarrow> 's \<Rightarrow> error option \<times> 'r resourceLock \<times> 's" where
  "getRecord kv unmarshal r s =
     (case kv_Get kv s (electionKey r) of
        (Inl err, s') \<Rightarrow> (Some (if err = ErrKeyNotFound then notFoundErr else err), r, s')
      | (Inr val, s') \<Rightarrow>
          (case unmarshal val of
             Inl err \<Rightarrow> (Some err, r\<lparr>lastVal := val\<rparr>, s')
           | Inr record \<Rightarrow> (None, r\<lparr>lastVal := val, lk_record := record\<rparr>, s')))"

text \<open>The engines answer timestamp 0 with an error.\<close>

definition getTso :: "'s kv_storage \<Rightarrow> 'r resourceLock \<Rightarrow> 's \<Rightarrow> error option \<times> 'r resourceLock \<times> 's" where
  "getTso kv r s =
     (case kv_GetTimestampOracle kv s of
        (Inl err, s') \<Rightarrow> (Some err, r\<lparr>lk_tso := 0\<rparr>, s')
      | (Inr ts, s') \<Rightarrow> (None, r\<lparr>lk_tso := ts\<rparr>, s'))"

definition lock_Get ::
    "'s kv_storage \<Rightarrow> (bytes \<Rightarrow> error + 'r) \<Rightarrow> 'r resourceLock \<Rightarrow> 's \<Rightarrow> (error + 'r) \<times> 'r resourceLock \<times> 's" where
  "lock_Get kv unmarshal r s =
     (case getRecord kv unmarshal r s of
        (Some err, r1, s1) \<Rightarrow> (Inl err, r1, s1)
      | (None, r1, s1) \<Rightarrow>
          (case getTso kv r1 s1 of
             (Some err, r2, s2) \<Rightarrow> (Inl err, r2, s2)
           | (None, r2, s2) \<Rightarrow> (Inr (lk_record r2), r2, s2)))"

definition lock_Create ::
    "'s kv_storage \<Rightarrow> ('r \<Rightarrow> error + bytes) \<Rightarrow> 'r \<Rightarrow> 'r resourceLock \<Rightarrow> 's \<Rightarrow> error option \<times> 'r resourceLock \<times> 's" where
  "lock_Create kv marshal ler r s =
     (case marshal ler of
        Inl err \<Rightarrow> (Some err, r, s)
      | Inr lerBytes \<Rightarrow>
          (case kv_Commit kv s [PutIfNotExist (electionKey r) lerBytes 0] of
             (Some err, s1) \<Rightarrow> (Some err, r, s1)
           | (None, s1) \<Rightarrow> getTso kv (r\<lparr>lastVal := lerBytes\<rparr>) s1))"

definition lock_Update ::
    "'s kv_storage \<Rightarrow> ('r \<Rightarrow> error + bytes) \<Rightarrow> 'r \<Rightarrow> 'r resourceLock \<Rightarrow> 's \<Rightarrow> error option \<times> 'r resourceLock \<times> 's" where
  "lock_Update kv marshal ler r s =
     (if lk_tso r = 0 then (Some uninitializedErr, r, s)
      else case marshal ler of
             Inl err \<Rightarrow> (Some err, r, s)
           | Inr recordBytes \<Rightarrow>
               (case kv_Commit kv s [CAS (electionKey r) recordBytes (lastVal r) 0] of
                  (Some err, s1) \<Rightarrow> (Some err, r, s1)
                | (None, s1) \<Rightarrow> getTso kv r s1))"

text \<open>\<^verbatim>\<open>%d\<close> of a number.\<close>

definition digit :: "nat \<Rightarrow> char" where
  "digit n = char_of (48 + n)"

fun decimal :: "nat \<Rightarrow> string" where
  "decimal n = (if n < 10 then [digit n] else decimal (n div 10) @ [digit (n mod 10)])"

declare decimal.simps [simp del]

definition Describe :: "('r \<Rightarrow> string) \<Rightarrow> 'r resourceLock \<Rightarrow> string" where
  "Describe holder r =
     (if length (holder (lk_record r)) > 0 then holder (lk_record r) @ '','' @ decimal (unat (lk_tso r))
      else ''empty,'' @ decimal (unat (lk_tso r)))"

section \<open>Leader and version\<close>

text \<open>\<^verbatim>\<open>strings.Split\<close> at a one-character separator, and \<^verbatim>\<open>strconv.ParseUint\<close> to base 10 at 64 bits.\<close>

fun splitAt :: "char \<Rightarrow> string \<Rightarrow> string list" where
  "splitAt c [] = [[]]"
| "splitAt c (x # xs) =
     (if x = c then [] # splitAt c xs
      else case splitAt c xs of [] \<Rightarrow> [[x]] | y # ys \<Rightarrow> (x # y) # ys)"

definition digitVal :: "char \<Rightarrow> nat option" where
  "digitVal c = (let n = of_char c :: nat in if 48 \<le> n \<and> n \<le> 57 then Some (n - 48) else None)"

fun parseDigits :: "nat \<Rightarrow> string \<Rightarrow> nat option" where
  "parseDigits acc [] = Some acc"
| "parseDigits acc (c # cs) = (case digitVal c of None \<Rightarrow> None | Some d \<Rightarrow> parseDigits (10 * acc + d) cs)"

definition ParseUint :: "string \<Rightarrow> error + rev" where
  "ParseUint s =
     (if s = [] then Inl (OtherErr ''invalid syntax'')
      else case parseDigits 0 s of
             None \<Rightarrow> Inl (OtherErr ''invalid syntax'')
           | Some n \<Rightarrow> if n < 2 ^ 64 then Inr (of_nat n) else Inl (OtherErr ''value out of range''))"

definition getLeaderAndVersion :: "string \<Rightarrow> error + (string \<times> rev)" where
  "getLeaderAndVersion lockInfo =
     (case splitAt (CHR '','') lockInfo of
        [addr, ver] \<Rightarrow> (case ParseUint ver of Inl err \<Rightarrow> Inl err | Inr version \<Rightarrow> Inr (addr, version))
      | _ \<Rightarrow> Inl (OtherErr ''lock info invalid %s''))"

definition GetLeaderInfo :: "string \<Rightarrow> string" where
  "GetLeaderInfo lockInfo = (case getLeaderAndVersion lockInfo of Inl _ \<Rightarrow> [] | Inr (addr, _) \<Rightarrow> addr)"

record ElectionInfo =
  LeaderAddress :: string
  IsLeaderInfo :: bool

definition GetElectionInfo :: "bool \<Rightarrow> string \<Rightarrow> error + ElectionInfo" where
  "GetElectionInfo leader lockInfo =
     (case getLeaderAndVersion lockInfo of
        Inl err \<Rightarrow> Inl err
      | Inr (addr, _) \<Rightarrow> Inr \<lparr>LeaderAddress = addr, IsLeaderInfo = leader\<rparr>)"

text \<open>
  The callback that runs when the instance becomes the leader: the backend continues from the timestamp
  of the lock. \<open>None\<close> is the fatal exit. The result is the backend and the flag \<^verbatim>\<open>leader\<close>.
\<close>

definition onStartedLeading :: "string \<Rightarrow> 's backend \<Rightarrow> ('s backend \<times> bool) option" where
  "onStartedLeading lockInfo b =
     (case getLeaderAndVersion lockInfo of
        Inl err \<Rightarrow> None
      | Inr (leaderAddr, version) \<Rightarrow> Some (SetCurrentRevision version b, True))"

section \<open>Round trip of the lock description\<close>

lemma digitVal_digit: "n < 10 \<Longrightarrow> digitVal (digit n) = Some n"
  by (simp add: digitVal_def digit_def)

lemma parseDigits_append:
  "parseDigits acc (xs @ ys) = (case parseDigits acc xs of None \<Rightarrow> None | Some a \<Rightarrow> parseDigits a ys)"
  by (induction xs arbitrary: acc) (auto split: option.splits)

lemma parseDigits_decimal: "parseDigits 0 (decimal n) = Some n"
proof (induction n rule: decimal.induct)
  case (1 n)
  then show ?case by (subst decimal.simps) (simp add: digitVal_digit parseDigits_append)
qed

lemma decimal_not_Nil: "decimal n \<noteq> []"
  by (subst decimal.simps) simp

lemma decimal_digits: "c \<in> set (decimal n) \<Longrightarrow> \<exists>d < 10. c = digit d"
proof (induction n rule: decimal.induct)
  case (1 n)
  show ?case
  proof (cases "n < 10")
    case True
    then show ?thesis using "1.prems" decimal.simps[of n] by auto
  next
    case False
    then have "c \<in> set (decimal (n div 10)) \<or> c = digit (n mod 10)" using "1.prems" decimal.simps[of n] by auto
    then show ?thesis using "1.IH"[OF False] by (auto intro: exI[of _ "n mod 10"])
  qed
qed

lemma comma_not_decimal: "CHR '','' \<notin> set (decimal n)"
proof
  assume "CHR '','' \<in> set (decimal n)"
  then obtain d where "d < 10" "CHR '','' = digit d" using decimal_digits by blast
  moreover have "digitVal (CHR '','') = None" by (simp add: digitVal_def)
  ultimately show False using digitVal_digit[of d] by simp
qed

lemma ParseUint_decimal: "ParseUint (decimal (unat r)) = Inr (r :: rev)"
  using unsigned_less[of r] by (simp add: ParseUint_def parseDigits_decimal decimal_not_Nil)

lemma splitAt_none: "c \<notin> set xs \<Longrightarrow> splitAt c xs = [xs]"
  by (induction xs) auto

lemma splitAt_append: "c \<notin> set xs \<Longrightarrow> splitAt c (xs @ c # ys) = xs # splitAt c ys"
  by (induction xs) auto

lemma splitAt_length: "length (splitAt c xs) = 1 + length (filter (\<lambda>x. x = c) xs)"
proof (induction xs)
  case (Cons x xs)
  then show ?case by (cases "splitAt c xs") auto
qed simp

lemma getLeaderAndVersion_described:
  "CHR '','' \<notin> set h \<Longrightarrow> getLeaderAndVersion (h @ '','' @ decimal (unat v)) = Inr (h, v)"
  by (simp add: getLeaderAndVersion_def splitAt_append splitAt_none comma_not_decimal ParseUint_decimal)


lemma getLeaderAndVersion_Describe:
  assumes "CHR '','' \<notin> set (holder (lk_record r))"
  shows "getLeaderAndVersion (Describe holder r) = Inr (if holder (lk_record r) = [] then ''empty'' else holder (lk_record r), lk_tso r)"
  using assms getLeaderAndVersion_described[of "holder (lk_record r)"] getLeaderAndVersion_described[of "''empty''"]
  by (auto simp: Describe_def)

text \<open>
  The description of the lock is read back: a server finds in it exactly the holder and the timestamp, for every
  holder name without a comma (an empty name shows as \<^verbatim>\<open>empty\<close>), and refuses it for every name with one.
\<close>

lemma lock_description_roundtrip:
  "getLeaderAndVersion (Describe holder r) =
     (if CHR '','' \<in> set (holder (lk_record r)) then Inl (OtherErr ''lock info invalid %s'')
      else Inr (if holder (lk_record r) = [] then ''empty'' else holder (lk_record r), lk_tso r))"
proof (cases "CHR '','' \<in> set (holder (lk_record r))")
  case True
  let ?h = "holder (lk_record r)"
  obtain x xs where "filter (\<lambda>x. x = CHR '','') ?h = x # xs" using True by (cases "filter (\<lambda>x. x = CHR '','') ?h") (auto simp: filter_empty_conv)
  then have "length (splitAt (CHR '','') (?h @ '','' @ decimal (unat (lk_tso r)))) > 2"
    unfolding splitAt_length by simp
  then have "getLeaderAndVersion (?h @ '','' @ decimal (unat (lk_tso r))) = Inl (OtherErr ''lock info invalid %s'')"
    by (auto simp: getLeaderAndVersion_def split: list.splits)
  then show ?thesis using True by (auto simp: Describe_def)
next
  case False
  from getLeaderAndVersion_Describe[of holder r, OF this] show ?thesis using False by simp
qed

section \<open>The lock excludes\<close>

text \<open>Candidates that update the lock one after the other, each with the record it read before.\<close>

fun race ::
    "'s kv_storage \<Rightarrow> ('r \<Rightarrow> error + bytes) \<Rightarrow> ('r resourceLock \<times> 'r) list \<Rightarrow> 's \<Rightarrow> error option list \<times> 's" where
  "race kv marshal [] s = ([], s)"
| "race kv marshal ((r, ler) # cs) s =
     (case lock_Update kv marshal ler r s of
        (e, r', s1) \<Rightarrow> (case race kv marshal cs s1 of (es, s2) \<Rightarrow> (e # es, s2)))"

context kv_engine
begin

lemma getTso_keeps: "ok s \<Longrightarrow> getTso kv r s = (e, r', s') \<Longrightarrow> ok s' \<and> view s' = view s"
  using tso_state by (auto simp: getTso_def split: prod.splits sum.splits)

lemma lock_Update_swaps:
  assumes "ok s" "lock_Update kv marshal ler r s = (e, r', s')"
  shows "ok s' \<and> (view s' = view s \<and> e \<noteq> None
    \<or> (\<exists>w. marshal ler = Inr w \<and> view s (electionKey r) = Some (lastVal r) \<and> view s' = (view s)(electionKey r \<mapsto> w)))"
proof (cases "lk_tso r = 0 \<or> (\<exists>err. marshal ler = Inl err)")
  case True
  then show ?thesis using assms by (auto simp: lock_Update_def split: if_splits)
next
  case False
  then obtain w where w: "marshal ler = Inr w" "lk_tso r \<noteq> 0" by (cases "marshal ler") auto
  let ?ops = "[CAS (electionKey r) w (lastVal r) 0]"
  obtain e1 s1 where c: "kv_Commit kv s ?ops = (e1, s1)" by fastforce
  have law: "ok s1 \<and> may_apply e1 ?ops (view s) (view s1)" using commit_law[OF assms(1) c] by simp
  have ap: "apply_batch ?ops (view s) = Some m \<Longrightarrow>
      view s (electionKey r) = Some (lastVal r) \<and> m = (view s)(electionKey r \<mapsto> w)" for m
    by (auto split: if_splits)
  show ?thesis
  proof (cases e1)
    case None
    then have "getTso kv r s1 = (e, r', s')" using assms(2) w c by (simp add: lock_Update_def)
    moreover have "ok s1" "apply_batch ?ops (view s) = Some (view s1)" using law None by (simp_all del: apply_batch.simps)
    ultimately have "ok s'" "view s' = view s1" "view s (electionKey r) = Some (lastVal r)" "view s1 = (view s)(electionKey r \<mapsto> w)"
      using ap[of "view s1"] getTso_keeps[of s1] by blast+
    then show ?thesis using w(1) by (intro conjI disjI2 exI[of _ w]) simp_all
  next
    case (Some err)
    then have "e = Some err" "s' = s1" using assms(2) w c by (auto simp: lock_Update_def)
    moreover have "ok s1" "view s1 = view s \<or> apply_batch ?ops (view s) = Some (view s1)"
      using law may_apply_cases by blast+
    ultimately show ?thesis using ap[of "view s1"] w(1) by blast
  qed
qed

text \<open>Once the record differs from what the candidates read, none of them succeeds.\<close>

lemma race_lost:
  "ok s \<Longrightarrow> view s key \<noteq> Some v \<Longrightarrow> \<forall>(r, ler) \<in> set cs. electionKey r = key \<and> lastVal r = v \<Longrightarrow>
     race kv marshal cs s = (es, s') \<Longrightarrow> ok s' \<and> view s' = view s \<and> None \<notin> set es"
proof (induction cs arbitrary: s es)
  case (Cons c cs)
  obtain r ler where c: "c = (r, ler)" by fastforce
  obtain e r' s1 where u: "lock_Update kv marshal ler r s = (e, r', s1)" by (metis prod_cases3)
  obtain es1 where q: "race kv marshal cs s1 = (es1, s')" "es = e # es1"
    using Cons.prems(4) c u by (auto split: prod.splits)
  have "ok s1 \<and> view s1 = view s \<and> e \<noteq> None" using lock_Update_swaps[OF Cons.prems(1) u] Cons.prems(2,3) c by auto
  then show ?case using Cons.IH[of s1 es1] Cons.prems(2,3) q c by auto
qed auto

lemma race_swaps:
  assumes "ok s" "view s key = Some v"
    and "\<forall>(r, ler) \<in> set cs. electionKey r = key \<and> lastVal r = v \<and> marshal ler \<noteq> Inr v"
    and "race kv marshal cs s = (es, s')"
  shows "length (filter (\<lambda>e. e = None) es) \<le> 1
    \<and> (\<forall>(c, e) \<in> set (zip cs es). e = None \<longrightarrow> (\<exists>w. marshal (snd c) = Inr w \<and> view s' = (view s)(key \<mapsto> w)))
    \<and> (view s' = view s \<or> (\<exists>c \<in> set cs. \<exists>w. marshal (snd c) = Inr w \<and> view s' = (view s)(key \<mapsto> w)))"
  using assms
proof (induction cs arbitrary: s es)
  case (Cons c cs)
  obtain r ler where c: "c = (r, ler)" by fastforce
  obtain e r' s1 where u: "lock_Update kv marshal ler r s = (e, r', s1)" by (metis prod_cases3)
  obtain es1 where q: "race kv marshal cs s1 = (es1, s')" "es = e # es1"
    using Cons.prems(4) c u by (auto split: prod.splits)
  have k: "electionKey r = key" "lastVal r = v" "marshal ler \<noteq> Inr v" using Cons.prems(3) c by auto
  have rest: "\<forall>(r, ler) \<in> set cs. electionKey r = key \<and> lastVal r = v \<and> marshal ler \<noteq> Inr v" using Cons.prems(3) by auto
  from lock_Update_swaps[OF Cons.prems(1) u] have ok1: "ok s1" by blast
  from lock_Update_swaps[OF Cons.prems(1) u]
  consider "view s1 = view s" "e \<noteq> None" | w where "marshal ler = Inr w" "view s1 = (view s)(key \<mapsto> w)" using k by blast
  then show ?case
  proof cases
    case 1
    then have "view s1 key = Some v" using Cons.prems(2) by simp
    note IH = Cons.IH[OF ok1 this rest q(1), unfolded 1(1)]
    have "length (filter (\<lambda>e. e = None) es) \<le> 1" using IH 1(2) q(2) by (simp only: filter.simps if_False)
    then show ?thesis using IH 1(2) unfolding q(2) zip_Cons_Cons list.set(2) by blast
  next
    case 2
    then have lost: "view s1 key \<noteq> Some v" using k by auto
    have "\<forall>(r, ler) \<in> set cs. electionKey r = key \<and> lastVal r = v" using rest by auto
    from race_lost[OF ok1 lost this q(1)] have L: "view s' = (view s)(key \<mapsto> w)" "None \<notin> set es1" using 2 by auto
    have "filter (\<lambda>e. e = None) es1 = []" using L(2) by (metis (mono_tags, lifting) filter_False)
    moreover have "\<forall>(c, e) \<in> set (zip cs es1). e \<noteq> None" using L(2) by (metis (mono_tags, lifting) case_prodI2 set_zip_rightD)
    ultimately have "length (filter (\<lambda>e. e = None) es) \<le> 1" "\<forall>(c, e) \<in> set (zip cs es1). e \<noteq> None" by (simp_all add: q(2))
    moreover have "marshal (snd c) = Inr w" using 2(1) c by simp
    ultimately show ?thesis using L(1) unfolding q(2) zip_Cons_Cons list.set(2) by blast
  qed
qed auto

end

lemma visible_bounded: "bounded m d \<Longrightarrow> visible m k R = Some (v, r) \<Longrightarrow> r \<le> d"
  by (auto simp: bounded_def visible_Some_iff)

section \<open>Properties\<close>

text \<open>
  C13: the lock excludes. Of any number of candidates that read the same record and then update the lock, on any engine
  that keeps the storage contract and whatever errors it reports, at most one is told that it succeeded; then its
  record is the stored one. The store holds the record that was read or that of one candidate, and nothing else changed.
\<close>

theorem lock_race_one_winner:
  assumes "kv_engine kv view snap ok" "ok s" "view s key = Some v"
    and "\<forall>(r, ler) \<in> set cs. electionKey r = key \<and> lastVal r = v \<and> marshal ler \<noteq> Inr v"
    and "race kv marshal cs s = (es, s')"
  shows "length (filter (\<lambda>e. e = None) es) \<le> 1
    \<and> (\<forall>(c, e) \<in> set (zip cs es). e = None \<longrightarrow> (\<exists>w. marshal (snd c) = Inr w \<and> view s' = (view s)(key \<mapsto> w)))
    \<and> (view s' = view s \<or> (\<exists>c \<in> set cs. \<exists>w. marshal (snd c) = Inr w \<and> view s' = (view s)(key \<mapsto> w)))"
  by (rule kv_engine.race_swaps[OF assms])

text \<open>
  C14: a new leader continues above everything that is stored. If no stored version is newer than the timestamp of
  the lock, becoming the leader succeeds for every identity without a comma, the store invariant holds, reads
  start at that timestamp, and whatever revision is dealt next is newer than every stored version.
\<close>

theorem new_leader_continues_above_store:
  assumes "ok (kvState b)" "mvcc_inv (view (kvState b))" "bounded (view (kvState b)) (lk_tso r)"
    and "CHR '','' \<notin> set (holder (lk_record r))" "dealRevision (tso b) < MaxUint64" "lk_tso r < MaxUint64"
  shows "\<exists>b'. onStartedLeading (Describe holder r) b = Some (b', True) \<and> store_ok view ok b'
    \<and> view (kvState b') = view (kvState b) \<and> GetCurrentRevision b' = lk_tso r
    \<and> (\<exists>n t. Deal (tso b') = (Inr n, t) \<and> (\<forall>k x. visible (view (kvState b')) k MaxUint64 = Some x \<longrightarrow> snd x < n))"
proof -
  let ?b = "SetCurrentRevision (lk_tso r) b" and ?d = "dealRevision (tso (SetCurrentRevision (lk_tso r) b))"
  have "onStartedLeading (Describe holder r) b = Some (?b, True)"
    using getLeaderAndVersion_Describe[of holder r, OF assms(4)] by (simp add: onStartedLeading_def)
  moreover have d: "lk_tso r \<le> ?d" "?d < MaxUint64" using assms(5,6) by (auto simp: SetCurrentRevision_def Commit_def Let_def)
  moreover have bd: "bounded (view (kvState b)) ?d" by (rule bounded_mono[OF assms(3) d(1)])
  moreover have "snd x < ?d + 1" if "visible (view (kvState b)) k MaxUint64 = Some x" for k x
  proof -
    have "snd x \<le> ?d" using visible_bounded[OF bd, of k MaxUint64 "fst x" "snd x"] that by simp
    then show ?thesis using succ_greater[OF d(2)] by (rule order.strict_trans1)
  qed
  ultimately show ?thesis using assms(1,2)
    by (auto simp: store_ok_def SetCurrentRevision_def Commit_def Let_def GetCurrentRevision_def GetRevision_def Deal_def)
qed

section \<open>Sample runs\<close>

text \<open>Records that are byte strings and encode themselves; two candidates that read the record \<open>[1]\<close>.\<close>

definition sample_lock :: "bytes resourceLock" where
  "sample_lock = \<lparr>lk_record = [1], lastVal = [1], electionKey = [9], lk_tso = 7, identity = ''n1''\<rparr>"

definition sample_locked :: "(bytes \<times> bytes) list memstore" where
  "sample_locked = sample_store\<lparr>sklist := ([9], [1]) # sklist sample_store\<rparr>"

theorem lock_race_one_winner_witness:
  "\<exists>es s'. race (memkv alist_skl) Inr [(sample_lock, [2]), (sample_lock, [3])] sample_locked = (es, s')
     \<and> length (filter (\<lambda>e. e = None) es) \<le> 1"
proof -
  obtain es s' where r: "race (memkv alist_skl) Inr [(sample_lock, [2]), (sample_lock, [3])] sample_locked = (es, s')" by fastforce
  have "mem_view sample_locked [9] = Some [1]" by (simp add: sample_locked_def)
  from lock_race_one_winner[OF alist.mem.kv_engine_axioms TrueI this _ r] show ?thesis
    using r by (simp add: sample_lock_def)
qed

theorem new_leader_continues_above_store_witness:
  "\<exists>b'. onStartedLeading (Describe (\<lambda>r. ''n1'') sample_lock) sample_backend = Some (b', True) \<and> GetCurrentRevision b' = 7"
proof -
  have b: "mvcc_inv (mem_view sample_store)" "bounded (mem_view sample_store) 5"
    using store_ok_sample_backend by (simp_all add: store_ok_def)
  have "bounded (mem_view sample_store) 7" by (rule bounded_mono[OF b(2)]) simp
  then show ?thesis
    using new_leader_continues_above_store[of "\<lambda>s. True" sample_backend mem_view sample_lock "\<lambda>r. ''n1''"] b(1)
    by (auto simp: sample_lock_def MaxUint64_def)
qed

end
