(* ===== verification/Peers.thy ===== *)
theory Peers
  imports Election
begin

text \<open>
  \<^verbatim>\<open>pkg/server/service/revision/revision.go\<close>, by which a follower takes over the revision of the leader before it reads, and
  the handlers of \<^verbatim>\<open>pkg/server/server.go\<close> it talks to. The HTTP client is a parameter, from a URL to a transport error or a
  status code and a body; so is \<^verbatim>\<open>json.Unmarshal\<close> at \<^verbatim>\<open>LeaderRevision\<close>, whose error the code ignores. Calls that
  \<^verbatim>\<open>singleflight\<close> lets share one request are one call.
\<close>

section \<open>Errors of a request\<close>

text \<open>What \<^verbatim>\<open>possibleSchemaMismatch\<close> asks of an error: two causes, and its message.\<close>

record netErr =
  connReset :: bool
  isEOF :: bool
  errMsg :: string

fun containsStr :: "string \<Rightarrow> string \<Rightarrow> bool" where
  "containsStr [] sub \<longleftrightarrow> sub = []"
| "containsStr (c # cs) sub \<longleftrightarrow> take (length sub) (c # cs) = sub \<or> containsStr cs sub"

definition isSendHttpReqToHttpsServerErr :: "netErr \<Rightarrow> bool" where
  "isSendHttpReqToHttpsServerErr err \<longleftrightarrow> containsStr (errMsg err) ''Client sent an HTTP request to an HTTPS server.''"

definition isSendHttpsReqToHttpServerErr :: "netErr \<Rightarrow> bool" where
  "isSendHttpsReqToHttpServerErr err \<longleftrightarrow> containsStr (errMsg err) ''http: server gave HTTP response to HTTPS client''"

definition possibleSchemaMismatch :: "netErr \<Rightarrow> bool" where
  "possibleSchemaMismatch err \<longleftrightarrow>
     (if connReset err then True
      else if isEOF err then True
      else if isSendHttpReqToHttpsServerErr err then True
      else if isSendHttpsReqToHttpServerErr err then True
      else False)"

section \<open>The syncer\<close>

record revisionSyncer =
  enableTLS :: bool
  schema :: string

record network =
  httpGet :: "string \<Rightarrow> netErr + (nat \<times> (netErr + string))"
  unmarshalRevision :: "string \<Rightarrow> rev"

definition NewRevisionSyncer :: "bool \<Rightarrow> revisionSyncer" where
  "NewRevisionSyncer tls = (if tls then \<lparr>enableTLS = True, schema = ''https''\<rparr> else \<lparr>enableTLS = False, schema = ''http''\<rparr>)"

definition getRetrySchemas :: "revisionSyncer \<Rightarrow> string list" where
  "getRetrySchemas r =
     (if \<not> enableTLS r then [''http'']
      else if schema r = ''http'' then [''http'', ''https'']
      else [''https'', ''http''])"

definition statusURL :: "string \<Rightarrow> string \<Rightarrow> string" where
  "statusURL sch leaderAddress = sch @ ''://'' @ leaderAddress @ ''/status''"

definition statusErr :: "string \<Rightarrow> nat \<Rightarrow> string \<Rightarrow> netErr" where
  "statusErr leaderAddress code msg = \<lparr>connReset = False, isEOF = False,
     errMsg = ''status code from leader '' @ leaderAddress @ '' is '' @ decimal code @ '', msg is '' @ msg\<rparr>"

definition getRevisionFromLeader :: "network \<Rightarrow> string \<Rightarrow> revisionSyncer \<Rightarrow> netErr + rev" where
  "getRevisionFromLeader net leaderAddress r =
     (case httpGet net (statusURL (schema r) leaderAddress) of
        Inl err \<Rightarrow> Inl err
      | Inr (code, body) \<Rightarrow>
          if code \<noteq> 200 then Inl (statusErr leaderAddress code (case body of Inl _ \<Rightarrow> [] | Inr msg \<Rightarrow> msg))
          else case body of
                 Inl err \<Rightarrow> Inl err
               | Inr responseBody \<Rightarrow> Inr (unmarshalRevision net responseBody))"

definition noSchemaErr :: netErr where
  "noSchemaErr = \<lparr>connReset = False, isEOF = False, errMsg = ''no suitable schema to leader''\<rparr>"

text \<open>The loop over the schemas; the one tried last stays in the syncer.\<close>

fun trySchemas :: "network \<Rightarrow> string \<Rightarrow> string list \<Rightarrow> revisionSyncer \<Rightarrow> (netErr + rev) \<times> revisionSyncer" where
  "trySchemas net leaderAddress [] r = (Inl noSchemaErr, r)"
| "trySchemas net leaderAddress (sch # schs) r =
     (let r1 = r\<lparr>schema := sch\<rparr> in
      case getRevisionFromLeader net leaderAddress r1 of
        Inl err \<Rightarrow> if possibleSchemaMismatch err then trySchemas net leaderAddress schs r1 else (Inl err, r1)
      | Inr rv \<Rightarrow> (Inr rv, r1))"

definition singleFlightGetRevisionFromLeader ::
    "network \<Rightarrow> string \<Rightarrow> revisionSyncer \<Rightarrow> (netErr + rev) \<times> revisionSyncer" where
  "singleFlightGetRevisionFromLeader net leaderAddress r = trySchemas net leaderAddress (getRetrySchemas r) r"

text \<open>
  A server: its backend, whether it leads, the description of its lock, its syncer, and whether it
  forwards writes to the leader.
\<close>

record 's server =
  srv_backend :: "'s backend"
  srv_leader :: bool
  srv_lock :: string
  srv_sync :: revisionSyncer
  srv_proxy :: bool

definition syncErr :: "netErr \<Rightarrow> error" where
  "syncErr err = OtherErr (''get revision from leader failed '' @ errMsg err)"

definition SyncReadRevision :: "network \<Rightarrow> 's server \<Rightarrow> error option \<times> 's server" where
  "SyncReadRevision net s =
     (if srv_leader s then (None, s)
      else case singleFlightGetRevisionFromLeader net (GetLeaderInfo (srv_lock s)) (srv_sync s) of
             (Inl err, r) \<Rightarrow> (Some (syncErr err), s\<lparr>srv_sync := r\<rparr>)
           | (Inr currentRevision, r) \<Rightarrow>
               (None, s\<lparr>srv_sync := r, srv_backend := SetCurrentRevision currentRevision (srv_backend s)\<rparr>))"

section \<open>The handlers of the leader\<close>

definition revisionHandler :: "(rev \<Rightarrow> string) \<Rightarrow> 's server \<Rightarrow> nat \<times> string" where
  "revisionHandler marshal s =
     (if \<not> srv_leader s then (400, ''i'' @ [CHR 0x27] @ ''m not leader, so can'' @ [CHR 0x27] @ ''t tell you revision'')
      else (200, marshal (GetCurrentRevision (srv_backend s))))"

definition electionHandler :: "(error \<Rightarrow> string) \<Rightarrow> (ElectionInfo \<Rightarrow> string) \<Rightarrow> 's server \<Rightarrow> nat \<times> string" where
  "electionHandler errText marshal s =
     (case GetElectionInfo (srv_leader s) (srv_lock s) of
        Inl err \<Rightarrow> (500, errText err)
      | Inr info \<Rightarrow> (200, marshal info))"

definition httpHealthHandler :: "string \<Rightarrow> nat \<times> string" where
  "httpHealthHandler meth =
     (if meth \<noteq> ''GET'' then (405, ''Method Not Allowed'' @ [CHR 0x0A])
      else (200, ''{'' @ [CHR 0x22] @ ''health'' @ [CHR 0x22] @ '':'' @ [CHR 0x22] @ ''true'' @ [CHR 0x22] @ ''}''))"

section \<open>What a follower learns\<close>

lemma trySchemas_hit:
  assumes "getRevisionFromLeader net leader (r\<lparr>schema := sch\<rparr>) = Inr rv" "sch \<in> set schs"
    and "\<And>x err. x \<in> set schs \<Longrightarrow> x \<noteq> sch \<Longrightarrow>
           \<exists>err. getRevisionFromLeader net leader (r\<lparr>schema := x\<rparr>) = Inl err \<and> possibleSchemaMismatch err"
  shows "trySchemas net leader schs r = (Inr rv, r\<lparr>schema := sch\<rparr>)"
  using assms
proof (induction schs arbitrary: r)
  case (Cons x schs)
  show ?case
  proof (cases "x = sch")
    case True
    then show ?thesis using Cons.prems(1) by (simp add: Let_def)
  next
    case False
    then obtain err where "getRevisionFromLeader net leader (r\<lparr>schema := x\<rparr>) = Inl err" "possibleSchemaMismatch err"
      using Cons.prems(3)[of x] by auto
    then show ?thesis using Cons.IH[of "r\<lparr>schema := x\<rparr>"] Cons.prems False by (auto simp: Let_def)
  qed
qed simp

lemma trySchemas_Inr:
  "trySchemas net leader schs r = (Inr rv, r') \<Longrightarrow>
     \<exists>sch body. sch \<in> set schs \<and> httpGet net (statusURL sch leader) = Inr (200, Inr body) \<and> unmarshalRevision net body = rv"
proof (induction schs arbitrary: r)
  case (Cons x schs)
  show ?case
  proof (cases "getRevisionFromLeader net leader (r\<lparr>schema := x\<rparr>)")
    case (Inl err)
    then have "trySchemas net leader schs (r\<lparr>schema := x\<rparr>) = (Inr rv, r')"
      using Cons.prems by (auto simp: Let_def split: if_splits)
    then show ?thesis using Cons.IH by (meson list.set_intros(2))
  next
    case (Inr v)
    then have "v = rv" using Cons.prems by (simp add: Let_def)
    then show ?thesis using Inr
      by (force simp: getRevisionFromLeader_def split: sum.splits prod.splits if_splits)
  qed
qed simp

text \<open>
  If the leader serves its status under one of the schemas a follower may use, and the other one fails the way a mismatched
  schema does, then - whichever schema the follower tried last - the sync succeeds with the leader's committed revision
  and remembers the schema.
\<close>

lemma follower_syncs:
  assumes "\<not> srv_leader f" "srv_leader l" "sch \<in> set (getRetrySchemas (srv_sync f))"
    and "\<And>rv. unmarshalRevision net (marshal rv) = rv"
    and "\<And>x. httpGet net (statusURL x (GetLeaderInfo (srv_lock f))) =
          (if x = sch then Inr (map_prod id Inr (revisionHandler marshal l)) else Inl (bad x))"
    and "\<And>x. possibleSchemaMismatch (bad x)"
  shows "SyncReadRevision net f = (None, f\<lparr>srv_sync := (srv_sync f)\<lparr>schema := sch\<rparr>,
    srv_backend := SetCurrentRevision (GetCurrentRevision (srv_backend l)) (srv_backend f)\<rparr>)"
proof -
  have hit: "getRevisionFromLeader net (GetLeaderInfo (srv_lock f)) (srv_sync f\<lparr>schema := sch\<rparr>)
      = Inr (GetCurrentRevision (srv_backend l))"
    using assms(2,4,5) by (simp add: getRevisionFromLeader_def revisionHandler_def)
  have "\<exists>err. getRevisionFromLeader net (GetLeaderInfo (srv_lock f)) (srv_sync f\<lparr>schema := x\<rparr>) = Inl err
      \<and> possibleSchemaMismatch err" if "x \<noteq> sch" for x
    using that assms(5,6) by (simp add: getRevisionFromLeader_def)
  from trySchemas_hit[OF hit assms(3) this] show ?thesis
    using assms(1) by (simp add: SyncReadRevision_def singleFlightGetRevisionFromLeader_def)
qed

text \<open>
  A failed sync changes no backend: the read is refused and the follower keeps its old revision. This
  covers every transport error, every status other than 200, and a leader that has stepped down.
\<close>

lemma sync_error_keeps_backend:
  "case SyncReadRevision net s of
     (Some err, s') \<Rightarrow> \<not> srv_leader s \<and> srv_backend s' = srv_backend s
   | (None, s') \<Rightarrow> srv_leader s \<and> s' = s
       \<or> (\<exists>sch body. sch \<in> set (getRetrySchemas (srv_sync s))
            \<and> httpGet net (statusURL sch (GetLeaderInfo (srv_lock s))) = Inr (200, Inr body)
            \<and> srv_backend s' = SetCurrentRevision (unmarshalRevision net body) (srv_backend s))"
proof (cases "srv_leader s")
  case True
  then show ?thesis by (simp add: SyncReadRevision_def)
next
  case False
  then show ?thesis
    using trySchemas_Inr[of net "GetLeaderInfo (srv_lock s)" "getRetrySchemas (srv_sync s)" "srv_sync s"]
    by (fastforce simp: SyncReadRevision_def singleFlightGetRevisionFromLeader_def split: prod.splits sum.splits)
qed

section \<open>Sample runs\<close>

text \<open>A leader that serves HTTP only, and a follower with certificates that tries HTTPS first.\<close>

definition sample_leader :: "(bytes \<times> bytes) list memstore server" where
  "sample_leader = \<lparr>srv_backend = sample_backend, srv_leader = True, srv_lock = ''n1:80,7'', srv_sync = NewRevisionSyncer False, srv_proxy = False\<rparr>"

definition sample_follower :: "(bytes \<times> bytes) list memstore server" where
  "sample_follower = sample_leader\<lparr>srv_leader := False, srv_sync := NewRevisionSyncer True\<rparr>"

definition sample_marshal :: "rev \<Rightarrow> string" where
  "sample_marshal r = decimal (unat r)"

definition sample_net :: network where
  "sample_net = \<lparr>httpGet = (\<lambda>url. if url = statusURL ''http'' ''n1:80'' then Inr (map_prod id Inr (revisionHandler sample_marshal sample_leader))
       else Inl \<lparr>connReset = False, isEOF = True, errMsg = ''EOF''\<rparr>),
     unmarshalRevision = (\<lambda>body. case ParseUint body of Inl _ \<Rightarrow> 0 | Inr r \<Rightarrow> r)\<rparr>"

lemma sample_sync:
  "\<not> srv_leader sample_follower" "srv_leader sample_leader" "''http'' \<in> set (getRetrySchemas (srv_sync sample_follower))"
  "srv_backend sample_leader = sample_backend" "srv_backend sample_follower = sample_backend"
  "unmarshalRevision sample_net (sample_marshal rv) = rv"
  "httpGet sample_net (statusURL x (GetLeaderInfo (srv_lock sample_follower))) =
      (if x = ''http'' then Inr (map_prod id Inr (revisionHandler sample_marshal sample_leader))
       else Inl \<lparr>connReset = False, isEOF = True, errMsg = ''EOF''\<rparr>)"
  "possibleSchemaMismatch \<lparr>connReset = False, isEOF = True, errMsg = ''EOF''\<rparr>"
proof -
  have "GetLeaderInfo (srv_lock sample_follower) = ''n1:80''"
    by (simp add: sample_follower_def sample_leader_def GetLeaderInfo_def getLeaderAndVersion_def ParseUint_def digitVal_def Let_def)
  then show "httpGet sample_net (statusURL x (GetLeaderInfo (srv_lock sample_follower))) =
      (if x = ''http'' then Inr (map_prod id Inr (revisionHandler sample_marshal sample_leader))
       else Inl \<lparr>connReset = False, isEOF = True, errMsg = ''EOF''\<rparr>)"
    by (simp add: sample_net_def statusURL_def del: append_Cons)
qed (simp_all add: sample_follower_def sample_leader_def getRetrySchemas_def NewRevisionSyncer_def possibleSchemaMismatch_def
       sample_net_def sample_marshal_def ParseUint_decimal)

end
