(* ===== verification/Brain.thy ===== *)
theory Brain
  imports Peers Compact Watch
begin

text \<open>
  \<^verbatim>\<open>pkg/server/brain\<close>: the handlers of the kubebrain protocol. Each checks its request, its deadline and who leads,
  and calls the backend; metrics and logs are left out. \<open>expired\<close> tells whether the deadline of the request has passed
  when it arrives. A handler returns the answer and the new state of the server, \<open>None\<close> when the backend panics. What the
  code returns beside an error (an empty response, which gRPC drops) is left out.
\<close>

section \<open>Writes\<close>

definition deadlineErr :: error where
  "deadlineErr = OtherErr ''context deadline exceeded''"

definition followerErr :: "'s server \<Rightarrow> error" where
  "followerErr s = OtherErr (''txn error addr is %s leader '' @ srv_lock s)"

definition checkLeaderWrite :: "'s server \<Rightarrow> error option" where
  "checkLeaderWrite s = (if \<not> srv_leader s then Some (followerErr s) else None)"

text \<open>The result of a backend call as the result of the handler.\<close>

abbreviation onBackend :: "'s server \<Rightarrow> ('r \<times> 's backend) option \<Rightarrow> ('r \<times> 's server) option" where
  "onBackend s \<equiv> map_option (\<lambda>(res, b). (res, s\<lparr>srv_backend := b\<rparr>))"

definition brain_Create ::
    "'s kv_storage \<Rightarrow> bool \<Rightarrow> CreateRequest \<Rightarrow> 's server \<Rightarrow> ((error + CreateResponse) \<times> 's server) option" where
  "brain_Create kv expired req s =
     (if length (CKey req) = 0 \<or> length (CValue req) = 0
      then Some (Inl (OtherErr ''empty key or value in create request''), s)
      else if expired then Some (Inl deadlineErr, s)
      else case checkLeaderWrite s of
             Some err \<Rightarrow> Some (Inl err, s)
           | None \<Rightarrow> onBackend s (Create kv req (srv_backend s)))"

text \<open>The pair in an update request may be nil.\<close>

definition brain_Update ::
    "'s kv_storage \<Rightarrow> bool \<Rightarrow> KeyValue option \<Rightarrow> int \<Rightarrow> 's server \<Rightarrow> ((error + UpdateResponse) \<times> 's server) option" where
  "brain_Update kv expired ukv lease s =
     (case ukv of
        None \<Rightarrow> Some (Inl (OtherErr ''kv in updateRequest is nil, or empty key or value in update request kv''), s)
      | Some p \<Rightarrow>
          if length (Key p) = 0 \<or> length (Value p) = 0
          then Some (Inl (OtherErr ''kv in updateRequest is nil, or empty key or value in update request kv''), s)
          else if expired then Some (Inl deadlineErr, s)
          else case checkLeaderWrite s of
                 Some err \<Rightarrow> Some (Inl err, s)
               | None \<Rightarrow> onBackend s (Update kv \<lparr>UKv = p, ULease = lease\<rparr> (srv_backend s)))"

definition brain_Delete ::
    "'s kv_storage \<Rightarrow> bool \<Rightarrow> DeleteRequest \<Rightarrow> 's server \<Rightarrow> ((error + DeleteResponse) \<times> 's server) option" where
  "brain_Delete kv expired req s =
     (if length (DKey req) = 0 then Some (Inl (OtherErr ''empty key in deleteRequest''), s)
      else if expired then Some (Inl deadlineErr, s)
      else case checkLeaderWrite s of
             Some err \<Rightarrow> Some (Inl err, s)
           | None \<Rightarrow> onBackend s (Delete kv req (srv_backend s)))"

definition brain_Compact ::
    "'s kv_storage \<Rightarrow> (nat \<Rightarrow> nat \<Rightarrow> nat \<Rightarrow> nat \<Rightarrow> bool) \<Rightarrow> rev \<Rightarrow> 's server \<Rightarrow> ((error + rev) \<times> 's server) option" where
  "brain_Compact kv ctx revision s =
     (if revision \<le> 0 then Some (Inl (OtherErr ''invalid revision in compact request''), s)
      else case checkLeaderWrite s of
             Some err \<Rightarrow> Some (Inl err, s)
           | None \<Rightarrow> onBackend s (map_option (\<lambda>((R, err), b). (case err of Some e \<Rightarrow> Inl e | None \<Rightarrow> Inr R, b))
                                    (Compact kv ctx revision (srv_backend s))))"

text \<open>One tick of \<^verbatim>\<open>compactLoop\<close>; its result is ignored.\<close>

definition compactLoop ::
    "'s kv_storage \<Rightarrow> (nat \<Rightarrow> nat \<Rightarrow> nat \<Rightarrow> nat \<Rightarrow> bool) \<Rightarrow> 's server \<Rightarrow> 's server option" where
  "compactLoop kv ctx s =
     (if srv_leader s
      then map_option (\<lambda>(_, b). s\<lparr>srv_backend := b\<rparr>)
             (Compact kv ctx (GetCurrentRevision (srv_backend s) - 1000) (srv_backend s))
      else Some s)"

section \<open>Reads\<close>

definition brain_Get ::
    "'s kv_storage \<Rightarrow> network \<Rightarrow> GetRequest \<Rightarrow> 's server \<Rightarrow> ((error + GetResponse) \<times> 's server) option" where
  "brain_Get kv net r s =
     (if length (GKey r) = 0 then Some (Inl (OtherErr ''invailid empty key in get request''), s)
      else case SyncReadRevision net s of
             (Some err, s1) \<Rightarrow> Some (Inl err, s1)
           | (None, s1) \<Rightarrow> onBackend s1 (Get kv r (srv_backend s1)))"

definition brain_Range ::
    "'s kv_storage \<Rightarrow> network \<Rightarrow> (nat \<Rightarrow> nat \<Rightarrow> nat \<Rightarrow> bool) \<Rightarrow> RangeRequest \<Rightarrow> 's server
     \<Rightarrow> ((error + RangeResponse) \<times> 's server) option" where
  "brain_Range kv net ctx r s =
     (if length (RKey r) = 0 \<or> length (REnd r) = 0 then Some (Inl (OtherErr ''empty key or end in range request''), s)
      else case SyncReadRevision net s of
             (Some err, s1) \<Rightarrow> Some (Inl err, s1)
           | (None, s1) \<Rightarrow> onBackend s1 (List kv ctx r (srv_backend s1)))"

definition brain_Count ::
    "'s kv_storage \<Rightarrow> network \<Rightarrow> (nat \<Rightarrow> nat \<Rightarrow> nat \<Rightarrow> bool) \<Rightarrow> bytes \<Rightarrow> bytes \<Rightarrow> 's server
     \<Rightarrow> ((error + CountResponse) \<times> 's server) option" where
  "brain_Count kv net ctx key rend s =
     (if length key = 0 \<or> length rend = 0 then Some (Inl (OtherErr ''empty key or end in count request''), s)
      else case SyncReadRevision net s of
             (Some err, s1) \<Rightarrow> Some (Inl err, s1)
           | (None, s1) \<Rightarrow> onBackend s1 (Count kv ctx key rend (srv_backend s1)))"

definition brain_ListPartition ::
    "'s kv_storage \<Rightarrow> network \<Rightarrow> bytes \<Rightarrow> bytes \<Rightarrow> 's server \<Rightarrow> ((error + PartitionResponse) \<times> 's server) option" where
  "brain_ListPartition kv net key rend s =
     (if length key = 0 \<or> length rend = 0 then Some (Inl (OtherErr ''empty key or end in list partition request''), s)
      else case SyncReadRevision net s of
             (Some err, s1) \<Rightarrow> Some (Inl err, s1)
           | (None, s1) \<Rightarrow> onBackend s1 (Some (GetPartitions kv key rend (srv_backend s1))))"

text \<open>The loop that sends what the channel delivers, until a send fails; \<open>send i\<close> is the result of the \<open>i\<close>-th send.\<close>

fun sendStream :: "(nat \<Rightarrow> error option) \<Rightarrow> nat \<Rightarrow> 'm list \<Rightarrow> error option \<times> 'm list" where
  "sendStream send i [] = (None, [])"
| "sendStream send i (m # ms) =
     (case send i of
        Some err \<Rightarrow> (Some err, [])
      | None \<Rightarrow> (case sendStream send (i + 1) ms of (err, sent) \<Rightarrow> (err, m # sent)))"

text \<open>The result of the handler and the messages the client got.\<close>

definition brain_RangeStream ::
    "'s kv_storage \<Rightarrow> network \<Rightarrow> (nat \<Rightarrow> nat \<Rightarrow> nat \<Rightarrow> bool) \<Rightarrow> (nat \<Rightarrow> error option) \<Rightarrow> RangeRequest \<Rightarrow> 's server
     \<Rightarrow> ((error option \<times> StreamRangeResponse list) \<times> 's server) option" where
  "brain_RangeStream kv net ctx send r s =
     (if length (RKey r) = 0 \<or> length (REnd r) = 0
      then Some ((Some (OtherErr ''empty key or end in range stream request''), []), s)
      else case SyncReadRevision net s of
             (Some err, s1) \<Rightarrow> Some ((Some err, []), s1)
           | (None, s1) \<Rightarrow>
               onBackend s1 (map_option (\<lambda>(stream, b). (sendStream send 0 stream, b))
                               (ListByStream kv ctx (RKey r) (REnd r) (RRevision r) (srv_backend s1))))"

section \<open>Watch\<close>

text \<open>
  What a started watch sends for the batches its channel delivers, each under the requested revision; after a failed send
  the rest is drained.
\<close>

fun watchLoop :: "(nat \<Rightarrow> error option) \<Rightarrow> nat \<Rightarrow> rev \<Rightarrow> Event list list \<Rightarrow> (rev \<times> Event list) list" where
  "watchLoop send i revision [] = []"
| "watchLoop send i revision (evs # ch) =
     (case send i of Some _ \<Rightarrow> [] | None \<Rightarrow> (revision, evs) # watchLoop send (i + 1) revision ch)"

definition brain_Watch ::
    "bytes \<Rightarrow> rev \<Rightarrow> 's server \<Rightarrow> WatcherHub \<Rightarrow> ((error + nat \<times> Event list list \<times> rev) \<times> WatcherHub) option" where
  "brain_Watch key revision s w =
     (if length key = 0 then Some (Inl (OtherErr ''invalid empty key in watch request ''), w)
      else case checkLeaderWrite s of
             Some err \<Rightarrow> Some (Inl err, w)
           | None \<Rightarrow> Watch key revision (srv_backend s) w)"

section \<open>Properties\<close>

text \<open>The state of the server's store, and the revision its next write gets.\<close>

abbreviation storeMap :: "('s \<Rightarrow> kvmap) \<Rightarrow> 's server \<Rightarrow> mvmap" where
  "storeMap view s \<equiv> visible (view (kvState (srv_backend s)))"

abbreviation nextRevision :: "'s server \<Rightarrow> rev" where
  "nextRevision s \<equiv> dealRevision (tso (srv_backend s)) + 1"

lemma onBackend_Some: "x = Some (res, b) \<Longrightarrow> onBackend s x = Some (res, s\<lparr>srv_backend := b\<rparr>)"
  by simp

text \<open>
  C9: a create of the kubebrain protocol, on any engine that keeps the storage contract. It is refused without any effect
  if the key or the value is empty, the deadline has passed or another server leads. Otherwise it does not
  panic and keeps the store invariant, and it answers with the revision it dealt: a success means
  nothing of the key was visible and the key has the value from that revision on, with every other
  read unchanged; a failed comparison and any certain error mean nothing changed; an uncertain error means one
  of the two.
\<close>

theorem Create_refines:
  assumes "kv_engine kv view snap ok" "store_ok view ok (srv_backend s)" "room (srv_backend s)"
    and "wf_key (CKey req)" "CValue req \<noteq> tombStoneBytes"
  shows "\<exists>res s'. brain_Create kv expired req s = Some (res, s') \<and> store_ok view ok (srv_backend s') \<and>
    (if CKey req = [] \<or> CValue req = [] \<or> expired \<or> \<not> srv_leader s then s' = s \<and> (\<exists>err. res = Inl err)
     else let V = storeMap view s; V' = storeMap view s'; r = nextRevision s in
       case res of
         Inr resp \<Rightarrow> CRevision resp = r \<and>
           (if CSucceeded resp
            then V (CKey req) MaxUint64 = None \<and> V' = abs_write (CKey req) r (Some (CValue req)) V
            else V' = V)
       | Inl err \<Rightarrow> wrote (CKey req) r (Some (CValue req)) (V (CKey req) MaxUint64 = None) (Some err) V V')"
proof (cases "CKey req = [] \<or> CValue req = [] \<or> expired \<or> \<not> srv_leader s")
  case True
  then show ?thesis using assms(2) by (auto simp: brain_Create_def checkLeaderWrite_def)
next
  case False
  from Create_law[OF assms] obtain res b' where "Create kv req (srv_backend s) = Some (res, b')" "store_ok view ok b'"
    "let V = storeMap view s; V' = visible (view (kvState b')); r = nextRevision s in
     case res of
       Inr resp \<Rightarrow> CRevision resp = r \<and>
         (if CSucceeded resp
          then V (CKey req) MaxUint64 = None \<and> V' = abs_write (CKey req) r (Some (CValue req)) V
          else V' = V)
     | Inl err \<Rightarrow> wrote (CKey req) r (Some (CValue req)) (V (CKey req) MaxUint64 = None) (Some err) V V'" by blast
  then show ?thesis using False by (simp add: brain_Create_def checkLeaderWrite_def)
qed

text \<open>
  C10: an update of the kubebrain protocol, on any engine that keeps the storage contract, for a revision that is not ahead
  of the dealt ones. It is refused without any effect if the pair is missing or has an empty key or value, the deadline has
  passed or another server leads. Otherwise a success means the key's current revision was the expected one (or, for
  \<open>0\<close>, that nothing was visible) and the key has the new value from the dealt revision on; a failed comparison
  changes nothing and hands back exactly what is visible; any certain error changes nothing.
\<close>

theorem Update_refines:
  assumes "kv_engine kv view snap ok" "store_ok view ok (srv_backend s)" "room (srv_backend s)"
    and "wf_key (Key p)" "Value p \<noteq> tombStoneBytes" "Revision p \<le> nextRevision s"
  shows "\<exists>res s'. brain_Update kv expired (Some p) lease s = Some (res, s') \<and> store_ok view ok (srv_backend s') \<and>
    (if Key p = [] \<or> Value p = [] \<or> expired \<or> \<not> srv_leader s then s' = s \<and> (\<exists>err. res = Inl err)
     else let V = storeMap view s; V' = storeMap view s'; r = nextRevision s; g = expects (Revision p) (V (Key p) MaxUint64) in
       case res of
         Inr resp \<Rightarrow>
           (if USucceeded resp then URevision resp = r \<and> g \<and> V' = abs_write (Key p) r (Some (Value p)) V
            else V' = V \<and> map_option (\<lambda>kv. (Value kv, Revision kv)) (UKvOld resp) = V (Key p) MaxUint64)
       | Inl err \<Rightarrow> wrote (Key p) r (Some (Value p)) g (Some err) V V')"
proof (cases "Key p = [] \<or> Value p = [] \<or> expired \<or> \<not> srv_leader s")
  case True
  then show ?thesis using assms(2) by (auto simp: brain_Update_def checkLeaderWrite_def)
next
  case False
  let ?req = "\<lparr>UKv = p, ULease = lease\<rparr>"
  from Update_law[OF assms(1-3), of ?req, unfolded UpdateRequest.select_convs, OF assms(4-6)]
  obtain res b' where "Update kv ?req (srv_backend s) = Some (res, b')" "store_ok view ok b'"
    "let V = storeMap view s; V' = visible (view (kvState b')); r = nextRevision s; g = expects (Revision p) (V (Key p) MaxUint64) in
     case res of
       Inr resp \<Rightarrow>
         (if USucceeded resp then URevision resp = r \<and> g \<and> V' = abs_write (Key p) r (Some (Value p)) V
          else V' = V \<and> map_option (\<lambda>kv. (Value kv, Revision kv)) (UKvOld resp) = V (Key p) MaxUint64)
     | Inl err \<Rightarrow> wrote (Key p) r (Some (Value p)) g (Some err) V V'" unfolding Let_def by blast
  then show ?thesis using False by (simp add: brain_Update_def checkLeaderWrite_def)
qed

text \<open>
  C11: a delete of the kubebrain protocol, on any engine that keeps the storage contract, for a revision that is not ahead
  of the dealt ones. It is refused without any effect if the key is empty, the deadline has passed or another server
  leads. Otherwise a success means the key was visible, at the expected revision if one was given,
  the response carries exactly the deleted value and revision, and from the dealt revision on nothing
  of the key is visible while older reads are unchanged; anything else but an uncertain error changes
  nothing.
\<close>

theorem Delete_refines:
  assumes "kv_engine kv view snap ok" "store_ok view ok (srv_backend s)" "room (srv_backend s)"
    and "wf_key (DKey req)" "DRevision req \<le> nextRevision s"
  shows "\<exists>res s'. brain_Delete kv expired req s = Some (res, s') \<and> store_ok view ok (srv_backend s') \<and>
    (if DKey req = [] \<or> expired \<or> \<not> srv_leader s then s' = s \<and> (\<exists>err. res = Inl err)
     else let V = storeMap view s; V' = storeMap view s'; r = nextRevision s; g = deletes (DRevision req) (V (DKey req) MaxUint64) in
       case res of
         Inr resp \<Rightarrow>
           (if DSucceeded resp
            then DHeader resp = r \<and> g \<and> V' = abs_write (DKey req) r None V
                 \<and> map_option (\<lambda>kv. (Value kv, Revision kv)) (DKv resp) = V (DKey req) MaxUint64
            else V' = V)
       | Inl err \<Rightarrow> wrote (DKey req) r None g (Some err) V V')"
proof (cases "DKey req = [] \<or> expired \<or> \<not> srv_leader s")
  case True
  then show ?thesis using assms(2) by (auto simp: brain_Delete_def checkLeaderWrite_def)
next
  case False
  from Delete_law[OF assms] obtain res b' where "Delete kv req (srv_backend s) = Some (res, b')" "store_ok view ok b'"
    "let V = storeMap view s; V' = visible (view (kvState b')); r = nextRevision s; g = deletes (DRevision req) (V (DKey req) MaxUint64) in
     case res of
       Inr resp \<Rightarrow>
         (if DSucceeded resp
          then DHeader resp = r \<and> g \<and> V' = abs_write (DKey req) r None V
               \<and> map_option (\<lambda>kv. (Value kv, Revision kv)) (DKv resp) = V (DKey req) MaxUint64
          else V' = V)
     | Inl err \<Rightarrow> wrote (DKey req) r None g (Some err) V V'" unfolding Let_def by blast
  then show ?thesis using False by (simp add: brain_Delete_def checkLeaderWrite_def)
qed

lemma SyncReadRevision_frame:
  "SyncReadRevision net s = (e, s') \<Longrightarrow> kvState (srv_backend s') = kvState (srv_backend s)
     \<and> config (srv_backend s') = config (srv_backend s)"
  by (auto simp: SyncReadRevision_def SetCurrentRevision_def split: if_splits prod.splits sum.splits)


text \<open>
  C15: a follower answers ranges at the leader's revision. Let the leader serve its status under a schema the follower may
  use, the other schema failing as a mismatched one does. Then a range request without a revision to the follower, on an
  engine that keeps the contract, does not panic and changes nothing that can be read; an answer carries the leader's
  committed revision and exactly the keys visible at it, cut at the limit.
\<close>

theorem follower_reads_at_leader_revision:
  assumes "kv_engine_bordered kv view snap ok" "ok (kvState (srv_backend f))" "readable view (srv_backend f)"
    and "wf_key (RKey r)" "wf_key (REnd r)" "RLimit r < 2 ^ 63 - 1" "RRevision r = 0" "RKey r \<noteq> []" "RKey r < REnd r"
    and "\<And>i a j. \<not> ctx i a j"
    and "\<not> srv_leader f" "srv_leader l" "sch \<in> set (getRetrySchemas (srv_sync f))"
    and "\<And>rv. unmarshalRevision net (marshal rv) = rv"
    and "\<And>x. httpGet net (statusURL x (GetLeaderInfo (srv_lock f))) =
          (if x = sch then Inr (map_prod id Inr (revisionHandler marshal l)) else Inl (bad x))"
    and "\<And>x. possibleSchemaMismatch (bad x)"
  shows "\<exists>res f'. brain_Range kv net ctx r f = Some (res, f') \<and> storeMap view f' = storeMap view f
    \<and> (\<forall>resp. res = Inr resp \<longrightarrow> RHeader resp = GetCurrentRevision (srv_backend l)
         \<and> (\<exists>L. listing (view (kvState (srv_backend f))) (GetCurrentRevision (srv_backend l)) (\<lambda>k. RKey r \<le> k \<and> k < REnd r) L
              \<and> RKvs resp = (if 0 < RLimit r then take (nat (RLimit r)) L else L)))"
proof -
  let ?b = "SetCurrentRevision (GetCurrentRevision (srv_backend l)) (srv_backend f)"
  have b: "kvState ?b = kvState (srv_backend f)" "config ?b = config (srv_backend f)"
      "GetCurrentRevision ?b = GetCurrentRevision (srv_backend l)"
    by (simp_all add: SetCurrentRevision_def GetCurrentRevision_def GetRevision_def Commit_def Let_def)
  have rd: "ok (kvState ?b)" "readable view ?b" using assms(2,3) b by (simp_all add: readable_def)
  have "length (REnd r) \<noteq> 0" using assms(9) by (cases "REnd r") auto
  from kv_engine_bordered.List_reads[where ctx = ctx, OF assms(1) rd assms(4-6,10) this assms(9)]
  obtain res b' where "List kv ctx r ?b = Some (res, b')" "view (kvState b') = view (kvState ?b)"
      "\<And>resp. res = Inr resp \<Longrightarrow> RHeader resp = GetCurrentRevision ?b
         \<and> (\<exists>L. listing (view (kvState ?b)) (readRevision (RRevision r) ?b) (\<lambda>k. RKey r \<le> k \<and> k < REnd r) L
              \<and> RKvs resp = (if 0 < RLimit r then take (nat (RLimit r)) L else L))" by blast
  moreover have "readRevision (RRevision r) ?b = GetCurrentRevision (srv_backend l)" using assms(7) b(3) by (simp add: readRevision_def)
  ultimately show ?thesis
    using follower_syncs[OF assms(11-16)] assms(8) \<open>length (REnd r) \<noteq> 0\<close> by (auto simp: brain_Range_def b)
qed

text \<open>
  C40: the background compaction of a young store compacts everything. A tick asks for the committed revision less one thousand;
  below one thousand the subtraction wraps around, and the compaction runs at the committed revision itself instead of
  leaving the last thousand revisions.
\<close>

theorem compactLoop_young_compacts_all:
  assumes "srv_leader s" "GetCurrentRevision (srv_backend s) < 1000"
  shows "compactLoop kv ctx s =
    map_option (\<lambda>(_, b). s\<lparr>srv_backend := b\<rparr>) (Compact kv ctx (GetCurrentRevision (srv_backend s)) (srv_backend s))"
proof -
  let ?c = "GetCurrentRevision (srv_backend s)"
  have "unat ?c < 1000" using assms(2) by (simp add: word_less_nat_alt)
  then have "?c < ?c - 1000" by (simp add: word_less_nat_alt unat_sub_if')
  then have "compactRevision (?c - 1000) (srv_backend s) = compactRevision ?c (srv_backend s)"
    by (auto simp: compactRevision_def GetCurrentRevision_def Let_def)
  then show ?thesis using assms(1) by (simp add: compactLoop_def Compact_def)
qed

section \<open>Sample runs\<close>

lemma sample_server:
  "store_ok mem_view (\<lambda>s. True) (srv_backend sample_leader)" "room (srv_backend sample_leader)"
  "srv_leader sample_leader" "nextRevision sample_leader = 6"
  using sample_facts by (simp_all add: sample_leader_def)

theorem Create_refines_witness:
  "\<exists>res s'. brain_Create (memkv alist_skl) False \<lparr>CKey = sample_key2, CValue = [1, 2], CLease = 0\<rparr> sample_leader = Some (res, s')
     \<and> store_ok mem_view (\<lambda>s. True) (srv_backend s')"
  using Create_refines[OF alist.mem.kv_engine_axioms sample_server(1,2), of "\<lparr>CKey = sample_key2, CValue = [1, 2], CLease = 0\<rparr>" False]
  by (auto simp: sample_value sample_key2)

theorem Update_refines_witness:
  "\<exists>res s'. brain_Update (memkv alist_skl) False (Some \<lparr>Key = sample_key, Value = [3], Revision = 4\<rparr>) 0 sample_leader = Some (res, s')
     \<and> store_ok mem_view (\<lambda>s. True) (srv_backend s')"
  using Update_refines[OF alist.mem.kv_engine_axioms sample_server(1,2), of "\<lparr>Key = sample_key, Value = [3], Revision = 4\<rparr>" False 0]
    sample_server(4)
  by (auto simp: wf_sample_key sample_update_value)

theorem Delete_refines_witness:
  "\<exists>res s'. brain_Delete (memkv alist_skl) False \<lparr>DKey = sample_key, DRevision = 5\<rparr> sample_leader = Some (res, s')
     \<and> store_ok mem_view (\<lambda>s. True) (srv_backend s')"
  using Delete_refines[OF alist.mem.kv_engine_axioms sample_server(1,2), of "\<lparr>DKey = sample_key, DRevision = 5\<rparr>" False] sample_server(4)
  by (auto simp: wf_sample_key)


theorem follower_reads_at_leader_revision_witness:
  "\<exists>res f'. brain_Range (memkv alist_skl) sample_net (\<lambda>i a j. False) (sample_range\<lparr>RRevision := 0\<rparr>) sample_follower = Some (res, f')
     \<and> (\<forall>resp. res = Inr resp \<longrightarrow> RHeader resp = 5)"
proof -
  have "RKey sample_range \<noteq> []" by (simp add: sample_range_def bytes_of_string_def)
  then show ?thesis
    using follower_reads_at_leader_revision[where ctx = "\<lambda>i a j. False" and r = "sample_range\<lparr>RRevision := 0\<rparr>",
        OF alist.memb.kv_engine_bordered_axioms TrueI _ _ _ _ _ _ _ _ sample_sync(1-3,6-8)]
      readable_sample_backend sample_range_wf GetCurrentRevision_sample_backend by (auto simp: sample_sync)
qed

theorem compactLoop_young_compacts_all_witness:
  "compactLoop (memkv alist_skl) (\<lambda>j i a n. False) sample_leader =
     map_option (\<lambda>(_, b). sample_leader\<lparr>srv_backend := b\<rparr>) (Compact (memkv alist_skl) (\<lambda>j i a n. False) 5 sample_backend)"
  using compactLoop_young_compacts_all[of sample_leader "memkv alist_skl" "\<lambda>j i a n. False"]
  by (simp add: sample_sync GetCurrentRevision_sample_backend)

end
