(* ===== verification/EtcdKv.thy ===== *)
theory EtcdKv
  imports Brain
begin

text \<open>
  \<^verbatim>\<open>pkg/server/etcd/kv.go\<close> and the unary part of \<^verbatim>\<open>pkg/server/etcd/backendshim.go\<close>: the etcd protocol on top of the backend.
  The messages of etcd are the records and datatypes below, with the fields the code reads or sets. An \<^verbatim>\<open>int64\<close> is its 64
  bits, so that the conversions from and to \<^verbatim>\<open>uint64\<close> are the identity; an empty response header has revision 0.
  \<open>forward\<close> stands for the call by which a follower passes a transaction on to the leader.
\<close>

section \<open>Messages\<close>

type_synonym int64 = "64 word"

record PutRequest =
  PRKey :: bytes
  PRValue :: bytes
  PRLease :: int64
  IgnoreLease :: bool
  IgnoreValue :: bool
  PrevKv :: bool

datatype RequestOp = RequestRange | RequestPut PutRequest | RequestDeleteRange bytes | RequestTxn

datatype CompareTarget = Compare_VERSION | Compare_CREATE | Compare_MOD | Compare_VALUE | Compare_LEASE

datatype CompareResult = Compare_EQUAL | Compare_GREATER | Compare_LESS | Compare_NOT_EQUAL

record Compare =
  Result :: CompareResult
  Target :: CompareTarget
  CompareKey :: bytes
  ModRevisionUnion :: "int64 option"

record TxnRequest =
  TCompare :: "Compare list"
  TSuccess :: "RequestOp list"
  TFailure :: "RequestOp list"

record EtcdKeyValue =
  EKey :: bytes
  EValue :: bytes
  ModRevision :: int64
  CreateRevision :: int64

record EtcdRangeResponse =
  EHeader :: int64
  EKvs :: "EtcdKeyValue list"
  EMore :: bool
  ECount :: int64

record DeleteRangeResponse =
  DRHeader :: int64
  Deleted :: int64
  PrevKvs :: "EtcdKeyValue list"

datatype ResponseOp =
    ResponsePut int64
  | ResponseRange EtcdRangeResponse
  | ResponseDeleteRange DeleteRangeResponse

record TxnResponse =
  THeader :: int64
  TSucceeded :: bool
  TResponses :: "ResponseOp list"

record EtcdRangeRequest =
  ERKey :: bytes
  RangeEnd :: bytes
  ERLimit :: int64
  ERRevision :: int64
  CountOnly :: bool

fun GetRequestPut :: "RequestOp \<Rightarrow> PutRequest option" where
  "GetRequestPut (RequestPut p) = Some p"
| "GetRequestPut _ = None"

fun GetRequestDeleteRange :: "RequestOp \<Rightarrow> bytes option" where
  "GetRequestDeleteRange (RequestDeleteRange k) = Some k"
| "GetRequestDeleteRange _ = None"

definition GetModRevision :: "Compare \<Rightarrow> int64" where
  "GetModRevision c = (case ModRevisionUnion c of None \<Rightarrow> 0 | Some r \<Rightarrow> r)"

section \<open>The backend under the etcd protocol\<close>

definition kvToEtcdKv :: "KeyValue \<Rightarrow> EtcdKeyValue" where
  "kvToEtcdKv kv = \<lparr>EKey = Key kv, EValue = Value kv, ModRevision = Revision kv, CreateRevision = 0\<rparr>"

definition unsupported :: "string \<Rightarrow> error" where
  "unsupported field = OtherErr (field @ '' is unsupported'')"

definition emptyRange :: EtcdRangeResponse where
  "emptyRange = \<lparr>EHeader = 0, EKvs = [], EMore = False, ECount = 0\<rparr>"

definition shim_Create ::
    "'s kv_storage \<Rightarrow> PutRequest \<Rightarrow> 's backend \<Rightarrow> ((error + TxnResponse) \<times> 's backend) option" where
  "shim_Create kv r b =
     (if IgnoreLease r then Some (Inl (unsupported ''ignoreLease''), b)
      else if IgnoreValue r then Some (Inl (unsupported ''ignoreValue''), b)
      else if PrevKv r then Some (Inl (unsupported ''prevKv''), b)
      else case Create kv \<lparr>CKey = PRKey r, CValue = PRValue r, CLease = sint (PRLease r)\<rparr> b of
             None \<Rightarrow> None
           | Some (Inl err, b1) \<Rightarrow> Some (Inl err, b1)
           | Some (Inr response, b1) \<Rightarrow>
               Some (Inr \<lparr>THeader = CRevision response, TSucceeded = CSucceeded response,
                          TResponses = [ResponsePut (CRevision response)]\<rparr>, b1))"

definition shim_Delete ::
    "'s kv_storage \<Rightarrow> bytes \<Rightarrow> int64 \<Rightarrow> 's backend \<Rightarrow> ((error + TxnResponse) \<times> 's backend) option" where
  "shim_Delete kv key revision b =
     (case Delete kv \<lparr>DKey = key, DRevision = revision\<rparr> b of
        None \<Rightarrow> None
      | Some (Inl err, b1) \<Rightarrow> Some (Inl err, b1)
      | Some (Inr response, b1) \<Rightarrow>
          let headerRevision = DHeader response;
              kvs = (case DKv response of None \<Rightarrow> [] | Some kv \<Rightarrow> [kvToEtcdKv kv]);
              op = (if DSucceeded response
                    then ResponseDeleteRange \<lparr>DRHeader = headerRevision, Deleted = (if DKv response \<noteq> None then 1 else 0), PrevKvs = kvs\<rparr>
                    else ResponseRange (emptyRange\<lparr>EHeader := headerRevision, EKvs := kvs, ECount := of_nat (length kvs)\<rparr>))
          in Some (Inr \<lparr>THeader = headerRevision, TSucceeded = DSucceeded response, TResponses = [op]\<rparr>, b1))"

definition shim_Update ::
    "'s kv_storage \<Rightarrow> int64 \<Rightarrow> bytes \<Rightarrow> bytes \<Rightarrow> int64 \<Rightarrow> 's backend \<Rightarrow> ((error + TxnResponse) \<times> 's backend) option" where
  "shim_Update kv rv key val lease b =
     (case Update kv \<lparr>UKv = \<lparr>Key = key, Value = val, Revision = rv\<rparr>, ULease = sint lease\<rparr> b of
        None \<Rightarrow> None
      | Some (Inl err, b1) \<Rightarrow> Some (Inl err, b1)
      | Some (Inr response, b1) \<Rightarrow>
          let headerRevision = URevision response;
              op = (if USucceeded response then ResponsePut headerRevision
                    else ResponseRange (emptyRange\<lparr>EHeader := headerRevision,
                           EKvs := (case UKvOld response of None \<Rightarrow> [] | Some kv \<Rightarrow> [kvToEtcdKv kv])\<rparr>))
          in Some (Inr \<lparr>THeader = headerRevision, TSucceeded = USucceeded response, TResponses = [op]\<rparr>, b1))"

definition emptyKv :: EtcdKeyValue where
  "emptyKv = \<lparr>EKey = [], EValue = [], ModRevision = 0, CreateRevision = 0\<rparr>"

text \<open>The fixed answer to a compaction: not succeeded.\<close>

definition compactResponse :: TxnResponse where
  "compactResponse = \<lparr>THeader = 0, TSucceeded = False, TResponses = [ResponseRange (emptyRange\<lparr>EKvs := [emptyKv], ECount := 1\<rparr>)]\<rparr>"

definition shim_Compact ::
    "'s kv_storage \<Rightarrow> (nat \<Rightarrow> nat \<Rightarrow> nat \<Rightarrow> nat \<Rightarrow> bool) \<Rightarrow> rev \<Rightarrow> 's backend \<Rightarrow> ((error + TxnResponse) \<times> 's backend) option" where
  "shim_Compact kv ctx revision b =
     (case Compact kv ctx revision b of
        None \<Rightarrow> None
      | Some ((_, Some err), b1) \<Rightarrow> Some (Inl err, b1)
      | Some ((_, None), b1) \<Rightarrow> Some (Inr compactResponse, b1))"

definition shim_Get ::
    "'s kv_storage \<Rightarrow> EtcdRangeRequest \<Rightarrow> 's backend \<Rightarrow> ((error + EtcdRangeResponse) \<times> 's backend) option" where
  "shim_Get kv r b =
     (case Get kv \<lparr>GKey = ERKey r, GRevision = ERRevision r\<rparr> b of
        None \<Rightarrow> None
      | Some (Inl err, b1) \<Rightarrow> Some (Inl err, b1)
      | Some (Inr response, b1) \<Rightarrow>
          Some (Inr (case GKv response of
                       None \<Rightarrow> emptyRange\<lparr>EHeader := GHeader response\<rparr>
                     | Some kv \<Rightarrow> emptyRange\<lparr>EHeader := GHeader response, EKvs := [kvToEtcdKv kv], ECount := 1\<rparr>), b1))"

definition shim_List ::
    "'s kv_storage \<Rightarrow> (nat \<Rightarrow> nat \<Rightarrow> nat \<Rightarrow> bool) \<Rightarrow> EtcdRangeRequest \<Rightarrow> 's backend
     \<Rightarrow> ((error + EtcdRangeResponse) \<times> 's backend) option" where
  "shim_List kv ctx r b =
     (case List kv ctx \<lparr>RKey = ERKey r, REnd = RangeEnd r, RRevision = ERRevision r, RLimit = sint (ERLimit r)\<rparr> b of
        None \<Rightarrow> None
      | Some (Inl err, b1) \<Rightarrow> Some (Inl err, b1)
      | Some (Inr response, b1) \<Rightarrow>
          let cnt = of_nat (length (RKvs response));
              cnt = (if RMore response then cnt + 1 else cnt)
          in Some (Inr \<lparr>EHeader = RHeader response, EKvs = map kvToEtcdKv (RKvs response), EMore = RMore response,
                        ECount = cnt\<rparr>, b1))"

definition shim_Count ::
    "'s kv_storage \<Rightarrow> (nat \<Rightarrow> nat \<Rightarrow> nat \<Rightarrow> bool) \<Rightarrow> EtcdRangeRequest \<Rightarrow> 's backend
     \<Rightarrow> ((error + EtcdRangeResponse) \<times> 's backend) option" where
  "shim_Count kv ctx r b =
     (case Count kv ctx (ERKey r) (RangeEnd r) b of
        None \<Rightarrow> None
      | Some (Inl err, b1) \<Rightarrow> Some (Inl err, b1)
      | Some (Inr response, b1) \<Rightarrow>
          Some (Inr (emptyRange\<lparr>EHeader := CntHeader response, ECount := CntCount response\<rparr>), b1))"

definition shim_GetPartitions ::
    "'s kv_storage \<Rightarrow> EtcdRangeRequest \<Rightarrow> 's backend \<Rightarrow> (error + EtcdRangeResponse) \<times> 's backend" where
  "shim_GetPartitions kv r b =
     (case GetPartitions kv (ERKey r) (RangeEnd r) b of
        (Inl err, b1) \<Rightarrow> (Inl err, b1)
      | (Inr response, b1) \<Rightarrow>
          (Inr (emptyRange\<lparr>EHeader := PHeader response, ECount := of_int (PNum response + 1),
                          EKvs := map (\<lambda>k. emptyKv\<lparr>EKey := k\<rparr>) (PKeys response)\<rparr>), b1))"

section \<open>Which transaction it is\<close>

definition isCreate :: "TxnRequest \<Rightarrow> PutRequest option" where
  "isCreate txn =
     (case (TCompare txn, TSuccess txn) of
        ([c], [op]) \<Rightarrow>
          if Target c = Compare_MOD \<and> Result c = Compare_EQUAL \<and> GetModRevision c = 0 \<and> length (TFailure txn) = 0
          then GetRequestPut op else None
      | _ \<Rightarrow> None)"

definition isDelete :: "TxnRequest \<Rightarrow> (int64 \<times> bytes) option" where
  "isDelete txn =
     (case (TCompare txn, TSuccess txn, TFailure txn) of
        ([], [RequestRange, RequestDeleteRange k], []) \<Rightarrow> Some (0, k)
      | ([c], [RequestDeleteRange k], [RequestRange]) \<Rightarrow>
          if Target c = Compare_MOD \<and> Result c = Compare_EQUAL then Some (GetModRevision c, k) else None
      | _ \<Rightarrow> None)"

definition isUpdate :: "TxnRequest \<Rightarrow> (int64 \<times> bytes \<times> bytes \<times> int64) option" where
  "isUpdate txn =
     (case (TCompare txn, TSuccess txn, TFailure txn) of
        ([c], [RequestPut p], [RequestRange]) \<Rightarrow>
          if Target c = Compare_MOD \<and> Result c = Compare_EQUAL
          then Some (GetModRevision c, CompareKey c, PRValue p, PRLease p) else None
      | _ \<Rightarrow> None)"

definition isCompact :: "TxnRequest \<Rightarrow> bool" where
  "isCompact txn \<longleftrightarrow>
     (case (TCompare txn, TSuccess txn, TFailure txn) of
        ([c], [RequestPut p], [RequestRange]) \<Rightarrow>
          Target c = Compare_VERSION \<and> Result c = Compare_EQUAL \<and> CompareKey c = bytes_of_string ''compact_rev_key''
      | _ \<Rightarrow> False)"

section \<open>The handlers\<close>

definition GetPartitionMagic :: int64 where
  "GetPartitionMagic = 1888"

definition etcd_Range ::
    "'s kv_storage \<Rightarrow> network \<Rightarrow> (nat \<Rightarrow> nat \<Rightarrow> nat \<Rightarrow> bool) \<Rightarrow> EtcdRangeRequest \<Rightarrow> 's server
     \<Rightarrow> ((error + EtcdRangeResponse) \<times> 's server) option" where
  "etcd_Range kv net ctx r s =
     (case SyncReadRevision net s of
        (Some err, s1) \<Rightarrow> Some (Inl err, s1)
      | (None, s1) \<Rightarrow>
          onBackend s1
            (if length (RangeEnd r) = 0 then shim_Get kv r (srv_backend s1)
             else if ERRevision r = GetPartitionMagic then Some (shim_GetPartitions kv r (srv_backend s1))
             else if CountOnly r then shim_Count kv ctx r (srv_backend s1)
             else shim_List kv ctx r (srv_backend s1)))"

definition etcd_Txn ::
    "'s kv_storage \<Rightarrow> (TxnRequest \<Rightarrow> error + TxnResponse) \<Rightarrow> bool \<Rightarrow> TxnRequest \<Rightarrow> 's server
     \<Rightarrow> ((error + TxnResponse) \<times> 's server) option" where
  "etcd_Txn kv forward expired txn s =
     (if expired then Some (Inl deadlineErr, s)
      else if \<not> srv_leader s then
        if srv_proxy s then Some (forward txn, s) else Some (Inl (followerErr s), s)
      else
        case isCreate txn of
          Some put \<Rightarrow> onBackend s (shim_Create kv put (srv_backend s))
        | None \<Rightarrow>
            (case isDelete txn of
               Some (rv, key) \<Rightarrow> onBackend s (shim_Delete kv key rv (srv_backend s))
             | None \<Rightarrow>
                 (case isUpdate txn of
                    Some (rv, key, val, lease) \<Rightarrow> onBackend s (shim_Update kv rv key val lease (srv_backend s))
                  | None \<Rightarrow>
                      if isCompact txn then Some (Inr compactResponse, s)
                      else Some (Inl (OtherErr ''unsupported transaction: %v''), s))))"

definition etcd_Compact :: "int64 \<Rightarrow> int64" where
  "etcd_Compact revision = revision"

definition etcd_Put :: "PutRequest \<Rightarrow> error" where
  "etcd_Put r = OtherErr ''put is not supported''"

definition etcd_DeleteRange :: "bytes \<Rightarrow> error" where
  "etcd_DeleteRange r = OtherErr ''delete is not supported''"

section \<open>What a transaction means\<close>

text \<open>
  The write a transaction asks for: its key, the condition on what is visible of the key, the new value (\<open>None\<close> for a delete),
  and the revision compared with.
\<close>

definition txn_write :: "TxnRequest \<Rightarrow> (bytes \<times> ((bytes \<times> rev) option \<Rightarrow> bool) \<times> bytes option \<times> rev) option" where
  "txn_write txn =
     (case isCreate txn of
        Some put \<Rightarrow> Some (PRKey put, expects 0, Some (PRValue put), 0)
      | None \<Rightarrow>
          (case isDelete txn of
             Some (rv, key) \<Rightarrow> Some (key, deletes rv, None, rv)
           | None \<Rightarrow> map_option (\<lambda>(rv, key, val, lease). (key, expects rv, Some val, rv)) (isUpdate txn)))"

text \<open>How the answer to a write relates the store before and after.\<close>

definition settled ::
    "bytes \<Rightarrow> rev \<Rightarrow> bytes option \<Rightarrow> bool \<Rightarrow> mvmap \<Rightarrow> mvmap \<Rightarrow> error + TxnResponse \<Rightarrow> bool" where
  "settled key r vo g V V' res =
     (case res of
        Inr resp \<Rightarrow> if TSucceeded resp then THeader resp = r \<and> g \<and> V' = abs_write key r vo V else V' = V
      | Inl err \<Rightarrow> wrote key r vo g (Some err) V V')"

lemma settled_same: "settled key r vo g V V (Inl err)"
  by (simp add: settled_def wrote_same)

lemma shim_Create_settles:
  assumes "kv_engine kv view snap ok" "store_ok view ok b" "room b" "wf_key (PRKey put)" "PRValue put \<noteq> tombStoneBytes"
  shows "\<exists>res b'. shim_Create kv put b = Some (res, b') \<and> store_ok view ok b'
    \<and> settled (PRKey put) (dealRevision (tso b) + 1) (Some (PRValue put)) (expects 0 (visible (view (kvState b)) (PRKey put) MaxUint64))
        (visible (view (kvState b))) (visible (view (kvState b'))) res"
proof (cases "IgnoreLease put \<or> IgnoreValue put \<or> PrevKv put")
  case True
  then show ?thesis using assms(2) by (auto simp: shim_Create_def settled_same)
next
  case False
  let ?req = "\<lparr>CKey = PRKey put, CValue = PRValue put, CLease = sint (PRLease put)\<rparr>"
  from Create_law[OF assms(1-3), of ?req] assms(4,5)
  obtain res b' where c: "Create kv ?req b = Some (res, b')" "store_ok view ok b'"
    "(let V = visible (view (kvState b)); V' = visible (view (kvState b')); r = dealRevision (tso b) + 1 in
     case res of
       Inr resp \<Rightarrow> CRevision resp = r \<and>
         (if CSucceeded resp
          then V (CKey ?req) MaxUint64 = None \<and> V' = abs_write (CKey ?req) r (Some (CValue ?req)) V
          else V' = V)
     | Inl err \<Rightarrow> wrote (CKey ?req) r (Some (CValue ?req)) (V (CKey ?req) MaxUint64 = None) (Some err) V V')" by auto
  show ?thesis
  proof (cases res)
    case (Inl err)
    then show ?thesis using c False by (simp add: shim_Create_def settled_def expects_def Let_def)
  next
    case (Inr resp)
    then show ?thesis using c False by (auto simp: shim_Create_def settled_def expects_def Let_def)
  qed
qed

lemma shim_Delete_settles:
  assumes "kv_engine kv view snap ok" "store_ok view ok b" "room b" "wf_key key" "rv \<le> dealRevision (tso b) + 1"
  shows "\<exists>res b'. shim_Delete kv key rv b = Some (res, b') \<and> store_ok view ok b'
    \<and> settled key (dealRevision (tso b) + 1) None (deletes rv (visible (view (kvState b)) key MaxUint64))
        (visible (view (kvState b))) (visible (view (kvState b'))) res"
proof -
  let ?req = "\<lparr>DKey = key, DRevision = rv\<rparr>"
  from Delete_law[OF assms(1-3), of ?req, unfolded DeleteRequest.select_convs, OF assms(4,5)]
  obtain res b' where c: "Delete kv ?req b = Some (res, b')" "store_ok view ok b'"
    "(let V = visible (view (kvState b)); V' = visible (view (kvState b')); r = dealRevision (tso b) + 1;
         key = key; g = deletes rv (V key MaxUint64) in
     case res of
       Inr resp \<Rightarrow>
         (if DSucceeded resp
          then DHeader resp = r \<and> g \<and> V' = abs_write key r None V
               \<and> map_option (\<lambda>kv. (Value kv, Revision kv)) (DKv resp) = V key MaxUint64
          else V' = V)
     | Inl err \<Rightarrow> wrote key r None g (Some err) V V')" by blast
  then show ?thesis by (cases res) (auto simp: shim_Delete_def settled_def Let_def)
qed

lemma shim_Update_settles:
  assumes "kv_engine kv view snap ok" "store_ok view ok b" "room b" "wf_key key" "val \<noteq> tombStoneBytes"
    and "rv \<le> dealRevision (tso b) + 1"
  shows "\<exists>res b'. shim_Update kv rv key val lease b = Some (res, b') \<and> store_ok view ok b'
    \<and> settled key (dealRevision (tso b) + 1) (Some val) (expects rv (visible (view (kvState b)) key MaxUint64))
        (visible (view (kvState b))) (visible (view (kvState b'))) res
    \<and> (\<forall>resp. res = Inr resp \<longrightarrow> \<not> TSucceeded resp \<longrightarrow> (\<exists>rr. TResponses resp = [ResponseRange rr]
          \<and> map (\<lambda>kv. (EValue kv, ModRevision kv)) (EKvs rr) =
              (case visible (view (kvState b)) key MaxUint64 of None \<Rightarrow> [] | Some x \<Rightarrow> [x])))"
proof -
  let ?req = "\<lparr>UKv = \<lparr>Key = key, Value = val, Revision = rv\<rparr>, ULease = sint lease\<rparr>"
  from Update_law[OF assms(1-3), of ?req, unfolded UpdateRequest.select_convs KeyValue.select_convs, OF assms(4-6)]
  obtain res b' where c: "Update kv ?req b = Some (res, b')" "store_ok view ok b'"
    "(let V = visible (view (kvState b)); V' = visible (view (kvState b')); r = dealRevision (tso b) + 1;
         key = key; g = expects rv (V key MaxUint64) in
     case res of
       Inr resp \<Rightarrow>
         (if USucceeded resp then URevision resp = r \<and> g \<and> V' = abs_write key r (Some val) V
          else V' = V \<and> map_option (\<lambda>kv. (Value kv, Revision kv)) (UKvOld resp) = V key MaxUint64)
     | Inl err \<Rightarrow> wrote key r (Some val) g (Some err) V V')" by blast
  show ?thesis
  proof (cases res)
    case (Inl err)
    then show ?thesis using c by (simp add: shim_Update_def settled_def Let_def)
  next
    case (Inr resp)
    have cur: "visible (view (kvState b)) key MaxUint64 = map_option (\<lambda>kv. (Value kv, Revision kv)) (UKvOld resp)" if "\<not> USucceeded resp"
      using c(3) Inr that by (simp add: Let_def)
    then show ?thesis using c Inr
      by (cases "UKvOld resp") (auto simp: shim_Update_def settled_def kvToEtcdKv_def emptyRange_def Let_def split: if_splits)
  qed
qed

section \<open>Properties\<close>

text \<open>
  C5: a transaction of the etcd protocol that the leader recognises as a write, on any engine that keeps the storage
  contract, with a compared revision that is not ahead of the dealt ones. It does not panic and keeps the store
  invariant. A success carries the dealt revision and means that the transaction's condition held on what was visible of the
  key, and that exactly its write happened at that revision; a response without success and a certain error
  mean nothing changed, an uncertain error that nothing changed or exactly that.
\<close>

theorem Txn_refines:
  assumes "kv_engine kv view snap ok" "store_ok view ok (srv_backend s)" "room (srv_backend s)" "srv_leader s"
    and "txn_write txn = Some (key, g, vo, cmp)" "wf_key key" "vo \<noteq> Some tombStoneBytes" "cmp \<le> nextRevision s"
  shows "\<exists>res s'. etcd_Txn kv forward False txn s = Some (res, s') \<and> store_ok view ok (srv_backend s')
    \<and> settled key (nextRevision s) vo (g (storeMap view s key MaxUint64)) (storeMap view s) (storeMap view s') res"
proof -
  obtain x where x: "etcd_Txn kv forward False txn s = onBackend s x"
    "\<exists>res b'. x = Some (res, b') \<and> store_ok view ok b'
      \<and> settled key (nextRevision s) vo (g (storeMap view s key MaxUint64)) (storeMap view s) (visible (view (kvState b'))) res"
  proof (cases "isCreate txn")
    case (Some put)
    then have "PRKey put = key" "expects 0 = g" "Some (PRValue put) = vo" using assms(5) by (simp_all add: txn_write_def)
    then show ?thesis using that[of "shim_Create kv put (srv_backend s)"] Some assms(4,6,7) shim_Create_settles[OF assms(1-3), of put]
      by (auto simp: etcd_Txn_def)
  next
    case None
    show ?thesis
    proof (cases "isDelete txn")
      case (Some d)
      then have d: "d = (cmp, key)" "deletes cmp = g" "vo = None" using None assms(5) by (auto simp: txn_write_def split: prod.splits)
      then show ?thesis using that[of "shim_Delete kv key cmp (srv_backend s)"] Some None assms(4,6,8)
          shim_Delete_settles[OF assms(1-3), of key cmp]
        by (auto simp: etcd_Txn_def)
    next
      case None': None
      then obtain rv val lease where "isUpdate txn = Some (rv, key, val, lease)" "g = expects rv" "vo = Some val" "cmp = rv"
        using assms(5) None by (auto simp: txn_write_def)
      then show ?thesis using that[of "shim_Update kv rv key val lease (srv_backend s)"] None None' assms(4,6-8)
          shim_Update_settles[OF assms(1-3), of key val rv lease]
        by (auto simp: etcd_Txn_def)
    qed
  qed
  then obtain res b' where "x = Some (res, b')" "store_ok view ok b'"
    "settled key (nextRevision s) vo (g (storeMap view s key MaxUint64)) (storeMap view s) (visible (view (kvState b'))) res" by blast
  then show ?thesis using x(1) by (intro exI[of _ res] exI[of _ "s\<lparr>srv_backend := b'\<rparr>"]) simp
qed

text \<open>The revision etcd compares with: that of the visible version, 0 for a key that is not there.\<close>

definition modRevision :: "(bytes \<times> rev) option \<Rightarrow> rev" where
  "modRevision cur = (case cur of None \<Rightarrow> 0 | Some (_, r) \<Rightarrow> r)"

lemma expects_modRevision: "expects r (visible m k R) \<longleftrightarrow> modRevision (visible m k R) = r"
  using visible_bounds[of m k R] by (auto simp: expects_def modRevision_def split: option.splits)

lemma deletes_modRevision:
  "deletes r (visible m k R) \<longleftrightarrow> (if r = 0 then visible m k R \<noteq> None else modRevision (visible m k R) = r)"
  using visible_bounds[of m k R] by (auto simp: deletes_def modRevision_def split: option.splits)

text \<open>
  C12: on an engine that is never unavailable, the leader answers every transaction it recognises as a write (with a
  compared revision that is not ahead of the dealt ones, and without the options it does not support), and answers
  success exactly when etcd would: when the revision of the key's current version (0 if there is none) is the compared
  one. The exception is a delete compared with 0, which etcd grants for a missing key: it is taken as a delete
  without condition and succeeds exactly for a key that is there.
\<close>

theorem Txn_succeeds_iff_compare_holds:
  assumes rel: "kv_engine_reliable kv view snap ok" and s: "store_ok view ok (srv_backend s)" "room (srv_backend s)" "srv_leader s"
    and txn: "txn_write txn = Some (key, g, vo, cmp)" "wf_key key" "vo \<noteq> Some tombStoneBytes" "cmp \<le> nextRevision s"
    and plain: "\<And>put. isCreate txn = Some put \<Longrightarrow> \<not> IgnoreLease put \<and> \<not> IgnoreValue put \<and> \<not> PrevKv put"
  shows "\<exists>resp s'. etcd_Txn kv forward False txn s = Some (Inr resp, s')
    \<and> (TSucceeded resp \<longleftrightarrow> (let cur = storeMap view s key MaxUint64 in if vo = None \<and> cmp = 0 then cur \<noteq> None else modRevision cur = cmp))"
proof (cases "isCreate txn")
  case (Some put)
  then have p: "PRKey put = key" "cmp = 0" "Some (PRValue put) = vo" using txn(1) by (simp_all add: txn_write_def)
  have wf: "wf_key (PRKey put)" "PRValue put \<noteq> tombStoneBytes" using p txn(2,3) by auto
  let ?req = "\<lparr>CKey = PRKey put, CValue = PRValue put, CLease = sint (PRLease put)\<rparr>"
  obtain resp b' where "Create kv ?req (srv_backend s) = Some (Inr resp, b')"
      "CSucceeded resp \<longleftrightarrow> expects 0 (storeMap view s key MaxUint64)"
    using Create_answers[OF rel s(1,2), of ?req, unfolded CreateRequest.select_convs, OF wf] p(1) by (auto simp: expects_def)
  then show ?thesis using Some s(3) plain[OF Some] p
    by (auto simp: etcd_Txn_def shim_Create_def expects_modRevision Let_def)
next
  case None
  show ?thesis
  proof (cases "isDelete txn")
    case (Some d)
    then have d: "d = (cmp, key)" "vo = None" using None txn(1) by (auto simp: txn_write_def split: prod.splits)
    obtain resp b' where "Delete kv \<lparr>DKey = key, DRevision = cmp\<rparr> (srv_backend s) = Some (Inr resp, b')"
        "DSucceeded resp \<longleftrightarrow> deletes cmp (storeMap view s key MaxUint64)"
      using Delete_answers[OF rel s(1,2), of "\<lparr>DKey = key, DRevision = cmp\<rparr>"] txn(2,4) by auto
    then show ?thesis using Some None s(3) d by (auto simp: etcd_Txn_def shim_Delete_def deletes_modRevision Let_def)
  next
    case None': None
    then obtain val lease where u: "isUpdate txn = Some (cmp, key, val, lease)" "vo = Some val"
      using txn(1) None by (auto simp: txn_write_def)
    have nt: "val \<noteq> tombStoneBytes" using u(2) txn(3) by simp
    let ?req = "\<lparr>UKv = \<lparr>Key = key, Value = val, Revision = cmp\<rparr>, ULease = sint lease\<rparr>"
    obtain resp b' where "Update kv ?req (srv_backend s) = Some (Inr resp, b')"
        "USucceeded resp \<longleftrightarrow> expects cmp (storeMap view s key MaxUint64)"
      using Update_answers[OF rel s(1,2), of ?req, unfolded UpdateRequest.select_convs KeyValue.select_convs, OF txn(2) nt txn(4)] by blast
    then show ?thesis using None None' u s(3) by (auto simp: etcd_Txn_def shim_Update_def expects_modRevision Let_def)
  qed
qed

text \<open>
  A compare-and-put whose comparison fails tells the client what is there: on any engine that keeps the contract, a response
  without success to a recognised update carries one range response with exactly the visible value and revision
  of the key, or with none if the key is not there.
\<close>

lemma Txn_failed_update_returns_current:
  assumes "kv_engine kv view snap ok" "store_ok view ok (srv_backend s)" "room (srv_backend s)" "srv_leader s"
    and "isCreate txn = None" "isDelete txn = None" "isUpdate txn = Some (cmp, key, val, lease)"
    and "wf_key key" "val \<noteq> tombStoneBytes" "cmp \<le> nextRevision s"
    and "etcd_Txn kv forward False txn s = Some (Inr resp, s')" "\<not> TSucceeded resp"
  shows "\<exists>rr. TResponses resp = [ResponseRange rr] \<and> map (\<lambda>kv. (EValue kv, ModRevision kv)) (EKvs rr) =
    (case storeMap view s key MaxUint64 of None \<Rightarrow> [] | Some x \<Rightarrow> [x])"
  using shim_Update_settles[OF assms(1-3,8-10), of lease] assms(4-7,11,12) by (auto simp: etcd_Txn_def)

text \<open>
  An etcd range without an end reads one key, on any engine that keeps the contract, at the leader or at a follower
  whatever its sync yields: it does not panic and changes nothing that can be read, and an answer holds exactly the
  pair visible at the requested revision (the newest for 0), or nothing, with the count of what it holds.
\<close>

lemma Range_of_key_reads_visible:
  assumes "kv_engine kv view snap ok" "ok (kvState (srv_backend s))" "wf_store (view (kvState (srv_backend s)))" "wf_key (ERKey r)"
    and "RangeEnd r = []"
  shows "\<exists>res s'. etcd_Range kv net ctx r s = Some (res, s') \<and> ok (kvState (srv_backend s')) \<and> storeMap view s' = storeMap view s
    \<and> (\<forall>resp. res = Inr resp \<longrightarrow> \<not> EMore resp \<and> ECount resp = of_nat (length (EKvs resp))
         \<and> map (\<lambda>kv. (EKey kv, EValue kv, ModRevision kv)) (EKvs resp) =
             (case storeMap view s (ERKey r) (read_rev (ERRevision r)) of None \<Rightarrow> [] | Some (v, rv) \<Rightarrow> [(ERKey r, v, rv)]))"
proof -
  obtain e s1 where y: "SyncReadRevision net s = (e, s1)" by fastforce
  note f = SyncReadRevision_frame[OF y]
  let ?req = "\<lparr>GKey = ERKey r, GRevision = ERRevision r\<rparr>"
  from Get_law[OF assms(1), of "srv_backend s1" ?req] assms(2-4) f
  obtain res b' where g: "Get kv ?req (srv_backend s1) = Some (res, b')" "ok (kvState b')" "view (kvState b') = view (kvState (srv_backend s))"
      "\<And>resp. res = Inr resp \<Longrightarrow>
         storeMap view s (ERKey r) (read_rev (ERRevision r)) = map_option (\<lambda>kv. (Value kv, Revision kv)) (GKv resp)
         \<and> (\<forall>kv. GKv resp = Some kv \<longrightarrow> Key kv = ERKey r)"
    by auto
  show ?thesis
  proof (cases e)
    case (Some err)
    then show ?thesis using y f assms(2) by (simp add: etcd_Range_def)
  next
    case None
    have E: "etcd_Range kv net ctx r s = onBackend s1 (shim_Get kv r (srv_backend s1))"
      using y None assms(5) by (simp add: etcd_Range_def)
    show ?thesis
    proof (cases res)
      case (Inl err)
      then show ?thesis using E g(1-3) by (simp add: shim_Get_def)
    next
      case (Inr resp)
      then show ?thesis using E g(1-3) g(4)[OF Inr]
        by (cases "GKv resp") (auto simp: shim_Get_def emptyRange_def kvToEtcdKv_def)
    qed
  qed
qed

text \<open>
  C23: an etcd range with an end (not at the revision 1888, and not asking for a count only) on an engine that keeps the
  contract, at the leader or at a follower whatever its sync yields, does not panic and changes nothing that can be read. An
  answer holds exactly the keys of the range visible at the read revision, in order, cut at the limit, and says
  whether some were cut. Its count is the number of keys without a limit, but with one it is the smaller of that number and
  one more than the limit, not the total etcd reports.
\<close>

theorem Range_lists_visible:
  assumes "kv_engine_bordered kv view snap ok" "ok (kvState (srv_backend s))" "readable view (srv_backend s)"
    and "wf_key (ERKey r)" "wf_key (RangeEnd r)" "sint (ERLimit r) < 2 ^ 63 - 1" "ERRevision r \<noteq> 1888" "\<not> CountOnly r"
    and "ERKey r < RangeEnd r" "\<And>i a j. \<not> ctx i a j"
  shows "\<exists>res s'. etcd_Range kv net ctx r s = Some (res, s') \<and> ok (kvState (srv_backend s')) \<and> storeMap view s' = storeMap view s
    \<and> (\<forall>resp. res = Inr resp \<longrightarrow> EHeader resp = GetCurrentRevision (srv_backend s')
         \<and> (\<exists>L. listing (view (kvState (srv_backend s))) (readRevision (ERRevision r) (srv_backend s')) (\<lambda>k. ERKey r \<le> k \<and> k < RangeEnd r) L
              \<and> EKvs resp = map kvToEtcdKv (if 0 < sint (ERLimit r) then take (nat (sint (ERLimit r))) L else L)
              \<and> (EMore resp \<longleftrightarrow> 0 < sint (ERLimit r) \<and> nat (sint (ERLimit r)) < length L)
              \<and> ECount resp = of_nat (if 0 < sint (ERLimit r) then min (length L) (nat (sint (ERLimit r)) + 1) else length L)))"
proof -
  obtain e s1 where y: "SyncReadRevision net s = (e, s1)" by fastforce
  note f = SyncReadRevision_frame[OF y]
  let ?l = "sint (ERLimit r)" and ?req = "\<lparr>RKey = ERKey r, REnd = RangeEnd r, RRevision = ERRevision r, RLimit = sint (ERLimit r)\<rparr>"
  have ne: "length (RangeEnd r) \<noteq> 0" using assms(9) by (cases "RangeEnd r") auto
  have pre: "ok (kvState (srv_backend s1))" "readable view (srv_backend s1)" using f assms(2,3) by (simp_all add: readable_def)
  from kv_engine_bordered.List_reads[where ctx = ctx and r = ?req, OF assms(1) pre, unfolded RangeRequest.select_convs, OF assms(4-6,10) ne assms(9)]
  obtain res b' where g: "List kv ctx ?req (srv_backend s1) = Some (res, b')" "ok (kvState b')"
      "view (kvState b') = view (kvState (srv_backend s1))"
      "\<And>resp. res = Inr resp \<Longrightarrow> RHeader resp = GetCurrentRevision (srv_backend s1)
         \<and> (\<exists>L. listing (view (kvState (srv_backend s1))) (readRevision (ERRevision r) (srv_backend s1)) (\<lambda>k. ERKey r \<le> k \<and> k < RangeEnd r) L
              \<and> RKvs resp = (if 0 < ?l then take (nat ?l) L else L) \<and> (RMore resp \<longleftrightarrow> 0 < ?l \<and> nat ?l < length L))" by blast
  have "tso b' = tso (srv_backend s1)"
    using g(1) by (auto simp: List_def putScanner_def Let_def split: if_splits option.splits sum.splits prod.splits)
  then have tso: "GetCurrentRevision b' = GetCurrentRevision (srv_backend s1)" by (simp add: GetCurrentRevision_def)
  show ?thesis
  proof (cases e)
    case (Some err)
    then show ?thesis using y f assms(2) by (simp add: etcd_Range_def)
  next
    case None
    have E: "etcd_Range kv net ctx r s = onBackend s1 (shim_List kv ctx r (srv_backend s1))"
      using y None assms(7,8) ne by (simp add: etcd_Range_def GetPartitionMagic_def)
    show ?thesis
    proof (cases res)
      case (Inl err)
      then show ?thesis using E g(1-3) f by (simp add: shim_List_def)
    next
      case (Inr resp)
      from g(4)[OF this] obtain L where
        L: "listing (view (kvState (srv_backend s))) (readRevision (ERRevision r) (srv_backend s1)) (\<lambda>k. ERKey r \<le> k \<and> k < RangeEnd r) L"
          "RHeader resp = GetCurrentRevision (srv_backend s1)"
          "RKvs resp = (if 0 < ?l then take (nat ?l) L else L)" "RMore resp \<longleftrightarrow> 0 < ?l \<and> nat ?l < length L" using f by auto
      have cnt: "length (RKvs resp) + (if RMore resp then 1 else 0) = (if 0 < ?l then min (length L) (nat ?l + 1) else length L)"
        using L(3,4) by auto
      let ?resp = "\<lparr>EHeader = RHeader resp, EKvs = map kvToEtcdKv (RKvs resp), EMore = RMore resp,
        ECount = of_nat (length (RKvs resp) + (if RMore resp then 1 else 0))\<rparr>"
      have "etcd_Range kv net ctx r s = Some (Inr ?resp, s1\<lparr>srv_backend := b'\<rparr>)"
        unfolding E shim_List_def using g(1) Inr by (simp add: Let_def)
      moreover have "readRevision (ERRevision r) b' = readRevision (ERRevision r) (srv_backend s1)"
        by (simp add: readRevision_def tso)
      ultimately show ?thesis using g(2,3) f L(1,2,4) tso unfolding cnt L(3)
        by (intro exI[of _ "Inr ?resp"] exI[of _ "s1\<lparr>srv_backend := b'\<rparr>"]) (auto simp: L(3))
    qed
  qed
qed

section \<open>Sample runs\<close>

text \<open>A compare-and-put of the sample key.\<close>

definition sample_txn :: "rev \<Rightarrow> TxnRequest" where
  "sample_txn r =
     \<lparr>TCompare = [\<lparr>Result = Compare_EQUAL, Target = Compare_MOD, CompareKey = sample_key, ModRevisionUnion = Some r\<rparr>],
      TSuccess = [RequestPut \<lparr>PRKey = sample_key, PRValue = [3], PRLease = 0, IgnoreLease = False, IgnoreValue = False, PrevKv = False\<rparr>],
      TFailure = [RequestRange]\<rparr>"

lemma sample_txn:
  "isCreate (sample_txn r) = None" "isDelete (sample_txn r) = None" "isUpdate (sample_txn r) = Some (r, sample_key, [3], 0)"
  "txn_write (sample_txn r) = Some (sample_key, expects r, Some [3], r)"
  by (simp_all add: sample_txn_def isCreate_def isDelete_def isUpdate_def GetModRevision_def txn_write_def)

lemma storeMap_sample: "storeMap mem_view sample_leader sample_key MaxUint64 = Some ([1, 2], 5)"
  by (simp add: sample_leader_def visible_sample_store MaxUint64_def)

theorem Txn_refines_witness:
  "\<exists>res s'. etcd_Txn (memkv alist_skl) (\<lambda>_. Inl EOF) False (sample_txn 5) sample_leader = Some (res, s')
     \<and> store_ok mem_view (\<lambda>s. True) (srv_backend s')"
  using Txn_refines[OF alist.mem.kv_engine_axioms sample_server(1-3) sample_txn(4)[of 5], where forward = "\<lambda>_. Inl EOF"] sample_server(4)
  by (auto simp: wf_sample_key sample_update_value)

theorem Txn_succeeds_iff_compare_holds_witness:
  "\<exists>resp s'. etcd_Txn (memkv alist_skl) (\<lambda>_. Inl EOF) False (sample_txn 5) sample_leader = Some (Inr resp, s') \<and> TSucceeded resp"
  using Txn_succeeds_iff_compare_holds[OF alist.mem.kv_engine_reliable_axioms sample_server(1-3) sample_txn(4)[of 5], where forward = "\<lambda>_. Inl EOF"]
    sample_server(4)
  by (auto simp: wf_sample_key sample_update_value sample_txn(1) storeMap_sample modRevision_def)

theorem Range_lists_visible_witness:
  "\<exists>res s'. etcd_Range (memkv alist_skl) sample_net (\<lambda>i a j. False)
       \<lparr>ERKey = RKey sample_range, RangeEnd = REnd sample_range, ERLimit = 5, ERRevision = 7, CountOnly = False\<rparr> sample_follower = Some (res, s')
     \<and> (\<forall>resp. res = Inr resp \<longrightarrow> ECount resp = 1 \<and> \<not> EMore resp)"
proof -
  let ?r = "\<lparr>ERKey = RKey sample_range, RangeEnd = REnd sample_range, ERLimit = 5, ERRevision = 7, CountOnly = False\<rparr>"
  obtain res s' where "etcd_Range (memkv alist_skl) sample_net (\<lambda>i a j. False) ?r sample_follower = Some (res, s')"
    "\<And>resp. res = Inr resp \<Longrightarrow> \<exists>L. listing (mem_view sample_store) 7 (\<lambda>k. RKey sample_range \<le> k \<and> k < REnd sample_range) L
        \<and> (EMore resp \<longleftrightarrow> 5 < length L) \<and> ECount resp = of_nat (min (length L) 6)"
    using Range_lists_visible[where ctx = "\<lambda>i a j. False" and r = ?r and s = sample_follower and net = sample_net,
        OF alist.memb.kv_engine_bordered_axioms TrueI] readable_sample_backend sample_range_wf
    by (auto simp: sample_sync readRevision_def)
  then show ?thesis using listing_sample[of 7 "\<lambda>k. RKey sample_range \<le> k \<and> k < REnd sample_range"] sample_range_wf by fastforce
qed

end
