(* ===== verification/EtcdWatch.thy ===== *)
theory EtcdWatch
  imports EtcdKv
begin

text \<open>
  \<^verbatim>\<open>pkg/server/etcd/watch.go\<close> and the streaming part of \<^verbatim>\<open>pkg/server/etcd/backendshim.go\<close>: watches and range streams of the etcd
  protocol on one gRPC stream. A channel is the list of what it delivers until it is closed. The client's stream is
  \<open>send\<close>: the result of the \<open>i\<close>-th message that is sent on it. The goroutines of a watcher work on watch ids of their own and
  meet only in the map of watches and on the stream; each is a function of the watcher's state here.
\<close>

section \<open>Messages\<close>

datatype EtcdEventType = EtcdPUT | EtcdDELETE

record EtcdEvent =
  EType :: EtcdEventType
  EvKv :: EtcdKeyValue
  EvPrevKv :: "EtcdKeyValue option"

record WatchResponse =
  WRHeader :: int64
  WatchId :: int64
  Created :: bool
  Canceled :: bool
  CancelReason :: "error option"
  CompactRevision :: int64
  WREvents :: "EtcdEvent list"

definition emptyWatchResponse :: WatchResponse where
  "emptyWatchResponse = \<lparr>WRHeader = 0, WatchId = 0, Created = False, Canceled = False, CancelReason = None,
     CompactRevision = 0, WREvents = []\<rparr>"

record WatchCreateRequest =
  WCKey :: bytes
  WCRangeEnd :: bytes
  StartRevision :: int64

section \<open>The backend's channels under the etcd protocol\<close>

definition transformEvent :: "Event \<Rightarrow> EtcdEvent" where
  "transformEvent e =
     (if Type e = Event_CREATE \<or> Type e = Event_PUT then
        let kv = kvToEtcdKv (Kv e) in \<lparr>EType = EtcdPUT, EvKv = kv\<lparr>CreateRevision := ModRevision kv\<rparr>, EvPrevKv = None\<rparr>
      else \<lparr>EType = EtcdDELETE, EvKv = emptyKv\<lparr>ModRevision := EvRevision e, EKey := Key (Kv e)\<rparr>,
            EvPrevKv = Some (kvToEtcdKv (Kv e))\<rparr>)"

definition shim_Watch ::
    "bytes \<Rightarrow> rev \<Rightarrow> 's backend \<Rightarrow> WatcherHub \<Rightarrow> ((error + nat \<times> Event list list \<times> rev) \<times> WatcherHub) option" where
  "shim_Watch key revision b w = Watch key revision b w"

text \<open>The goroutine that transforms the batches of a watch.\<close>

definition transformWatch :: "Event list list \<Rightarrow> EtcdEvent list list" where
  "transformWatch ch = map (map transformEvent) ch"

text \<open>The goroutine that transforms the messages of a range stream; the last one, without \<^verbatim>\<open>More\<close>, becomes a cancellation.\<close>

definition transformStream :: "StreamRangeResponse list \<Rightarrow> WatchResponse list" where
  "transformStream ch =
     map (\<lambda>response.
            if \<not> SMore response
            then emptyWatchResponse\<lparr>WRHeader := SHeader response, Canceled := True, CancelReason := SErr response\<rparr>
            else emptyWatchResponse\<lparr>WRHeader := SHeader response,
                   WREvents := map (\<lambda>kv. \<lparr>EType = EtcdPUT, EvKv = kvToEtcdKv kv, EvPrevKv = None\<rparr>) (SKvs response)\<rparr>) ch"

definition shim_ListByStream ::
    "'s kv_storage \<Rightarrow> (nat \<Rightarrow> nat \<Rightarrow> nat \<Rightarrow> bool) \<Rightarrow> bytes \<Rightarrow> bytes \<Rightarrow> rev \<Rightarrow> 's backend \<Rightarrow> (WatchResponse list \<times> 's backend) option" where
  "shim_ListByStream kv ctx startKey endKey revision b =
     map_option (\<lambda>(ch, b'). (transformStream ch, b')) (ListByStream kv ctx startKey endKey revision b)"

section \<open>The watcher of a stream\<close>

text \<open>
  The watches by id, the ids whose context was cancelled, what was sent, how many sends there were, and the counter of ids
  (process-wide in the code).
\<close>

record watcher =
  watches :: "(int64 \<times> bytes \<times> bytes) list"
  ctxDone :: "int64 list"
  sent :: "WatchResponse list"
  sends :: nat
  watchID :: int64

definition Send :: "(nat \<Rightarrow> error option) \<Rightarrow> WatchResponse \<Rightarrow> watcher \<Rightarrow> error option \<times> watcher" where
  "Send send m w =
     (case send (sends w) of
        None \<Rightarrow> (None, w\<lparr>sends := sends w + 1, sent := sent w @ [m]\<rparr>)
      | Some err \<Rightarrow> (Some err, w\<lparr>sends := sends w + 1\<rparr>))"

definition dropWatch :: "int64 \<Rightarrow> watcher \<Rightarrow> watcher" where
  "dropWatch i w =
     (if i \<in> fst ` set (watches w)
      then w\<lparr>watches := filter (\<lambda>x. fst x \<noteq> i) (watches w), ctxDone := i # ctxDone w\<rparr> else w)"

definition watcher_Cancel :: "(nat \<Rightarrow> error option) \<Rightarrow> int64 \<Rightarrow> bool \<Rightarrow> watcher \<Rightarrow> watcher" where
  "watcher_Cancel send i compacted w =
     (let w1 = dropWatch i w;
          compRev = (if compacted then 1 else 0)
      in snd (Send send (emptyWatchResponse\<lparr>Canceled := True, CancelReason := Some (OtherErr ''watch closed''),
                          WatchId := i, CompactRevision := compRev\<rparr>) w1))"

definition watcher_Close :: "watcher \<Rightarrow> watcher" where
  "watcher_Close w = w\<lparr>ctxDone := map fst (watches w) @ ctxDone w\<rparr>"

definition isPureWatchRequest :: "WatchCreateRequest \<Rightarrow> bool" where
  "isPureWatchRequest r \<longleftrightarrow> prefix (bytes_of_string ''/'') (WCKey r)"

text \<open>What \<^verbatim>\<open>Start\<close> sets going: nothing when the client could not be told, else a range stream or a watch.\<close>

datatype started = NotStarted | StartList int64 | StartWatch int64

definition watcher_Start ::
    "(nat \<Rightarrow> error option) \<Rightarrow> WatchCreateRequest \<Rightarrow> watcher \<Rightarrow> started \<times> watcher" where
  "watcher_Start send r w =
     (let i = watchID w + 1;
          w1 = w\<lparr>watchID := i, watches := (i, WCKey r, WCRangeEnd r) # filter (\<lambda>x. fst x \<noteq> i) (watches w)\<rparr>
      in case Send send (emptyWatchResponse\<lparr>Created := True, WatchId := i\<rparr>) w1 of
           (Some err, w2) \<Rightarrow> (NotStarted, watcher_Cancel send i False w2)
         | (None, w2) \<Rightarrow> (if sint (StartRevision r) < 0 then StartList i else StartWatch i, w2))"

text \<open>
  The loop of a range stream: the closing message becomes an \<^verbatim>\<open>eof\<close> event under revision -1. \<open>errText\<close> is the text of an
  error.
\<close>

definition eofEvent :: "(error \<Rightarrow> bytes) \<Rightarrow> error option \<Rightarrow> EtcdEvent" where
  "eofEvent errText reason = \<lparr>EType = EtcdPUT,
     EvKv = emptyKv\<lparr>EKey := bytes_of_string ''eof'',
       EValue := (case reason of None \<Rightarrow> [] | Some err \<Rightarrow> errText err), ModRevision := GetPartitionMagic\<rparr>,
     EvPrevKv = None\<rparr>"

definition listResponse :: "(error \<Rightarrow> bytes) \<Rightarrow> int64 \<Rightarrow> int64 \<Rightarrow> WatchResponse \<Rightarrow> WatchResponse" where
  "listResponse errText i start m =
     (if Canceled m then emptyWatchResponse\<lparr>WRHeader := -1, WatchId := i, WREvents := [eofEvent errText (CancelReason m)]\<rparr>
      else emptyWatchResponse\<lparr>WRHeader := - start, WatchId := i, WREvents := WREvents m\<rparr>)"

fun listLoop :: "(error \<Rightarrow> bytes) \<Rightarrow> (nat \<Rightarrow> error option) \<Rightarrow> int64 \<Rightarrow> int64 \<Rightarrow> WatchResponse list \<Rightarrow> watcher \<Rightarrow> watcher" where
  "listLoop errText send i start [] w = w"
| "listLoop errText send i start (m # ch) w =
     (case Send send (listResponse errText i start m) w of
        (None, w1) \<Rightarrow> listLoop errText send i start ch w1
      | (Some err, w1) \<Rightarrow> listLoop errText send i start ch (watcher_Cancel send i True w1))"

definition watcher_List ::
    "(error \<Rightarrow> bytes) \<Rightarrow> 's kv_storage \<Rightarrow> network \<Rightarrow> (nat \<Rightarrow> nat \<Rightarrow> nat \<Rightarrow> bool) \<Rightarrow> (nat \<Rightarrow> error option) \<Rightarrow> int64 \<Rightarrow> WatchCreateRequest \<Rightarrow> 's server \<Rightarrow> watcher
     \<Rightarrow> ('s server \<times> watcher) option" where
  "watcher_List errText kv net ctx send i r s w =
     (case SyncReadRevision net s of
        (Some err, s1) \<Rightarrow> Some (s1, watcher_Cancel send i True w)
      | (None, s1) \<Rightarrow>
          (case shim_ListByStream kv ctx (WCKey r) (WCRangeEnd r) (- StartRevision r) (srv_backend s1) of
             None \<Rightarrow> None
           | Some (ch, b) \<Rightarrow> Some (s1\<lparr>srv_backend := b\<rparr>, dropWatch i (listLoop errText send i (StartRevision r) ch w))))"

text \<open>The loop of a watch; after a failed send the rest of the channel is drained.\<close>

definition watchResponse :: "int64 \<Rightarrow> EtcdEvent list \<Rightarrow> WatchResponse" where
  "watchResponse i evs = emptyWatchResponse\<lparr>WRHeader := ModRevision (EvKv (last evs)), WatchId := i, WREvents := evs\<rparr>"

fun watchEvents :: "(nat \<Rightarrow> error option) \<Rightarrow> int64 \<Rightarrow> EtcdEvent list list \<Rightarrow> watcher \<Rightarrow> watcher" where
  "watchEvents send i [] w = w"
| "watchEvents send i (evs # ch) w =
     (if length evs = 0 then watchEvents send i ch w
      else case Send send (watchResponse i evs) w of
             (None, w1) \<Rightarrow> watchEvents send i ch w1
           | (Some err, w1) \<Rightarrow> watcher_Cancel send i False w1)"

text \<open>
  \<^verbatim>\<open>watcher.Watch\<close>, given what the backend of the leader, or the leader through the proxy, answered: an error, or
  the channel.
\<close>

definition watcher_Watch ::
    "(nat \<Rightarrow> error option) \<Rightarrow> int64 \<Rightarrow> WatchCreateRequest \<Rightarrow> error + EtcdEvent list list \<Rightarrow> watcher \<Rightarrow> watcher" where
  "watcher_Watch send i r opened w =
     (if \<not> isPureWatchRequest r then watcher_Cancel send i True w
      else case opened of
             Inl err \<Rightarrow> watcher_Cancel send i True w
           | Inr ch \<Rightarrow> watcher_Cancel send i False (watchEvents send i ch w))"

section \<open>The handler of a stream\<close>

datatype WatchMessage = CreateMsg WatchCreateRequest | CancelMsg int64 | ProgressMsg | OtherMsg

text \<open>
  One message of the client. The result is the error the stream ends with, if it ends, what was set going, and the
  watcher.
\<close>

definition followerWatchErr :: "'s server \<Rightarrow> error" where
  "followerWatchErr s = OtherErr (''watch error addr is %s leader '' @ GetLeaderInfo (srv_lock s))"

definition etcd_Watch ::
    "(nat \<Rightarrow> error option) \<Rightarrow> 's server \<Rightarrow> WatchMessage \<Rightarrow> watcher \<Rightarrow> error option \<times> started \<times> watcher" where
  "etcd_Watch send s msg w =
     (case msg of
        CreateMsg r \<Rightarrow>
          if sint (StartRevision r) \<ge> 0 \<and> isPureWatchRequest r \<and> \<not> srv_leader s \<and> \<not> srv_proxy s
          then (Some (followerWatchErr s), NotStarted, w)
          else case watcher_Start send r w of (st, w1) \<Rightarrow> (None, st, w1)
      | CancelMsg i \<Rightarrow> (None, NotStarted, watcher_Cancel send i False w)
      | ProgressMsg \<Rightarrow>
          (case Send send (emptyWatchResponse\<lparr>WRHeader := GetCurrentRevision (srv_backend s), WatchId := -1\<rparr>) w of
             (err, w1) \<Rightarrow> (err, NotStarted, w1))
      | OtherMsg \<Rightarrow> (None, NotStarted, w))"

section \<open>What the client of a watch sees\<close>

definition cancelResponse :: "int64 \<Rightarrow> bool \<Rightarrow> WatchResponse" where
  "cancelResponse i compacted = emptyWatchResponse\<lparr>Canceled := True, CancelReason := Some (OtherErr ''watch closed''),
     WatchId := i, CompactRevision := (if compacted then 1 else 0)\<rparr>"

lemma sent_dropWatch [simp]: "sent (dropWatch i w) = sent w" "sends (dropWatch i w) = sends w"
  by (simp_all add: dropWatch_def)

lemma watches_dropWatch: "i \<notin> fst ` set (watches (dropWatch i w))"
  by (auto simp: dropWatch_def)

lemma watches_Send [simp]: "watches (snd (Send send m w)) = watches w"
  by (simp add: Send_def split: option.splits)

lemma Cancel_sends:
  "sent (watcher_Cancel send i c w) = sent w @ (if send (sends w) = None then [cancelResponse i c] else [])"
  "i \<notin> fst ` set (watches (watcher_Cancel send i c w))"
  using watches_dropWatch[of i w]
  by (simp_all add: watcher_Cancel_def Let_def cancelResponse_def Send_def split: option.splits)

lemma watchEvents_sends:
  "\<exists>n ms. sent (watchEvents send i ch w) = sent w @ ms
     \<and> filter (\<lambda>m. \<not> Canceled m) ms = map (watchResponse i) (filter (\<lambda>evs. evs \<noteq> []) (take n ch))
     \<and> ((\<forall>k. send k = None) \<longrightarrow> length ch \<le> n \<and> (\<forall>m \<in> set ms. \<not> Canceled m))"
proof (induction ch arbitrary: w)
  case (Cons evs ch)
  show ?case
  proof (cases "evs = []")
    case True
    obtain n ms where "sent (watchEvents send i ch w) = sent w @ ms"
      "filter (\<lambda>m. \<not> Canceled m) ms = map (watchResponse i) (filter (\<lambda>evs. evs \<noteq> []) (take n ch))"
      "(\<forall>k. send k = None) \<longrightarrow> length ch \<le> n \<and> (\<forall>m \<in> set ms. \<not> Canceled m)" using Cons.IH[of w] by blast
    then show ?thesis using True by (intro exI[of _ "Suc n"] exI[of _ ms]) simp
  next
    case False
    show ?thesis
    proof (cases "send (sends w)")
      case None
      let ?w = "w\<lparr>sends := sends w + 1, sent := sent w @ [watchResponse i evs]\<rparr>"
      obtain n ms where "sent (watchEvents send i ch ?w) = sent ?w @ ms"
        "filter (\<lambda>m. \<not> Canceled m) ms = map (watchResponse i) (filter (\<lambda>evs. evs \<noteq> []) (take n ch))"
        "(\<forall>k. send k = None) \<longrightarrow> length ch \<le> n \<and> (\<forall>m \<in> set ms. \<not> Canceled m)" using Cons.IH[of ?w] by blast
      then show ?thesis using False None
        by (intro exI[of _ "Suc n"] exI[of _ "watchResponse i evs # ms"])
           (simp add: Send_def watchResponse_def emptyWatchResponse_def)
    next
      case (Some err)
      then show ?thesis using False Cancel_sends(1)[of send i False "w\<lparr>sends := sends w + 1\<rparr>"]
        by (intro exI[of _ 0] exI[of _ "if send (sends w + 1) = None then [cancelResponse i False] else []"])
           (auto simp: Send_def cancelResponse_def)
    qed
  qed
qed (auto intro: exI[of _ 0])

lemma concat_watchResponses: "concat (map WREvents (map (watchResponse i) (filter (\<lambda>evs. evs \<noteq> []) ch))) = concat ch"
  by (induction ch) (auto simp: watchResponse_def)

lemma Canceled_watchResponse [simp]: "\<not> Canceled (watchResponse i evs)"
  by (simp add: watchResponse_def emptyWatchResponse_def)

text \<open>What \<^verbatim>\<open>watcher.Watch\<close> sends for a channel of the backend.\<close>

lemma watcher_Watch_sends:
  assumes "isPureWatchRequest r"
  shows "\<exists>ms. sent (watcher_Watch send i r (Inr (transformWatch ch)) w) = sent w @ ms
      \<and> prefix (concat (map WREvents (filter (\<lambda>m. \<not> Canceled m) ms))) (map transformEvent (concat ch))
      \<and> (\<forall>m \<in> set ms. \<not> Canceled m \<longrightarrow> WatchId m = i \<and> WREvents m \<noteq> [] \<and> WRHeader m = ModRevision (EvKv (last (WREvents m))))
      \<and> ((\<forall>k. send k = None) \<longrightarrow> concat (map WREvents (butlast ms)) = map transformEvent (concat ch)
           \<and> ms \<noteq> [] \<and> last ms = cancelResponse i False \<and> (\<forall>m \<in> set (butlast ms). \<not> Canceled m))"
proof -
  let ?ch = "transformWatch ch"
  obtain n ms where S: "sent (watchEvents send i ?ch w) = sent w @ ms"
      "filter (\<lambda>m. \<not> Canceled m) ms = map (watchResponse i) (filter (\<lambda>evs. evs \<noteq> []) (take n ?ch))"
      "(\<forall>k. send k = None) \<longrightarrow> length ?ch \<le> n \<and> (\<forall>m \<in> set ms. \<not> Canceled m)"
    using watchEvents_sends by blast
  define c where "c = (if send (sends (watchEvents send i ?ch w)) = None then [cancelResponse i False] else [])"
  have sw: "sent (watcher_Watch send i r (Inr ?ch) w) = sent w @ ms @ c"
    using assms S(1) Cancel_sends(1)[of send i False "watchEvents send i ?ch w"] by (simp add: watcher_Watch_def c_def)
  have fc: "filter (\<lambda>m. \<not> Canceled m) c = []" by (simp add: c_def cancelResponse_def)
  have all: "concat ?ch = map transformEvent (concat ch)" by (simp add: transformWatch_def map_concat)
  have tk: "concat (map WREvents (filter (\<lambda>m. \<not> Canceled m) ms)) = concat (take n ?ch)"
    unfolding S(2) by (rule concat_watchResponses)
  have "concat ?ch = concat (take n ?ch) @ concat (drop n ?ch)" by (metis append_take_drop_id concat_append)
  then have 1: "prefix (concat (map WREvents (filter (\<lambda>m. \<not> Canceled m) (ms @ c)))) (map transformEvent (concat ch))"
    unfolding filter_append fc append_Nil2 tk all[symmetric] by (metis prefixI)
  have 2: "WatchId m = i \<and> WREvents m \<noteq> [] \<and> WRHeader m = ModRevision (EvKv (last (WREvents m)))"
    if "m \<in> set (ms @ c)" "\<not> Canceled m" for m
  proof -
    have "m \<in> set (filter (\<lambda>m. \<not> Canceled m) (ms @ c))" using that by simp
    then show ?thesis unfolding filter_append fc append_Nil2 S(2) by (auto simp: watchResponse_def)
  qed
  have 3: "concat (map WREvents (butlast (ms @ c))) = map transformEvent (concat ch) \<and> ms @ c \<noteq> []
      \<and> last (ms @ c) = cancelResponse i False \<and> (\<forall>m \<in> set (butlast (ms @ c)). \<not> Canceled m)" if "\<forall>k. send k = None"
  proof -
    have "c = [cancelResponse i False]" using that by (simp add: c_def)
    moreover have "\<forall>m \<in> set ms. \<not> Canceled m" "take n ?ch = ?ch" using S(3) that by auto
    moreover then have "concat (map WREvents ms) = concat ?ch" using tk by (simp add: filter_True)
    ultimately show ?thesis using all by (simp add: butlast_append)
  qed
  show ?thesis by (intro exI[of _ "ms @ c"]) (use sw 1 2 3 in blast)
qed


section \<open>What the client of a range stream sees\<close>

lemma listLoop_sends:
  "(\<And>k. send k = None) \<Longrightarrow> sent (listLoop errText send i start ch w) = sent w @ map (listResponse errText i start) ch"
  by (induction ch arbitrary: w) (simp_all add: Send_def)

lemma ListByStream_last: "ListByStream kv ctx x y R b = Some (stream, b') \<Longrightarrow> SKvs (last stream) = []"
  by (auto simp: ListByStream_def RangeStream_def getListStreamEnd_def Let_def split: option.splits prod.splits receiver.splits)

abbreviation streamPairs :: "WatchResponse list \<Rightarrow> EtcdKeyValue list" where
  "streamPairs ms \<equiv> map EvKv (concat (map WREvents ms))"

lemma streamPairs_batches:
  "\<forall>m \<in> set ch. SMore m \<Longrightarrow> streamPairs (map (listResponse errText i start) (transformStream ch)) = map kvToEtcdKv (concat (map SKvs ch))"
  by (induction ch) (simp_all add: transformStream_def listResponse_def emptyWatchResponse_def)


section \<open>Sample runs\<close>

definition sample_watcher :: watcher where
  "sample_watcher = \<lparr>watches = [(1, sample_key, [])], ctxDone = [], sent = [], sends = 0, watchID = 1\<rparr>"



end
