(* ===== verification/EtcdProxy.thy ===== *)
theory EtcdProxy
  imports EtcdWatch
begin

text \<open>
  \<^verbatim>\<open>pkg/server/service/etcdproxy\<close>: a follower forwards etcd transactions and watches to the leader through an etcd client. The
  client (\<^verbatim>\<open>clientv3\<close>) is a parameter: \<open>New\<close> makes one for an address, with or without TLS, and \<open>MemberList\<close> is the
  call by which the proxy checks its connection. Both may answer differently in every round of the loop that
  maintains the connection, so each round has its own.
\<close>

section \<open>The proxy\<close>

text \<open>
  The channel \<^verbatim>\<open>closed\<close> by which watches learn that the connection went away is the number of the connection: resetting the
  client closes the channel with the current number and makes the next one.
\<close>

record 'c etcdProxy =
  client :: "'c option"
  perr :: "error option"
  curLeader :: string
  closedCh :: nat
  tlsConfig :: bool

record 'c dialer =
  New :: "string \<Rightarrow> bool \<Rightarrow> error + 'c"
  MemberList :: "'c \<Rightarrow> error option"

definition checkConn :: "'c dialer \<Rightarrow> 'c etcdProxy \<Rightarrow> error option" where
  "checkConn d e = (case client e of None \<Rightarrow> perr e | Some c \<Rightarrow> MemberList d c)"

definition resetClient :: "'c etcdProxy \<Rightarrow> 'c etcdProxy" where
  "resetClient e = e\<lparr>client := None, closedCh := closedCh e + 1\<rparr>"

text \<open>\<^verbatim>\<open>status.Error(codes.Internal, ...)\<close>.\<close>

definition internalErr :: error where
  "internalErr = OtherErr ''rpc error: code = Internal desc = %s''"

text \<open>The loop over the TLS configurations, and what follows it.\<close>

fun dialLoop :: "'c dialer \<Rightarrow> bool list \<Rightarrow> 'c etcdProxy \<Rightarrow> 'c etcdProxy" where
  "dialLoop d [] e = e\<lparr>curLeader := [], client := None\<rparr>"
| "dialLoop d (tls # rest) e =
     (case New d (curLeader e) tls of
        Inl err \<Rightarrow> e\<lparr>client := None, perr := Some internalErr\<rparr>
      | Inr c \<Rightarrow>
          (case checkConn d (e\<lparr>client := Some c, perr := None\<rparr>) of
             None \<Rightarrow> e\<lparr>client := Some c, perr := None\<rparr>
           | Some err \<Rightarrow>
               if errors_is err deadlineErr then dialLoop d rest (e\<lparr>client := Some c, perr := None\<rparr>)
               else e\<lparr>client := None, perr := Some err, curLeader := []\<rparr>))"

text \<open>One round, on a node that is the leader or not and takes \<open>leaderInfo\<close> for the leader's address.\<close>

definition updateClient :: "'c dialer \<Rightarrow> bool \<Rightarrow> string \<Rightarrow> 'c etcdProxy \<Rightarrow> 'c etcdProxy" where
  "updateClient d isLeader leaderInfo e =
     (case checkConn d e of
        Some err \<Rightarrow> resetClient (e\<lparr>curLeader := []\<rparr>)
      | None \<Rightarrow>
          if isLeader then resetClient e
          else if leaderInfo = curLeader e \<or> leaderInfo = ''empty'' \<or> leaderInfo = [] then e
          else dialLoop d (if tlsConfig e then [True, False] else [False])
                 (resetClient (e\<lparr>curLeader := leaderInfo\<rparr>)))"

definition NewEtcdProxy :: "'c dialer \<Rightarrow> bool \<Rightarrow> string \<Rightarrow> bool \<Rightarrow> 'c etcdProxy" where
  "NewEtcdProxy d isLeader leaderInfo tls =
     updateClient d isLeader leaderInfo \<lparr>client = None, perr = None, curLeader = [], closedCh = 0, tlsConfig = tls\<rparr>"

text \<open>The rounds of \<^verbatim>\<open>checkLeaderLoop\<close>.\<close>

fun checkLeaderLoop :: "('c dialer \<times> bool \<times> string) list \<Rightarrow> 'c etcdProxy \<Rightarrow> 'c etcdProxy" where
  "checkLeaderLoop [] e = e"
| "checkLeaderLoop ((d, isLeader, leaderInfo) # rounds) e = checkLeaderLoop rounds (updateClient d isLeader leaderInfo e)"

section \<open>Forwarding\<close>

definition notReadyErr :: error where
  "notReadyErr = OtherErr ''no ready right now''"

definition Ready :: "'c etcdProxy \<Rightarrow> error option" where
  "Ready e = (if client e = None then Some notReadyErr else None)"

text \<open>\<open>call\<close> is the transaction of the client on its connection.\<close>

definition proxy_Txn :: "('c \<Rightarrow> TxnRequest \<Rightarrow> error + TxnResponse) \<Rightarrow> 'c etcdProxy \<Rightarrow> TxnRequest \<Rightarrow> error + TxnResponse" where
  "proxy_Txn call e txn =
     (case Ready e of
        Some err \<Rightarrow> Inl err
      | None \<Rightarrow> call (the (client e)) txn)"

text \<open>What the goroutine of a forwarded watch meets, in order, and the batches it passes on.\<close>

datatype watchInput = LeaderChange | WatchCtxDone | InputClosed | WResp "error option" "EtcdEvent list"

fun forwardWatch :: "watchInput list \<Rightarrow> EtcdEvent list list" where
  "forwardWatch [] = []"
| "forwardWatch (WResp None evs # input) = evs # forwardWatch input"
| "forwardWatch (WResp (Some err) evs # input) = []"
| "forwardWatch (_ # input) = []"

definition proxy_Watch :: "('c \<Rightarrow> bytes \<Rightarrow> rev \<Rightarrow> watchInput list) \<Rightarrow> 'c etcdProxy \<Rightarrow> bytes \<Rightarrow> rev \<Rightarrow> error + EtcdEvent list list" where
  "proxy_Watch open e key revision =
     (case Ready e of
        Some err \<Rightarrow> Inl err
      | None \<Rightarrow> Inr (forwardWatch (open (the (client e)) key revision)))"

section \<open>The disabled proxy\<close>

definition errDisabled :: error where
  "errDisabled = OtherErr ''etcd proxy is disabled''"

definition disabled_Txn :: "TxnRequest \<Rightarrow> error + TxnResponse" where
  "disabled_Txn txn = Inl errDisabled"

definition disabled_Watch :: "bytes \<Rightarrow> rev \<Rightarrow> error + EtcdEvent list list" where
  "disabled_Watch key revision = Inl errDisabled"

section \<open>The connection\<close>

text \<open>
  An open connection is one to a leader known by address, and no error is left over beside it; when it was just dialled, the
  client is one made for that address and the leader answered on it.
\<close>

definition connected :: "'c etcdProxy \<Rightarrow> bool" where
  "connected e \<longleftrightarrow> (client e \<noteq> None \<longrightarrow> curLeader e \<noteq> [] \<and> curLeader e \<noteq> ''empty'' \<and> perr e = None)"

lemma dialLoop_client: "client (dialLoop d ts e) = Some c \<Longrightarrow> curLeader (dialLoop d ts e) = curLeader e
    \<and> perr (dialLoop d ts e) = None \<and> MemberList d c = None \<and> (\<exists>tls \<in> set ts. New d (curLeader e) tls = Inr c)"
proof (induction ts arbitrary: e)
  case (Cons t ts)
  then show ?case using Cons.IH[of "e\<lparr>client := Some (projr (New d (curLeader e) t)), perr := None\<rparr>"]
    by (auto simp: checkConn_def split: sum.splits option.splits if_splits)
qed simp

lemma updateClient_connected: "connected e \<Longrightarrow> connected (updateClient d l i e)"
  using dialLoop_client[of d "if tlsConfig e then [True, False] else [False]" "resetClient (e\<lparr>curLeader := i\<rparr>)"]
  by (auto simp del: dialLoop.simps simp: updateClient_def connected_def resetClient_def split: option.splits)

lemma checkLeaderLoop_connected: "connected e \<Longrightarrow> connected (checkLeaderLoop rounds e)"
  by (induction rounds e rule: checkLeaderLoop.induct) (simp_all add: updateClient_connected)

lemma NewEtcdProxy_connected: "connected (NewEtcdProxy d l i tls)"
  unfolding NewEtcdProxy_def by (rule updateClient_connected) (simp add: connected_def)

text \<open>A follower without connection and without a left over error connects to the leader it knows, if the leader answers.\<close>

lemma updateClient_dials:
  assumes "client e = None" "perr e = None" "i \<noteq> curLeader e" "i \<noteq> ''empty''" "i \<noteq> []"
    and "New d i (tlsConfig e) = Inr c" "MemberList d c = None"
  shows "client (updateClient d False i e) = Some c \<and> curLeader (updateClient d False i e) = i"
  using assms by (cases "tlsConfig e") (simp_all add: updateClient_def checkConn_def resetClient_def)

text \<open>An error that is left over without a client blocks every later round.\<close>

lemma updateClient_stuck:
  "client e = None \<Longrightarrow> perr e = Some err \<Longrightarrow> client (updateClient d l i e) = None \<and> perr (updateClient d l i e) = Some err"
  by (simp add: updateClient_def checkConn_def resetClient_def)

lemma checkLeaderLoop_stuck:
  "client e = None \<Longrightarrow> perr e = Some err \<Longrightarrow> client (checkLeaderLoop rounds e) = None"
  by (induction rounds e rule: checkLeaderLoop.induct) (simp_all add: updateClient_stuck)

text \<open>Nor does a node dial again a leader whose address it remembers.\<close>

lemma updateClient_remembers:
  "client e = None \<Longrightarrow> perr e = None \<Longrightarrow> updateClient d False (curLeader e) e = e"
  by (simp add: updateClient_def checkConn_def)

lemma checkLeaderLoop_remembers:
  "client e = None \<Longrightarrow> perr e = None \<Longrightarrow> \<forall>(d, l, i) \<in> set rounds. \<not> l \<and> i = curLeader e \<Longrightarrow> checkLeaderLoop rounds e = e"
  by (induction rounds) (auto simp: updateClient_remembers)

section \<open>Properties\<close>


text \<open>
  A follower of a leader that leads itself for a round and then follows the same leader again never reconnects: the
  remembered address is not cleared when the client is reset.
\<close>

lemma proxy_misses_returning_leader:
  assumes "client e = Some c" "perr e = None" "MemberList d c = None" "\<forall>(d, l, i) \<in> set rounds. \<not> l \<and> i = curLeader e"
  shows "proxy_Txn call (checkLeaderLoop ((d, True, info) # rounds) e) txn = Inl notReadyErr"
  using assms checkLeaderLoop_remembers[of "resetClient e" rounds]
  by (simp add: updateClient_def checkConn_def proxy_Txn_def Ready_def resetClient_def)

section \<open>Sample runs\<close>

text \<open>A leader that is not up yet in the first round and answers in the later ones.\<close>

definition sample_dialer :: "error option \<Rightarrow> nat dialer" where
  "sample_dialer err = \<lparr>New = (\<lambda>addr tls. Inr 1), MemberList = (\<lambda>c. err)\<rparr>"

definition sample_proxy :: "nat etcdProxy" where
  "sample_proxy = \<lparr>client = None, perr = None, curLeader = [], closedCh = 0, tlsConfig = False\<rparr>"


end
