(* ===== verification/StorageMetrics.thy ===== *)
theory StorageMetrics
  imports Compact
begin

text \<open>
  \<^verbatim>\<open>pkg/storage/metrics/store.go\<close>: the wrapper the program puts around its engine to count calls. The emitted metrics are a
  log beside the state of the engine; the durations are read off a clock and left out of a metric (its value is \<open>None\<close>).
  The wrapper keeps every contract of the engine it wraps.
\<close>

section \<open>Metrics\<close>

datatype metricKind = CounterKind | GaugeKind | HistogramKind

record metric =
  mKind :: metricKind
  mName :: string
  mValue :: "int option"
  mTags :: "(string \<times> string) list"

record 's storeWrapper =
  KvStorage :: 's
  emitted :: "metric list"

definition emitMetric :: "metricKind \<Rightarrow> string \<Rightarrow> int option \<Rightarrow> (string \<times> string) list \<Rightarrow> 's storeWrapper \<Rightarrow> 's storeWrapper" where
  "emitMetric kind name val tags w = w\<lparr>emitted := emitted w @ [\<lparr>mKind = kind, mName = name, mValue = val, mTags = tags\<rparr>]\<rparr>"

definition genStateTag :: "error option \<Rightarrow> string \<times> string" where
  "genStateTag err =
     (''state'',
      case err of
        None \<Rightarrow> ''success''
      | Some e \<Rightarrow> if errors_is e ErrKeyNotFound then ''key_not_found''
                  else if errors_is e ErrCASFailed then ''cas_failed'' else ''error'')"

definition errOf :: "error + 'a \<Rightarrow> error option" where
  "errOf r = (case r of Inl e \<Rightarrow> Some e | Inr _ \<Rightarrow> None)"

text \<open>\<^verbatim>\<open>time\<close>: the metric of a call that ended with \<open>err\<close>.\<close>

definition wrapper_time :: "error option \<Rightarrow> string \<Rightarrow> 's storeWrapper \<Rightarrow> 's storeWrapper" where
  "wrapper_time err op w = emitMetric HistogramKind ''storage.op'' None [genStateTag err, (''op'', op)] w"

section \<open>The operations\<close>

definition wrapper_Get :: "'s kv_storage \<Rightarrow> 's storeWrapper \<Rightarrow> bytes \<Rightarrow> (error + bytes) \<times> 's storeWrapper" where
  "wrapper_Get kv w key =
     (case kv_Get kv (KvStorage w) key of (r, s) \<Rightarrow> (r, wrapper_time (errOf r) ''get'' (w\<lparr>KvStorage := s\<rparr>)))"

text \<open>\<^verbatim>\<open>newIterWrapper\<close> emits a metric of its own.\<close>

definition limitedTag :: "rev \<Rightarrow> string \<times> string" where
  "limitedTag limit = (''limited'', if limit > 0 then ''true'' else ''false'')"

definition wrapper_Iter ::
    "'s kv_storage \<Rightarrow> 's storeWrapper \<Rightarrow> bytes \<Rightarrow> bytes \<Rightarrow> rev \<Rightarrow> rev \<Rightarrow> (error + iter) \<times> 's storeWrapper" where
  "wrapper_Iter kv w start stop timestamp limit =
     (case kv_Iter kv (KvStorage w) start stop timestamp limit of
        (Inl err, s) \<Rightarrow> (Inl err, emitMetric CounterKind ''storage.iter.start'' (Some 1) [(''state'', ''error'')] (w\<lparr>KvStorage := s\<rparr>))
      | (Inr it, s) \<Rightarrow>
          (Inr it, emitMetric CounterKind ''storage.iter.start.success'' (Some 1) [limitedTag limit]
                     (emitMetric CounterKind ''storage.iter.start'' (Some 1) [(''state'', ''success'')] (w\<lparr>KvStorage := s\<rparr>))))"

text \<open>The operations of a batch are counted and passed on; \<^verbatim>\<open>Commit\<close> emits their number.\<close>

definition wrapper_Commit :: "'s kv_storage \<Rightarrow> 's storeWrapper \<Rightarrow> batch_op list \<Rightarrow> error option \<times> 's storeWrapper" where
  "wrapper_Commit kv w ops =
     (case kv_Commit kv (KvStorage w) ops of
        (err, s) \<Rightarrow>
          let tags = [(''op'', ''write_batch''), genStateTag err]
          in (err, emitMetric HistogramKind ''storage.batch.duration'' None tags
                     (emitMetric HistogramKind ''storage.batch.count'' (Some (int (length ops))) tags (w\<lparr>KvStorage := s\<rparr>))))"

definition wrapper_Del :: "'s kv_storage \<Rightarrow> 's storeWrapper \<Rightarrow> bytes \<Rightarrow> error option \<times> 's storeWrapper" where
  "wrapper_Del kv w key =
     (case kv_Del kv (KvStorage w) key of (err, s) \<Rightarrow> (err, wrapper_time err ''del'' (w\<lparr>KvStorage := s\<rparr>)))"

definition wrapper_DelCurrent :: "'s kv_storage \<Rightarrow> 's storeWrapper \<Rightarrow> bytes \<Rightarrow> bytes \<Rightarrow> error option \<times> 's storeWrapper" where
  "wrapper_DelCurrent kv w key val =
     (case kv_DelCurrent kv (KvStorage w) key val of (err, s) \<Rightarrow> (err, wrapper_time err ''cmp_and_del'' (w\<lparr>KvStorage := s\<rparr>)))"

text \<open>The wrapped engine; the methods that are not overridden are those of the embedded one.\<close>

definition NewKvStorage :: "'s kv_storage \<Rightarrow> 's storeWrapper kv_storage" where
  "NewKvStorage kv =
     \<lparr>kv_GetTimestampOracle = (\<lambda>w. case kv_GetTimestampOracle kv (KvStorage w) of (r, s) \<Rightarrow> (r, w\<lparr>KvStorage := s\<rparr>)),
      kv_GetPartitions = (\<lambda>w start stop. case kv_GetPartitions kv (KvStorage w) start stop of (r, s) \<Rightarrow> (r, w\<lparr>KvStorage := s\<rparr>)),
      kv_Get = wrapper_Get kv,
      kv_Iter = wrapper_Iter kv,
      kv_Commit = wrapper_Commit kv,
      kv_Del = wrapper_Del kv,
      kv_DelCurrent = wrapper_DelCurrent kv,
      kv_SupportTTL = kv_SupportTTL kv\<rparr>"

section \<open>Iterators\<close>

record iterWrapper =
  iw_counter :: nat
  iw_tags :: "(string \<times> string) list"

text \<open>
  \<^verbatim>\<open>Next\<close> after the wrapped \<^verbatim>\<open>Next\<close> returned \<open>err\<close>. \<^verbatim>\<open>context.Canceled\<close> is \<open>canceled\<close>.
\<close>

definition iter_Next :: "error \<Rightarrow> error option \<Rightarrow> iterWrapper \<times> 's storeWrapper \<Rightarrow> iterWrapper \<times> 's storeWrapper" where
  "iter_Next canceled err x =
     (case x of (i, w) \<Rightarrow>
        if err \<noteq> None \<and> err \<noteq> Some EOF \<and> err \<noteq> Some canceled
        then (i, emitMetric CounterKind ''storage.iter.fetch.error'' (Some 1) (iw_tags i) w)
        else if err \<noteq> None then (i\<lparr>iw_counter := iw_counter i + 1\<rparr>, w)
        else (i, w))"

definition iter_Close :: "iterWrapper \<times> 's storeWrapper \<Rightarrow> 's storeWrapper" where
  "iter_Close x =
     (case x of (i, w) \<Rightarrow>
        emitMetric HistogramKind ''storage.iter.duration.sum'' None (iw_tags i)
          (emitMetric HistogramKind ''storage.iter.duration.avg'' None (iw_tags i)
             (emitMetric CounterKind ''storage.iter.fetch.success'' (Some (int (iw_counter i))) (iw_tags i) w)))"

text \<open>An iterator used to its end: \<open>n\<close> pairs are fetched, then \<^verbatim>\<open>Next\<close> returns \<open>err\<close>.\<close>

definition iter_use :: "error \<Rightarrow> nat \<Rightarrow> error \<Rightarrow> iterWrapper \<times> 's storeWrapper \<Rightarrow> 's storeWrapper" where
  "iter_use canceled n err x = iter_Close (iter_Next canceled (Some err) ((iter_Next canceled None ^^ n) x))"

section \<open>The wrapper keeps the contracts\<close>

lemma KvStorage_emit [simp]: "KvStorage (emitMetric kind name val tags w) = KvStorage w"
  by (simp add: emitMetric_def)

lemma KvStorage_time [simp]: "KvStorage (wrapper_time err op w) = KvStorage w"
  by (simp add: wrapper_time_def)

text \<open>Every call is the call of the wrapped engine, on its part of the state.\<close>

lemma wrapper_calls:
  "kv_GetTimestampOracle (NewKvStorage kv) w = (r, w') \<Longrightarrow> kv_GetTimestampOracle kv (KvStorage w) = (r, KvStorage w')"
  "kv_GetPartitions (NewKvStorage kv) w a b = (p, w') \<Longrightarrow> kv_GetPartitions kv (KvStorage w) a b = (p, KvStorage w')"
  "kv_Get (NewKvStorage kv) w k = (g, w') \<Longrightarrow> kv_Get kv (KvStorage w) k = (g, KvStorage w')"
  "kv_Iter (NewKvStorage kv) w a b ts lim = (it, w') \<Longrightarrow> kv_Iter kv (KvStorage w) a b ts lim = (it, KvStorage w')"
  "kv_Commit (NewKvStorage kv) w ops = (e, w') \<Longrightarrow> kv_Commit kv (KvStorage w) ops = (e, KvStorage w')"
  "kv_Del (NewKvStorage kv) w k = (e, w') \<Longrightarrow> kv_Del kv (KvStorage w) k = (e, KvStorage w')"
  "kv_DelCurrent (NewKvStorage kv) w k v = (e, w') \<Longrightarrow> kv_DelCurrent kv (KvStorage w) k v = (e, KvStorage w')"
  by (auto simp: NewKvStorage_def wrapper_Get_def wrapper_Iter_def wrapper_Commit_def wrapper_Del_def wrapper_DelCurrent_def
      Let_def split: prod.splits sum.splits)


context kv_engine
begin

lemmas contract = finite_view snap_now tso_state tso_snap partitions_state partitions_tile get_state get_val get_notfound
  iter_state iter_forward iter_reverse_first iter_reverse_none iter_error next_error commit_law commit_cas commit_conflict
  del_law delCurrent_law commit_snap del_snap delCurrent_snap

lemma wrapped: "kv_engine (NewKvStorage kv) (\<lambda>w. view (KvStorage w)) (\<lambda>w. snap (KvStorage w)) (\<lambda>w. ok (KvStorage w))"
  by (unfold_locales; (drule wrapper_calls)?; (rule contract; assumption))

end

context kv_engine_reliable
begin

lemma wrapped_reliable:
  "kv_engine_reliable (NewKvStorage kv) (\<lambda>w. view (KvStorage w)) (\<lambda>w. snap (KvStorage w)) (\<lambda>w. ok (KvStorage w))"
proof (intro kv_engine_reliable.intro wrapped kv_engine_reliable_axioms.intro, goal_cases)
  case (1 w k)
  then show ?case using get_answers[OF 1, of k]
    by (cases "view (KvStorage w) k") (auto simp: NewKvStorage_def wrapper_Get_def)
next
  case (2 w a b ts lim)
  then show ?case using iter_answers[OF 2, of a b ts lim] by (auto simp: NewKvStorage_def wrapper_Iter_def)
next
  case 3
  then show ?case using commit_answers[OF _ wrapper_calls(5)] by blast
next
  case 4
  then show ?case using del_answers[OF _ wrapper_calls(6)] by blast
qed

end

context kv_engine_clean
begin

lemma wrapped_clean:
  "kv_engine_clean (NewKvStorage kv) (\<lambda>w. view (KvStorage w)) (\<lambda>w. snap (KvStorage w)) (\<lambda>w. ok (KvStorage w))"
proof (intro kv_engine_clean.intro kv_engine_bordered.intro wrapped kv_engine_bordered_axioms.intro kv_engine_clean_axioms.intro,
    goal_cases)
  case 1
  then show ?case using partitions_border[OF _ _ wrapper_calls(2)] by blast
next
  case 2
  then show ?case using del_clean[OF _ wrapper_calls(6)] by blast
qed

end

section \<open>Properties\<close>


text \<open>The memory engine behind the wrapper.\<close>

abbreviation metered :: "(bytes \<times> bytes) list memstore storeWrapper kv_storage" where
  "metered \<equiv> NewKvStorage (memkv alist_skl)"

interpretation metered: kv_engine_reliable metered "\<lambda>w. mem_view (KvStorage w)" "\<lambda>w ts. mem_view (KvStorage w)" "\<lambda>w. True"
  by (rule alist.mem.wrapped_reliable)

interpretation meteredc: kv_engine_clean metered "\<lambda>w. mem_view (KvStorage w)" "\<lambda>w ts. mem_view (KvStorage w)" "\<lambda>w. True"
  by (rule alist.memc.wrapped_clean)


text \<open>
  The counter of an iterator is raised by the \<^verbatim>\<open>Next\<close> that fails, not by those that fetch a pair: an iterator used to
  its end reports one fetched pair, whatever it delivered.
\<close>

lemma iter_Next_fetch: "(iter_Next canceled None ^^ n) x = x"
  by (induction n) (auto simp: iter_Next_def split: prod.splits)

lemma iterator_reports_one_pair:
  "\<lparr>mKind = CounterKind, mName = ''storage.iter.fetch.success'', mValue = Some 1, mTags = tags\<rparr>
     \<in> set (emitted (iter_use canceled n EOF (\<lparr>iw_counter = 0, iw_tags = tags\<rparr>, w)))"
  by (simp add: iter_use_def iter_Next_fetch iter_Next_def iter_Close_def emitMetric_def)

end
