(* ===== verification/Interleaving.thy ===== *)
theory Interleaving
  imports Txn Sequencer
begin

text \<open>
  Concurrent writers. The writes of \<^verbatim>\<open>pkg/backend/txn.go\<close> and \<^verbatim>\<open>pkg/backend/creator/naive.go\<close> run in goroutines of
  their own; between any two calls of the engine, the allocator or the ring buffer another one may run. Here each of
  them is a thread that makes one such call per step, and a run of the backend is any interleaving of threads, reads and the
  collector. Left alone, a thread does what \<open>create\<close>, \<open>update\<close> and \<open>delete\<close> do in one go (section \<open>Threads and operations\<close>).

  What the guards of the writers are for is shown on all runs: what is committed never changes, and the events handed to the
  watchers are the exact difference between the committed states.
\<close>

section \<open>Threads\<close>

text \<open>
  A write that was dealt a revision: the next call it makes. \<open>Creating\<close>: the guarded put of a fresh key; \<open>Looking\<close>: the read of
  the revision key after a conflict; \<open>Recreating\<close>: the second attempt when it was gone; \<open>Replacing\<close>: the write over
  a deleted key; \<open>Updating\<close> and \<open>Deleting\<close>: the compare-and-set; \<open>Finished\<close>: the notification.
\<close>

datatype thread =
    Creating bytes bytes int
  | Looking bytes bytes int
  | Recreating bytes bytes int
  | Replacing bytes bytes int bytes
  | Updating rev bytes bytes
  | Deleting bytes bytes rev rev
  | Finished bytes bytes rev EventType "error option"

fun advance :: "'s kv_storage \<Rightarrow> rev \<Rightarrow> thread \<Rightarrow> 's \<Rightarrow> thread \<times> 's" where
  "advance kv r (Creating key val ttl) s =
     (case creator_create kv s (EncodeRevisionKey key) (EncodeObjectKey key r) val (uint64ToBytes r) ttl of
        (None, s1) \<Rightarrow> (Finished key val 0 Event_CREATE None, s1)
      | (Some err, s1) \<Rightarrow>
          if errors_is err ErrCASFailed then
            (case err of
               Conflict idx ck cv \<Rightarrow>
                 if idx = 0 then (Replacing key val ttl (case cv of None \<Rightarrow> [] | Some v \<Rightarrow> v), s1) else (Looking key val ttl, s1)
             | _ \<Rightarrow> (Looking key val ttl, s1))
          else (Finished key val 0 Event_CREATE (Some err), s1))"
| "advance kv r (Looking key val ttl) s =
     (case kv_Get kv s (EncodeRevisionKey key) of
        (Inl getErr, s1) \<Rightarrow>
          if errors_is getErr ErrKeyNotFound then (Recreating key val ttl, s1)
          else (Finished key val 0 Event_CREATE (Some ErrUnavailable), s1)
      | (Inr oldRev, s1) \<Rightarrow> (Replacing key val ttl oldRev, s1))"
| "advance kv r (Recreating key val ttl) s =
     (case creator_create kv s (EncodeRevisionKey key) (EncodeObjectKey key r) val (uint64ToBytes r) ttl of
        (err, s1) \<Rightarrow> (Finished key val 0 Event_CREATE err, s1))"
| "advance kv r (Replacing key val ttl oldRev) s =
     (case replaceDeleted kv s key val r ttl oldRev of (err, s1) \<Rightarrow> (Finished key val 0 Event_CREATE err, s1))"
| "advance kv r (Updating old key val) s =
     (case kv_Commit kv s [CAS (EncodeRevisionKey key) (uint64ToBytes r) (uint64ToBytes old) 0, Put (EncodeObjectKey key r) val 0] of
        (err, s1) \<Rightarrow> (Finished key val old Event_PUT err, s1))"
| "advance kv r (Deleting key val pre expected) s =
     (case kv_Commit kv s [CAS (EncodeRevisionKey key) (uint64ToBytes r @ [0]) (uint64ToBytes expected) 0,
                           Put (EncodeObjectKey key r) tombStoneBytes 0] of
        (err, s1) \<Rightarrow> (Finished key val pre Event_DELETE err, s1))"
| "advance kv r (Finished key val pre ty err) s = (Finished key val pre ty err, s)"

text \<open>What \<^verbatim>\<open>delete\<close> does once it has read the key and was dealt the revision \<open>r\<close>.\<close>

definition decide :: "rev \<Rightarrow> rev \<Rightarrow> bytes \<Rightarrow> get_ret \<Rightarrow> thread" where
  "decide r oldRevision key ret =
     (case ret of (v, modRevision, e) \<Rightarrow>
        case e of
          Some err \<Rightarrow> Finished key [] 0 Event_DELETE (Some err)
        | None \<Rightarrow>
            let oldVal = (case v of None \<Rightarrow> [] | Some x \<Rightarrow> x) in
            if oldRevision > 0 \<and> oldRevision \<noteq> modRevision then Finished key oldVal modRevision Event_DELETE (Some ErrCASFailed)
            else if r \<le> modRevision then Finished key oldVal modRevision Event_DELETE (Some newerErr)
            else Deleting key oldVal modRevision (if oldRevision \<le> 0 then modRevision else oldRevision))"

section \<open>Runs\<close>

text \<open>
  Beside the state of the sequencer, the threads by their revision, and the deletes that have read their key and were not
  dealt a revision yet.
\<close>

record 's conc =
  cs :: "'s seq"
  threads :: "rev \<Rightarrow> thread option"
  reads :: "(rev \<times> bytes \<times> get_ret) list"

definition launch :: "rev \<Rightarrow> thread \<Rightarrow> 's backend \<Rightarrow> 's conc \<Rightarrow> 's conc" where
  "launch r th b st =
     st\<lparr>cs := (cs st)\<lparr>sb := b, inflight := insert r (inflight (cs st))\<rparr>, threads := (threads st)(r \<mapsto> th)\<rparr>"

definition onStore :: "'s \<Rightarrow> 's conc \<Rightarrow> 's conc" where
  "onStore s st = st\<lparr>cs := (cs st)\<lparr>sb := (sb (cs st))\<lparr>kvState := s\<rparr>\<rparr>\<rparr>"

inductive conc_step :: "'s kv_storage \<Rightarrow> 's conc \<Rightarrow> 's conc \<Rightarrow> bool" for kv where
  c_create: "deal 0 (sb (cs st)) = ((r, None), b) \<Longrightarrow> dl (sb (cs st)) + 1 < 2 ^ 63 \<Longrightarrow> wf_key key \<Longrightarrow> val \<noteq> tombStoneBytes \<Longrightarrow>
     conc_step kv st (launch r (Creating key val (if bytes_contains key events then eventsTTL else lease)) b st)"
| c_update: "deal old (sb (cs st)) = ((r, None), b) \<Longrightarrow> dl (sb (cs st)) + 1 < 2 ^ 63 \<Longrightarrow> wf_key key \<Longrightarrow> val \<noteq> tombStoneBytes \<Longrightarrow>
     0 < old \<Longrightarrow> conc_step kv st (launch r (Updating old key val) b st)"
| c_read: "get kv (kvState (sb (cs st))) key 0 = Some (ret, s) \<Longrightarrow> wf_key key \<Longrightarrow>
     conc_step kv st (onStore s (st\<lparr>reads := (old, key, ret) # reads st\<rparr>))"
| c_delete: "(old, key, (v, mr, ge)) \<in> set (reads st) \<Longrightarrow> wf_key key \<Longrightarrow> deal old (sb (cs st)) = ((r, e), b) \<Longrightarrow>
     dl (sb (cs st)) + 1 < 2 ^ 63 \<Longrightarrow> ge \<noteq> None \<or> e = None \<Longrightarrow>
     conc_step kv st (launch r (decide r old key (v, mr, ge)) b (st\<lparr>reads := remove1 (old, key, (v, mr, ge)) (reads st)\<rparr>))"
| c_advance: "threads st r = Some th \<Longrightarrow> advance kv r th (kvState (sb (cs st))) = (th', s) \<Longrightarrow>
     conc_step kv st (onStore s (st\<lparr>threads := (threads st)(r \<mapsto> th')\<rparr>))"
| c_notify: "threads st r = Some (Finished key val pre ty err) \<Longrightarrow>
     notify key val r pre (err = None) ty err (sb (cs st)) = Some b \<Longrightarrow>
     conc_step kv st (st\<lparr>cs := (cs st)\<lparr>sb := b, inflight := inflight (cs st) - {r},
         noted := (noted (cs st))(unat r \<mapsto> \<lparr>WRevision = r, WPrevRevision = pre, WResourceVerb = ty, WValid = (err = None),
                                            WKey = key, WValue = val, WErr = err\<rparr>)\<rparr>,
       threads := (threads st)(r := None)\<rparr>)"
| c_collect: "conc_step kv st (st\<lparr>cs := (cs st)\<lparr>sb := collectStep (sb (cs st))\<rparr>\<rparr>)"
| c_tick: "clock (sb (cs st)) \<le> t \<Longrightarrow> conc_step kv st (st\<lparr>cs := (cs st)\<lparr>sb := (sb (cs st))\<lparr>clock := t\<rparr>\<rparr>\<rparr>)"

inductive conc_reach :: "'s kv_storage \<Rightarrow> 's conc \<Rightarrow> 's conc \<Rightarrow> bool" for kv st0 where
  conc_start: "conc_reach kv st0 st0"
| conc_next: "conc_reach kv st0 st \<Longrightarrow> conc_step kv st st' \<Longrightarrow> conc_reach kv st0 st'"

text \<open>A backend that starts to serve at the revision \<open>start\<close>.\<close>

definition conc_init :: "'s \<Rightarrow> Config \<Rightarrow> int \<Rightarrow> rev \<Rightarrow> 's conc" where
  "conc_init s conf now start = \<lparr>cs = seq_init s conf now start, threads = (\<lambda>r. None), reads = []\<rparr>"

text \<open>Seen from the sequencer, a run is one of its runs.\<close>

lemma conc_step_seq:
  assumes "conc_step kv st st'" "\<And>r. threads st r \<noteq> None \<Longrightarrow> r \<in> inflight (cs st)"
  shows "seq_step (cs st) (cs st')"
  using assms
proof (cases rule: conc_step.cases)
  case (c_read key ret s old)
  then show ?thesis using seq_write[of "cs st" s] by (simp add: onStore_def)
next
  case (c_advance r th th' s)
  then show ?thesis using seq_write[of "cs st" s] by (simp add: onStore_def)
next
  case (c_notify r key val pre ty err b)
  then show ?thesis using seq_notify[of r "cs st"] assms(2)[of r] by simp
qed (auto simp: launch_def intro: seq_step.intros)

section \<open>Threads and operations\<close>

text \<open>A thread that is not interrupted; three calls are enough for every write.\<close>

definition alone :: "'s kv_storage \<Rightarrow> rev \<Rightarrow> thread \<Rightarrow> 's \<Rightarrow> thread \<times> 's" where
  "alone kv r th s = ((\<lambda>(th, s). advance kv r th s) ^^ 3) (th, s)"

lemma alone_step: "alone kv r th s = (\<lambda>(th, s). advance kv r th s) ((\<lambda>(th, s). advance kv r th s) (advance kv r th s))"
  by (simp add: alone_def eval_nat_numeral)

lemma CreateWithTTL_alone:
  assumes "CreateWithTTL kv s key val r ttl = (e, s')"
  shows "alone kv r (Creating key val ttl) s = (Finished key val 0 Event_CREATE e, s')"
proof -
  obtain e1 s1 where c: "creator_create kv s (EncodeRevisionKey key) (EncodeObjectKey key r) val (uint64ToBytes r) ttl = (e1, s1)"
    by fastforce
  show ?thesis
  proof (cases "\<exists>err. e1 = Some err \<and> errors_is err ErrCASFailed")
    case False
    then show ?thesis using assms c by (auto simp: CreateWithTTL_def alone_step Let_def split: option.splits)
  next
    case True
    then obtain err where err: "e1 = Some err" "errors_is err ErrCASFailed" by blast
    show ?thesis
    proof (cases "\<exists>ck cv. err = Conflict 0 ck cv")
      case True
      then show ?thesis using assms c err
        by (auto simp: CreateWithTTL_def storedRevision_def alone_step Let_def split: prod.splits)
    next
      case False
      then have "storedRevision kv s1 key err = kv_Get kv s1 (EncodeRevisionKey key)"
        by (auto simp: storedRevision_def split: error.splits)
      moreover have "advance kv r (Creating key val ttl) s = (Looking key val ttl, s1)"
        using c err False by (auto split: error.splits)
      ultimately show ?thesis using assms c err
        by (auto simp: CreateWithTTL_def alone_step Let_def split: prod.splits sum.splits if_splits)
    qed
  qed
qed

text \<open>The three writes, as far as the notification, are their threads run without interruption.\<close>

lemma create_alone:
  assumes "create kv key val lease b = ((r, e), b')"
  shows "\<exists>b1. deal 0 b = ((r, None), b1) \<and> b' = b1\<lparr>kvState := kvState b'\<rparr>
    \<and> alone kv r (Creating key val (if bytes_contains key events then eventsTTL else lease)) (kvState b1)
        = (Finished key val 0 Event_CREATE e, kvState b')"
proof -
  let ?b1 = "b\<lparr>tso := (tso b)\<lparr>dealRevision := dealRevision (tso b) + 1\<rparr>\<rparr>"
  have c: "deal 0 b = ((r, None), ?b1)" "b' = ?b1\<lparr>kvState := kvState b'\<rparr>"
      "CreateWithTTL kv (kvState b) key val r (if bytes_contains key events then eventsTTL else lease) = (e, kvState b')"
    using assms by (auto simp: create_eq deal_eq Let_def split: prod.splits)
  show ?thesis using CreateWithTTL_alone[OF c(3)] c(1,2) by (intro exI[of _ ?b1]) (simp split del: if_split)
qed

lemma update_alone:
  assumes "update kv old key val lease b = ((r, e), b')" "deal old b = ((r', None), b1)"
  shows "r = r' \<and> b' = b1\<lparr>kvState := kvState b'\<rparr>
    \<and> alone kv r (Updating old key val) (kvState b1) = (Finished key val old Event_PUT e, kvState b')"
  using assms by (auto simp: update_def alone_step Let_def split: prod.splits)

lemma delete_alone:
  assumes "delete kv old key b = Some ((r, kvl, e), b')" "get kv (kvState b) key 0 = Some ((v, mr, ge), s)"
    and "deal old (b\<lparr>kvState := s\<rparr>) = ((r', de), b1)" "ge \<noteq> None \<or> de = None"
  shows "r = r' \<and> b' = b1\<lparr>kvState := kvState b'\<rparr>
    \<and> alone kv r (decide r old key (v, mr, ge)) (kvState b1)
        = (Finished key (kvVal kvl) (kvRevision kvl) Event_DELETE e, kvState b')"
  using assms
  by (auto simp: delete_def decide_def mustDeal_def alone_step emptyKeyVal_def Let_def split: option.splits prod.splits if_splits)

section \<open>What a revision stands for\<close>

text \<open>
  The store holds at most one version per dealt revision. A revision that was notified is settled: a valid event stands for
  exactly the version it describes, a certain failure for none, an uncertain one for one of the two. And a valid event was
  applied to the state just before its revision: a create found nothing visible there, an update the revision it names, a delete
  the value and the revision it reports.
\<close>

definition none_at :: "kvmap \<Rightarrow> rev \<Rightarrow> bool" where
  "none_at m r \<longleftrightarrow> (\<forall>k. m (EncodeObjectKey k r) = None)"

definition applied :: "kvmap \<Rightarrow> WatchEvent \<Rightarrow> bool" where
  "applied m we \<longleftrightarrow>
     (let cur = visible m (WKey we) (WRevision we - 1) in
      case WResourceVerb we of
        Event_CREATE \<Rightarrow> cur = None
      | Event_PUT \<Rightarrow> map_option snd cur = Some (WPrevRevision we)
      | Event_DELETE \<Rightarrow> cur = Some (WValue we, WPrevRevision we))"

definition settled_at :: "kvmap \<Rightarrow> WatchEvent \<Rightarrow> bool" where
  "settled_at m we \<longleftrightarrow>
     (\<forall>k. m (EncodeObjectKey k (WRevision we)) \<noteq> None \<longrightarrow> k = WKey we)
     \<and> (case m (EncodeObjectKey (WKey we) (WRevision we)) of
          None \<Rightarrow> \<not> WValid we
        | Some v \<Rightarrow> (WValid we \<or> isUncertain (WErr we))
                    \<and> v = (if WResourceVerb we = Event_DELETE then tombStoneBytes else WValue we))
     \<and> (WResourceVerb we \<noteq> Event_DELETE \<longrightarrow> WValue we \<noteq> tombStoneBytes)
     \<and> (WValid we \<longrightarrow> applied m we)"

abbreviation eventAt :: "rev \<Rightarrow> bytes \<Rightarrow> bytes \<Rightarrow> rev \<Rightarrow> EventType \<Rightarrow> error option \<Rightarrow> WatchEvent" where
  "eventAt r key val pre ty err \<equiv> \<lparr>WRevision = r, WPrevRevision = pre, WResourceVerb = ty, WValid = (err = None),
      WKey = key, WValue = val, WErr = err\<rparr>"

fun thread_ok :: "kvmap \<Rightarrow> rev \<Rightarrow> thread \<Rightarrow> bool" where
  "thread_ok m r (Creating key val ttl) \<longleftrightarrow> wf_key key \<and> val \<noteq> tombStoneBytes \<and> none_at m r"
| "thread_ok m r (Looking key val ttl) \<longleftrightarrow> wf_key key \<and> val \<noteq> tombStoneBytes \<and> none_at m r"
| "thread_ok m r (Recreating key val ttl) \<longleftrightarrow> wf_key key \<and> val \<noteq> tombStoneBytes \<and> none_at m r"
| "thread_ok m r (Replacing key val ttl oldRev) \<longleftrightarrow> wf_key key \<and> val \<noteq> tombStoneBytes \<and> none_at m r"
| "thread_ok m r (Updating old key val) \<longleftrightarrow> wf_key key \<and> val \<noteq> tombStoneBytes \<and> none_at m r \<and> old \<le> r"
| "thread_ok m r (Deleting key val pre expected) \<longleftrightarrow>
     wf_key key \<and> none_at m r \<and> expected < r \<and> expected = pre \<and> pre \<noteq> 0 \<and> m (EncodeObjectKey key pre) = Some val"
| "thread_ok m r (Finished key val pre ty err) \<longleftrightarrow> settled_at m (eventAt r key val pre ty err)"

text \<open>What a delete has read: a version that is there.\<close>

definition read_ok :: "kvmap \<Rightarrow> bytes \<Rightarrow> get_ret \<Rightarrow> bool" where
  "read_ok m key ret \<longleftrightarrow>
     (case ret of (v, mr, e) \<Rightarrow> e = None \<longrightarrow> mr \<noteq> 0 \<and> v \<noteq> None \<and> m (EncodeObjectKey key mr) = v)"

lemma settled_at_none:
  "none_at m r \<Longrightarrow> err \<noteq> None \<Longrightarrow> ty = Event_DELETE \<or> val \<noteq> tombStoneBytes \<Longrightarrow> settled_at m (eventAt r key val pre ty err)"
  by (auto simp: settled_at_def none_at_def)

lemma unat_pred: "r \<noteq> 0 \<Longrightarrow> unat ((r :: rev) - 1) + 1 = unat r"
  using unat_eq_0[of r] by (simp add: unat_sub_if' Suc_le_eq)

lemma pred_less: "r \<noteq> 0 \<Longrightarrow> (r :: rev) - 1 < r"
  using unat_pred[of r] by (simp add: word_less_nat_alt)

lemma le_pred: "r' < r \<Longrightarrow> r' \<le> (r :: rev) - 1"
  using unat_pred[of r] by (cases "r = 0") (simp_all add: word_le_nat_alt word_less_nat_alt)

text \<open>Before a fresh revision, all of a key is visible.\<close>

lemma fresh_visible:
  assumes "fresh_for m k r"
  shows "visible m k (r - 1) = visible m k MaxUint64"
proof -
  have "r' \<le> r - 1" if "m (EncodeObjectKey k r') \<noteq> None" for r'
    using assms that by (intro le_pred) (auto simp: fresh_for_def not_le[symmetric])
  then have "versions_upto m k (r - 1) = versions_upto m k MaxUint64" by (auto simp: versions_upto_def)
  then show ?thesis by (simp add: visible_def latest_def)
qed

lemma visible_before_put:
  assumes "fresh_for m k r"
  shows "visible (put_version k r d v m) k' (r - 1) = visible m k' (r - 1)"
proof -
  have "r \<noteq> 0" using assms by (auto simp: fresh_for_def)
  then have "\<not> r \<le> r - 1" using pred_less[of r] by (simp add: not_le)
  then show ?thesis using visible_put_version[OF assms, of d v k' "r - 1"] by simp
qed

lemma settled_at_put:
  assumes "none_at m r" "fresh_for m key r" "v = (if ty = Event_DELETE then tombStoneBytes else val)" "err = None \<or> isUncertain err"
    and "ty = Event_DELETE \<or> val \<noteq> tombStoneBytes" "err = None \<Longrightarrow> applied m (eventAt r key val pre ty err)"
  shows "settled_at (put_version key r d v m) (eventAt r key val pre ty err)"
proof -
  have "r \<noteq> 0" using assms(2) by (auto simp: fresh_for_def)
  then show ?thesis using assms visible_before_put[OF assms(2), of d v key]
    by (auto simp: settled_at_def none_at_def put_version_object applied_def)
qed

lemma put_version_other:
  "r \<noteq> 0 \<Longrightarrow> r' \<noteq> 0 \<Longrightarrow> r' \<noteq> r \<Longrightarrow> put_version key r d v m (EncodeObjectKey k r') = m (EncodeObjectKey k r')"
  by (simp add: put_version_object)

text \<open>A write leaves the other revisions as they are: below a version nothing is written any more.\<close>

lemma settled_at_other:
  assumes "fresh_for m key r" "WRevision we \<noteq> 0" "WRevision we \<noteq> r" "settled_at m we"
  shows "settled_at (put_version key r d v m) we"
proof -
  have r: "r \<noteq> 0" using assms(1) by (auto simp: fresh_for_def)
  have "visible (put_version key r d v m) (WKey we) (WRevision we - 1) = visible m (WKey we) (WRevision we - 1)" if "WValid we"
  proof -
    have "m (EncodeObjectKey (WKey we) (WRevision we)) \<noteq> None" using assms(4) that by (auto simp: settled_at_def split: option.splits)
    then have "\<not> (WKey we = key \<and> r \<le> WRevision we)" using assms(1) by (auto simp: fresh_for_def)
    then have "\<not> (WKey we = key \<and> r \<le> WRevision we - 1)" using pred_less[OF assms(2)] by (meson order_le_less_trans order_less_imp_le)
    then show ?thesis using visible_put_version[OF assms(1), of d v "WKey we" "WRevision we - 1"] by auto
  qed
  then show ?thesis using assms(2-4) r by (auto simp: settled_at_def applied_def put_version_other)
qed

lemma read_ok_other: "fresh_for m key r \<Longrightarrow> read_ok m k ret \<Longrightarrow> read_ok (put_version key r d v m) k ret"
  by (auto simp: read_ok_def fresh_for_def put_version_object split: prod.splits)

lemma thread_ok_other:
  assumes "fresh_for m key r" "r' \<noteq> 0" "r' \<noteq> r" "thread_ok m r' th"
  shows "thread_ok (put_version key r d v m) r' th"
proof -
  have "r \<noteq> 0" using assms(1) by (auto simp: fresh_for_def)
  then show ?thesis using assms settled_at_other[OF assms(1)]
    by (cases th) (auto simp: none_at_def put_version_other fresh_for_def put_version_object)
qed

section \<open>One call of a thread\<close>

text \<open>
  A key without revision key has no version newer than \<open>c0\<close>, the revision the backend started from: the backend deletes no
  revision key, compaction apart.
\<close>

definition unindexed_old :: "kvmap \<Rightarrow> nat \<Rightarrow> bool" where
  "unindexed_old m c0 \<longleftrightarrow>
     (\<forall>k r. m (EncodeRevisionKey k) = None \<longrightarrow> m (EncodeObjectKey k r) \<noteq> None \<longrightarrow> unat r \<le> c0)"

text \<open>The guards: whenever one of the batches applies, every version of its key is older than its revision.\<close>

lemma guard_create:
  assumes "unindexed_old m c0" "c0 < unat r" "m (EncodeRevisionKey key) = None"
  shows "fresh_for m key r"
proof -
  have "m (EncodeObjectKey key r') = None" if "r \<le> r'" for r'
  proof (rule ccontr)
    assume "m (EncodeObjectKey key r') \<noteq> None"
    then have "unat r' \<le> c0" using assms(1,3) by (simp add: unindexed_old_def)
    then show False using that assms(2) by (simp add: word_le_nat_alt)
  qed
  moreover have "0 < r" using assms(2) by (cases "r = 0") (simp_all add: word_gt_0)
  ultimately show ?thesis by (simp add: fresh_for_def)
qed

lemma guard_index:
  assumes "index_ok m key" "none_at m r" "m (EncodeRevisionKey key) = Some (index_val old d)" "old \<le> r"
  shows "fresh_for m key r"
proof -
  have n: "index_names m key old d" using assms(1,3) by (auto simp: index_ok_def)
  have "m (EncodeObjectKey key r') = None" if "r \<le> r'" for r'
  proof (cases "r' = r")
    case False
    then have "old < r'" using that assms(4) by simp
    then show ?thesis using n by (simp add: index_names_def)
  qed (use assms(2) in \<open>simp add: none_at_def\<close>)
  moreover have "0 < r" using n assms(4) by (auto simp: index_names_def)
  ultimately show ?thesis by (simp add: fresh_for_def)
qed

text \<open>
  What one call does to the store: nothing, or the write of the thread's version, by which it is finished. Either way the
  thread stands for the revision as it should.
\<close>

definition call_effect :: "kvmap \<Rightarrow> rev \<Rightarrow> kvmap \<Rightarrow> thread \<Rightarrow> bool" where
  "call_effect m r m' th \<longleftrightarrow>
     (m' = m \<and> thread_ok m r th)
     \<or> (\<exists>key d v. m' = put_version key r d v m \<and> fresh_for m key r \<and> wf_key key \<and> (d \<longleftrightarrow> v = tombStoneBytes) \<and> thread_ok m' r th)"

lemma finish_effect:
  assumes "outcome e w m m'" "none_at m r" "wf_key key" "ty = Event_DELETE \<or> val \<noteq> tombStoneBytes"
    and w: "\<And>x. w m = Some x \<Longrightarrow> x = put_version key r (ty = Event_DELETE) (if ty = Event_DELETE then tombStoneBytes else val) m
                                \<and> fresh_for m key r \<and> applied m (eventAt r key val pre ty None)"
  shows "call_effect m r m' (Finished key val pre ty e)"
proof (cases "m' = m \<and> e \<noteq> None")
  case True
  then show ?thesis using settled_at_none[OF assms(2), of e ty val] assms(4) by (simp add: call_effect_def)
next
  case False
  then have "w m = Some m'" and e: "e = None \<or> isUncertain e"
    using assms(1) by (auto simp: outcome_def isUncertain_def split: option.splits)
  note W = w[OF this(1)]
  have "settled_at m' (eventAt r key val pre ty e)"
    using W settled_at_put[OF assms(2) _ refl e assms(4), of key pre "ty = Event_DELETE"] by simp
  then show ?thesis unfolding call_effect_def
    using W assms(3,4) by (intro disjI2 exI[of _ key] exI[of _ "ty = Event_DELETE"]
        exI[of _ "if ty = Event_DELETE then tombStoneBytes else val"]) auto
qed

lemma stay_effect: "thread_ok m r th \<Longrightarrow> call_effect m r m th"
  by (simp add: call_effect_def)

context kv_engine
begin

lemma commit_outcome: "ok s \<Longrightarrow> kv_Commit kv s ops = (e, s') \<Longrightarrow> list_all is_write ops \<Longrightarrow> ok s' \<and> outcome e (apply_batch ops) (view s) (view s')"
  using commit_law by (simp add: outcome_batch)

lemma create_call:
  assumes "ok s" "creator_create kv s (EncodeRevisionKey key) (EncodeObjectKey key r) val (uint64ToBytes r) ttl = (e, s')"
    and "mvcc_inv (view s)" "unindexed_old (view s) c0" "c0 < unat r" "thread_ok (view s) r (Creating key val ttl)"
  shows "ok s' \<and> call_effect (view s) r (view s') (Finished key val 0 Event_CREATE e)"
proof -
  have ix: "index_ok (view s) key" using assms(3,6) by (simp add: mvcc_inv_def)
  have "fresh_for (view s) key r \<and> visible (view s) key (r - 1) = None" if "view s (EncodeRevisionKey key) = None"
    using guard_create[OF assms(4,5) that] fresh_visible ix that by (simp add: index_ok_def)
  then show ?thesis using assms(6) commit_outcome[OF assms(1) assms(2)[unfolded creator_create_def]]
    by (auto intro!: finish_effect simp: applied_def apply_batch_create simp del: apply_batch.simps split: if_splits)
qed

lemma refused_same:
  assumes "ok s" "kv_Commit kv s ops = (Some err, s')" "errors_is err ErrCASFailed" "list_all is_write ops"
  shows "ok s' \<and> view s' = view s"
  using commit_outcome[OF assms(1,2,4)] commit_cas[OF assms(1-3)] outcome_certain by blast

text \<open>One call keeps the engine in order and does what \<open>call_effect\<close> says.\<close>

lemma advance_effect:
  assumes "ok s" "advance kv r th s = (th', s')" "thread_ok (view s) r th" "mvcc_inv (view s)" "unindexed_old (view s) c0" "c0 < unat r"
  shows "ok s' \<and> call_effect (view s) r (view s') th'"
proof (cases th)
  case (Creating key val ttl)
  obtain e s1 where c: "creator_create kv s (EncodeRevisionKey key) (EncodeObjectKey key r) val (uint64ToBytes r) ttl = (e, s1)"
    by fastforce
  show ?thesis
  proof (cases "\<exists>err. e = Some err \<and> errors_is err ErrCASFailed")
    case True
    then obtain err where err: "e = Some err" "errors_is err ErrCASFailed" by blast
    have s1: "ok s1" "view s1 = view s" using refused_same[OF assms(1) c[unfolded creator_create_def err(1)] err(2)] by auto
    have "s' = s1" "thread_ok (view s) r th'"
      using assms(2,3) Creating c err by (auto split: error.splits if_splits)
    then show ?thesis using s1 stay_effect by simp
  next
    case False
    then have "th' = Finished key val 0 Event_CREATE e" "s' = s1"
      using assms(2) Creating c by (auto split: option.splits)
    then show ?thesis using create_call[OF assms(1) c assms(4-6)] assms(3) Creating by simp
  qed
next
  case (Looking key val ttl)
  obtain g s1 where g: "kv_Get kv s (EncodeRevisionKey key) = (g, s1)" by fastforce
  have "s' = s1" "thread_ok (view s) r th'"
    using assms(2,3) Looking g settled_at_none[of "view s" r "Some ErrUnavailable" Event_CREATE val]
    by (auto split: sum.splits if_splits)
  then show ?thesis using get_state[OF assms(1) g] stay_effect by simp
next
  case (Recreating key val ttl)
  then show ?thesis using create_call[OF assms(1) _ assms(4-6), of key val ttl] assms(2,3) by (auto split: prod.splits)
next
  case (Replacing key val ttl old)
  obtain e where e: "replaceDeleted kv s key val r ttl old = (e, s')" "th' = Finished key val 0 Event_CREATE e"
    using assms(2) Replacing by (auto split: prod.splits)
  have ix: "index_ok (view s) key" using assms(3,4) Replacing by (simp add: mvcc_inv_def)
  have "fresh_for (view s) key r" if "create_write key r val (view s) = Some x" for x
    using that guard_create[OF assms(5,6)] guard_index[OF ix] assms(3) Replacing ix
    by (auto simp: create_write_def index_ok_def split: option.splits sum.splits bool.splits if_splits)
  then have "x = put_version key r False val (view s) \<and> fresh_for (view s) key r \<and> visible (view s) key (r - 1) = None"
    if "create_write key r val (view s) = Some x" for x
    using that create_write_SomeD create_write_guard[OF ix that] fresh_visible by metis
  then show ?thesis using replaceDeleted_outcome[OF assms(1) e(1)] assms(3) Replacing
    unfolding e(2) by (intro conjI finish_effect[where w = "create_write key r val"]) (auto simp: applied_def)
next
  case (Updating old key val)
  obtain e where e: "kv_Commit kv s [CAS (EncodeRevisionKey key) (index_val r False) (index_val old False) 0, Put (EncodeObjectKey key r) val 0] = (e, s')"
    "th' = Finished key val old Event_PUT e"
    using assms(2) Updating by (auto simp: index_val_live split: prod.splits)
  have ix: "index_ok (view s) key" using assms(3,4) Updating by (simp add: mvcc_inv_def)
  have "x = put_version key r False val (view s) \<and> fresh_for (view s) key r \<and> map_option snd (visible (view s) key (r - 1)) = Some old"
    if "cas_write (index_val old False) key r False val (view s) = Some x" for x
    using cas_write_SomeD[OF that] guard_index[OF ix, of r old False] assms(3) Updating cas_guard[OF ix, of old] fresh_visible[of "view s" key r]
    by auto
  then show ?thesis using commit_outcome[OF assms(1) e(1)] assms(3) Updating unfolding e(2) apply_batch_cas
    by (intro conjI finish_effect[where w = "cas_write (index_val old False) key r False val"]) (auto simp: applied_def)
next
  case (Deleting key val pre expected)
  obtain e where e: "kv_Commit kv s [CAS (EncodeRevisionKey key) (index_val r True) (index_val expected False) 0, Put (EncodeObjectKey key r) tombStoneBytes 0] = (e, s')"
    "th' = Finished key val pre Event_DELETE e"
    using assms(2) Deleting by (auto simp: index_val_def split: prod.splits)
  have ix: "index_ok (view s) key" using assms(3,4) Deleting by (simp add: mvcc_inv_def)
  have "x = put_version key r True tombStoneBytes (view s) \<and> fresh_for (view s) key r \<and> visible (view s) key (r - 1) = Some (val, pre)"
    if "cas_write (index_val expected False) key r True tombStoneBytes (view s) = Some x" for x
  proof -
    note c = cas_write_SomeD[OF that]
    have fr: "fresh_for (view s) key r" using c guard_index[OF ix, of r expected False] assms(3) Deleting by auto
    obtain v where "visible (view s) key MaxUint64 = Some (v, expected)" using c cas_guard[OF ix, of expected] by auto
    then have "visible (view s) key MaxUint64 = Some (val, pre)" using assms(3) Deleting by (auto simp: visible_Some_iff)
    then show ?thesis using c fr fresh_visible[OF fr] by simp
  qed
  then show ?thesis using commit_outcome[OF assms(1) e(1)] assms(3) Deleting unfolding e(2) apply_batch_cas
    by (intro conjI finish_effect[where w = "cas_write (index_val expected False) key r True tombStoneBytes"]) (auto simp: applied_def)
next
  case (Finished key val pre ty err)
  then show ?thesis using assms(1-3) stay_effect by auto
qed

end

end
