(* ===== verification/Badger.thy ===== *)
theory Badger
  imports Storage
begin

text \<open>
  \<^verbatim>\<open>pkg/storage/badger\<close>: the engine on top of the Badger database (\<^verbatim>\<open>github.com/dgraph-io/badger\<close>). The database is a
  parameter, the record of the calls the adapter makes; the locale \<open>badger_spec\<close> states what its documentation promises about
  transactions. Under it the adapter keeps the contract of \<^verbatim>\<open>storage.KvStorage\<close>.

  A batch and the transaction it runs in are one step here: transactions are serializable, and a commit that fails for a
  conflict has no effect.
\<close>

section \<open>The database\<close>

text \<open>
  An item: its value, which is read from the value log and may fail to be, and its version. \<open>bdg_Set\<close> is \<^verbatim>\<open>Set\<close> for the TTL 0,
  else \<^verbatim>\<open>SetEntry\<close>; \<open>bdg_Seek t reverse start\<close> lists the items an iterator visits from \<^verbatim>\<open>Seek(start)\<close> on until it is
  no longer valid.
\<close>

record 'v item =
  itVal :: "error + bytes"
  itVersion :: 'v

record ('d, 't, 'v) badger =
  bdg_NewTransaction :: "'d \<Rightarrow> 't"
  bdg_ReadTs :: "'t \<Rightarrow> rev"
  bdg_Get :: "'t \<Rightarrow> bytes \<Rightarrow> error + 'v item"
  bdg_Set :: "'t \<Rightarrow> bytes \<Rightarrow> bytes \<Rightarrow> int \<Rightarrow> error option \<times> 't"
  bdg_Delete :: "'t \<Rightarrow> bytes \<Rightarrow> error option \<times> 't"
  bdg_Commit :: "'d \<Rightarrow> 't \<Rightarrow> error option \<times> 'd"
  bdg_Seek :: "'t \<Rightarrow> bool \<Rightarrow> bytes \<Rightarrow> (bytes \<times> 'v item) list"

text \<open>\<^verbatim>\<open>badger.ErrKeyNotFound\<close>.\<close>

definition bdgNotFound :: error where
  "bdgNotFound = OtherErr ''Key not found''"

section \<open>The engine\<close>

text \<open>
  Beside the database, the version each pair had when an iterator delivered it: an \<^verbatim>\<open>Iter\<close> given to \<^verbatim>\<open>DelCurrent\<close> stands
  at such a pair.
\<close>

record ('d, 'v) badgerstore =
  bdb :: 'd
  seen :: "bytes \<times> bytes \<Rightarrow> 'v option"

definition bdg_store_Get :: "('d, 't, 'v) badger \<Rightarrow> ('d, 'v) badgerstore \<Rightarrow> bytes \<Rightarrow> error + bytes" where
  "bdg_store_Get bdg s key =
     (case bdg_Get bdg (bdg_NewTransaction bdg (bdb s)) key of
        Inl err \<Rightarrow> Inl (if err = bdgNotFound then ErrKeyNotFound else err)
      | Inr it \<Rightarrow> itVal it)"

subsection \<open>Batches\<close>

text \<open>
  The closures of a batch, run in \<^verbatim>\<open>Commit\<close> on the transaction; \<open>idx\<close> is the position of the operation. \<^verbatim>\<open>errors.Wrapf\<close> of
  a nil error is nil: that is what \<^verbatim>\<open>PutIfNotExist\<close> returns when it cannot read the value it found.
\<close>

definition bdg_PutIfNotExist :: "('d, 't, 'v) badger \<Rightarrow> nat \<Rightarrow> bytes \<Rightarrow> bytes \<Rightarrow> int \<Rightarrow> 't \<Rightarrow> error option \<times> 't" where
  "bdg_PutIfNotExist bdg idx key val ttl t =
     (case bdg_Get bdg t key of
        Inr oldItem \<Rightarrow>
          (case itVal oldItem of
             Inl copyErr \<Rightarrow> (None, t)
           | Inr oldVal \<Rightarrow> (Some (Conflict idx key (Some oldVal)), t))
      | Inl err \<Rightarrow>
          if errors_is err bdgNotFound then bdg_Set bdg t key val ttl
          else (Some (Wrapped ''failed to get key %s'' err), t))"

definition bdg_CAS :: "('d, 't, 'v) badger \<Rightarrow> nat \<Rightarrow> bytes \<Rightarrow> bytes \<Rightarrow> bytes \<Rightarrow> int \<Rightarrow> 't \<Rightarrow> error option \<times> 't" where
  "bdg_CAS bdg idx key newVal oldVal ttl t =
     (case bdg_Get bdg t key of
        Inl err \<Rightarrow> (Some (if err = bdgNotFound then Conflict idx key None else err), t)
      | Inr it \<Rightarrow>
          (case itVal it of
             Inl err \<Rightarrow> (Some err, t)
           | Inr val \<Rightarrow>
               if oldVal \<noteq> val then (Some (Conflict idx key (Some val)), t)
               else bdg_Set bdg t key newVal ttl))"

definition bdg_DelCurrent :: "('d, 't, 'v) badger \<Rightarrow> nat \<Rightarrow> bytes \<Rightarrow> 'v \<Rightarrow> 't \<Rightarrow> error option \<times> 't" where
  "bdg_DelCurrent bdg idx key version t =
     (case bdg_Get bdg t key of
        Inl err \<Rightarrow> (Some (if errors_is err bdgNotFound then Conflict idx key None else err), t)
      | Inr it \<Rightarrow>
          if itVersion it \<noteq> version
          then (Some (Conflict idx key (case itVal it of Inl _ \<Rightarrow> None | Inr val \<Rightarrow> Some val)), t)
          else bdg_Delete bdg t key)"

text \<open>A pair that no iterator has delivered cannot be given to \<^verbatim>\<open>DelCurrent\<close>.\<close>

definition noIterErr :: error where
  "noIterErr = OtherErr ''no iterator at this pair''"

fun bdg_do ::
    "('d, 't, 'v) badger \<Rightarrow> (bytes \<times> bytes \<Rightarrow> 'v option) \<Rightarrow> nat \<Rightarrow> batch_op \<Rightarrow> 't \<Rightarrow> error option \<times> 't" where
  "bdg_do bdg sn idx (PutIfNotExist k v ttl) t = bdg_PutIfNotExist bdg idx k v ttl t"
| "bdg_do bdg sn idx (CAS k new old ttl) t = bdg_CAS bdg idx k new old ttl t"
| "bdg_do bdg sn idx (Put k v ttl) t = bdg_Set bdg t k v ttl"
| "bdg_do bdg sn idx (Del k) t = bdg_Delete bdg t k"
| "bdg_do bdg sn idx (DelCurrent k v) t =
     (case sn (k, v) of None \<Rightarrow> (Some noIterErr, t) | Some version \<Rightarrow> bdg_DelCurrent bdg idx k version t)"

fun bdg_run ::
    "('d, 't, 'v) badger \<Rightarrow> (bytes \<times> bytes \<Rightarrow> 'v option) \<Rightarrow> nat \<Rightarrow> batch_op list \<Rightarrow> 't \<Rightarrow> error option \<times> 't" where
  "bdg_run bdg sn idx [] t = (None, t)"
| "bdg_run bdg sn idx (op # ops) t =
     (case bdg_do bdg sn idx op t of
        (Some err, t1) \<Rightarrow> (Some err, t1)
      | (None, t1) \<Rightarrow> bdg_run bdg sn (idx + 1) ops t1)"

definition bdg_batch_Commit :: "('d, 't, 'v) badger \<Rightarrow> ('d, 'v) badgerstore \<Rightarrow> batch_op list \<Rightarrow> error option \<times> ('d, 'v) badgerstore" where
  "bdg_batch_Commit bdg s ops =
     (case bdg_run bdg (seen s) 0 ops (bdg_NewTransaction bdg (bdb s)) of
        (Some err, t) \<Rightarrow> (Some err, s)
      | (None, t) \<Rightarrow> (case bdg_Commit bdg (bdb s) t of (err, d) \<Rightarrow> (err, s\<lparr>bdb := d\<rparr>)))"

definition bdg_store_Del :: "('d, 't, 'v) badger \<Rightarrow> ('d, 'v) badgerstore \<Rightarrow> bytes \<Rightarrow> error option \<times> ('d, 'v) badgerstore" where
  "bdg_store_Del bdg s key =
     (case bdg_Delete bdg (bdg_NewTransaction bdg (bdb s)) key of
        (_, t) \<Rightarrow> (case bdg_Commit bdg (bdb s) t of (err, d) \<Rightarrow> (err, s\<lparr>bdb := d\<rparr>)))"

definition bdg_store_DelCurrent :: "('d, 't, 'v) badger \<Rightarrow> ('d, 'v) badgerstore \<Rightarrow> bytes \<Rightarrow> bytes \<Rightarrow> error option \<times> ('d, 'v) badgerstore" where
  "bdg_store_DelCurrent bdg s key val = bdg_batch_Commit bdg s [DelCurrent key val]"

subsection \<open>Iterators\<close>

text \<open>\<^verbatim>\<open>inRange\<close> on the items in the order they are visited: the limit is looked at before the border.\<close>

definition bdg_inRange :: "bytes \<Rightarrow> bytes \<Rightarrow> rev \<Rightarrow> (bytes \<times> 'v item) list \<Rightarrow> (bytes \<times> 'v item) list" where
  "bdg_inRange start stop limit xs =
     takeWhile (\<lambda>(key, _). if start > stop then key > stop else key < stop) (if limit \<noteq> 0 then take (unat limit) xs else xs)"

text \<open>\<^verbatim>\<open>Next\<close>, \<^verbatim>\<open>Key\<close> and \<^verbatim>\<open>Val\<close>: a value that cannot be read is nil, and the next \<^verbatim>\<open>Next\<close> fails.\<close>

fun bdg_deliver :: "(bytes \<times> 'v item) list \<Rightarrow> iter" where
  "bdg_deliver [] = ([], EOF)"
| "bdg_deliver ((key, it) # xs) =
     (case itVal it of
        Inl err \<Rightarrow> ([(key, [])], err)
      | Inr val \<Rightarrow> (case bdg_deliver xs of (items, err) \<Rightarrow> ((key, val) # items, err)))"

definition bdg_note :: "(bytes \<times> 'v item) list \<Rightarrow> (bytes \<times> bytes \<Rightarrow> 'v option) \<Rightarrow> bytes \<times> bytes \<Rightarrow> 'v option" where
  "bdg_note xs sn = fold (\<lambda>(key, it) sn. case itVal it of Inl _ \<Rightarrow> sn | Inr val \<Rightarrow> sn((key, val) \<mapsto> itVersion it)) xs sn"

definition bdg_newIter :: "('d, 't, 'v) badger \<Rightarrow> ('d, 'v) badgerstore \<Rightarrow> bytes \<Rightarrow> bytes \<Rightarrow> rev \<Rightarrow> iter \<times> ('d, 'v) badgerstore" where
  "bdg_newIter bdg s start stop limit =
     (let xs = bdg_inRange start stop limit (bdg_Seek bdg (bdg_NewTransaction bdg (bdb s)) (start > stop) start)
      in (bdg_deliver xs, s\<lparr>seen := bdg_note xs (seen s)\<rparr>))"

definition badgerkv :: "('d, 't, 'v) badger \<Rightarrow> ('d, 'v) badgerstore kv_storage" where
  "badgerkv bdg =
     \<lparr>kv_GetTimestampOracle = (\<lambda>s. (Inr (bdg_ReadTs bdg (bdg_NewTransaction bdg (bdb s))), s)),
      kv_GetPartitions = (\<lambda>s start stop. (Inr [\<lparr>Start = start, End = stop\<rparr>], s)),
      kv_Get = (\<lambda>s key. (bdg_store_Get bdg s key, s)),
      kv_Iter = (\<lambda>s start stop ts limit. case bdg_newIter bdg s start stop limit of (i, s') \<Rightarrow> (Inr i, s')),
      kv_Commit = bdg_batch_Commit bdg,
      kv_Del = bdg_store_Del bdg,
      kv_DelCurrent = bdg_store_DelCurrent bdg,
      kv_SupportTTL = True\<rparr>"

section \<open>What Badger promises\<close>

text \<open>
  \<open>content d\<close> is what a new transaction on the database reads, \<open>tview t\<close> what the transaction \<open>t\<close> reads with its own writes,
  \<open>history d k r\<close> the value the version \<open>r\<close> of \<open>k\<close> had. \<open>begun d t\<close>: the transaction was begun on the database \<open>d\<close> and not committed
  yet.

  Values can be read. A transaction reads what was committed when it began, overlaid with its writes. A commit that succeeds makes
  exactly these writes; one that fails changes nothing (\<^verbatim>\<open>In case of a non-nil error, the LSM tree won't be updated\<close>). An iterator
  visits the keys from the start in order, or in reverse order. A version belongs to one write of a key. The errors are Badger's
  own, not those of the storage interface. A key that cannot be deleted, because it is empty or reserved, cannot be stored
  either.
\<close>

text \<open>The invariant of the engine: every version remembered is one of the history.\<close>

definition badger_ok :: "('d \<Rightarrow> bytes \<Rightarrow> 'v \<Rightarrow> bytes option) \<Rightarrow> ('d \<Rightarrow> bool) \<Rightarrow> ('d, 'v) badgerstore \<Rightarrow> bool" where
  "badger_ok history good s \<longleftrightarrow>
     good (bdb s) \<and> (\<forall>k v r. seen s (k, v) = Some r \<longrightarrow> history (bdb s) k r = Some v)"

locale badger_spec =
  fixes bdg :: "('d, 't, 'v) badger"
    and content :: "'d \<Rightarrow> kvmap"
    and tview :: "'t \<Rightarrow> kvmap"
    and history :: "'d \<Rightarrow> bytes \<Rightarrow> 'v \<Rightarrow> bytes option"
    and begun :: "'d \<Rightarrow> 't \<Rightarrow> bool"
    and good :: "'d \<Rightarrow> bool"
  assumes content_finite: "good d \<Longrightarrow> finite (dom (content d))"
    and new_begun: "good d \<Longrightarrow> begun d (bdg_NewTransaction bdg d) \<and> tview (bdg_NewTransaction bdg d) = content d"
    and get_item: "good d \<Longrightarrow> begun d t \<Longrightarrow> bdg_Get bdg t k = Inr it \<Longrightarrow>
          \<exists>v. itVal it = Inr v \<and> tview t k = Some v \<and> (t = bdg_NewTransaction bdg d \<longrightarrow> history d k (itVersion it) = Some v)"
    and get_missing: "good d \<Longrightarrow> begun d t \<Longrightarrow> bdg_Get bdg t k = Inl err \<Longrightarrow>
          foreign err \<and> (errors_is err bdgNotFound \<longrightarrow> err = bdgNotFound \<and> tview t k = None)"
    and set_writes: "good d \<Longrightarrow> begun d t \<Longrightarrow> bdg_Set bdg t k v ttl = (e, t') \<Longrightarrow>
          (case e of None \<Rightarrow> begun d t' \<and> tview t' = (tview t)(k \<mapsto> v) | Some err \<Rightarrow> foreign err)"
    and delete_writes: "good d \<Longrightarrow> begun d t \<Longrightarrow> bdg_Delete bdg t k = (e, t') \<Longrightarrow>
          begun d t' \<and> (case e of None \<Rightarrow> tview t' = (tview t)(k := None) | Some err \<Rightarrow> foreign err \<and> tview t' = tview t
            \<and> (t = bdg_NewTransaction bdg d \<longrightarrow> content d k = None))"
    and commit_all: "good d \<Longrightarrow> begun d t \<Longrightarrow> bdg_Commit bdg d t = (e, d') \<Longrightarrow>
          good d' \<and> content d' = (if e = None then tview t else content d) \<and> (\<forall>err. e = Some err \<longrightarrow> foreign err)"
    and commit_history: "good d \<Longrightarrow> begun d t \<Longrightarrow> bdg_Commit bdg d t = (e, d') \<Longrightarrow>
          history d k r = Some v \<Longrightarrow> history d' k r = Some v"
    and seek_items: "good d \<Longrightarrow> begun d t \<Longrightarrow> (k, it) \<in> set (bdg_Seek bdg t rv start) \<Longrightarrow>
          \<exists>v. itVal it = Inr v \<and> tview t k = Some v \<and> (t = bdg_NewTransaction bdg d \<longrightarrow> history d k (itVersion it) = Some v)"
    and seek_order: "good d \<Longrightarrow> begun d t \<Longrightarrow> map fst (bdg_Seek bdg t rv start) =
          (if rv then rev (sorted_list_of_set (dom (tview t) \<inter> {..start})) else sorted_list_of_set (dom (tview t) \<inter> {start..}))"
begin

abbreviation bview :: "('d, 'v) badgerstore \<Rightarrow> kvmap" where
  "bview s \<equiv> content (bdb s)"

abbreviation bok :: "('d, 'v) badgerstore \<Rightarrow> bool" where
  "bok \<equiv> badger_ok history good"

lemmas bok_def = badger_ok_def

text \<open>Batches.\<close>

lemma set_ok: "good d \<Longrightarrow> begun d t \<Longrightarrow> bdg_Set bdg t k v ttl = (None, t') \<Longrightarrow> begun d t' \<and> tview t' = (tview t)(k \<mapsto> v)"
  using set_writes[of d t k v ttl None t'] by simp

lemma set_err: "good d \<Longrightarrow> begun d t \<Longrightarrow> bdg_Set bdg t k v ttl = (Some err, t') \<Longrightarrow> foreign err"
  using set_writes[of d t k v ttl "Some err" t'] by simp

lemma delete_ok: "good d \<Longrightarrow> begun d t \<Longrightarrow> bdg_Delete bdg t k = (None, t') \<Longrightarrow> begun d t' \<and> tview t' = (tview t)(k := None)"
  using delete_writes[of d t k None t'] by simp

lemma delete_err: "good d \<Longrightarrow> begun d t \<Longrightarrow> bdg_Delete bdg t k = (Some err, t') \<Longrightarrow> foreign err"
  using delete_writes[of d t k "Some err" t'] by simp

lemma bdg_PutIfNotExist_None:
  assumes "good d" "begun d t" "bdg_PutIfNotExist bdg idx k v ttl t = (None, t')"
  shows "begun d t' \<and> tview t k = None \<and> tview t' = (tview t)(k \<mapsto> v)"
proof (cases "bdg_Get bdg t k")
  case (Inl err)
  then have "errors_is err bdgNotFound" "bdg_Set bdg t k v ttl = (None, t')"
    using assms(3) by (auto simp: bdg_PutIfNotExist_def split: if_splits)
  then show ?thesis using get_missing[OF assms(1,2) Inl] set_ok[OF assms(1,2)] by blast
next
  case (Inr it)
  then show ?thesis using get_item[OF assms(1,2) Inr] assms(3) by (auto simp: bdg_PutIfNotExist_def)
qed

lemma bdg_CAS_None:
  assumes "good d" "begun d t" "bdg_CAS bdg idx k new old ttl t = (None, t')"
  shows "begun d t' \<and> tview t k = Some old \<and> tview t' = (tview t)(k \<mapsto> new)"
proof (cases "bdg_Get bdg t k")
  case (Inl err)
  then show ?thesis using assms(3) by (simp add: bdg_CAS_def)
next
  case (Inr it)
  then obtain v where v: "itVal it = Inr v" "tview t k = Some v" using get_item[OF assms(1,2)] by blast
  then have "v = old" "bdg_Set bdg t k new ttl = (None, t')"
    using Inr assms(3) by (auto simp: bdg_CAS_def split: if_splits)
  then show ?thesis using v set_ok[OF assms(1,2)] by blast
qed

lemma bdg_do_write:
  assumes "good d" "begun d t" "is_write op" "bdg_do bdg sn idx op t = (None, t')"
  shows "begun d t' \<and> apply_op op (tview t) = Some (tview t')"
proof (cases op)
  case PutIfNotExist
  then show ?thesis using bdg_PutIfNotExist_None[OF assms(1,2)] assms(4) by auto
next
  case CAS
  then show ?thesis using bdg_CAS_None[OF assms(1,2)] assms(4) by auto
next
  case Put
  then show ?thesis using set_ok[OF assms(1,2)] assms(4) by auto
next
  case Del
  then show ?thesis using delete_ok[OF assms(1,2)] assms(4) by auto
qed (use assms(3) in simp)

lemma bdg_do_error:
  assumes "good d" "begun d t" "bdg_do bdg sn idx op t = (Some err, t')"
  shows "foreign err \<or> (\<exists>k v. err = Conflict idx k v)"
proof -
  note e = set_err[OF assms(1,2)] delete_err[OF assms(1,2)] get_missing[OF assms(1,2), THEN conjunct1]
  have ni: "foreign noIterErr" by (simp add: foreign_def noIterErr_def)
  show ?thesis
  proof (cases op)
    case (PutIfNotExist k v ttl)
    then show ?thesis using assms(3) e get_item[OF assms(1,2), of k]
      by (auto simp: bdg_PutIfNotExist_def split: sum.splits if_splits)
  next
    case (CAS k new old ttl)
    then show ?thesis using assms(3) e get_item[OF assms(1,2), of k]
      by (auto simp: bdg_CAS_def split: sum.splits if_splits)
  next
    case (DelCurrent k v)
    then show ?thesis using assms(3) e ni by (auto simp: bdg_DelCurrent_def split: sum.splits if_splits option.splits)
  qed (use assms(3) e in auto)
qed

lemma bdg_run_writes:
  assumes "good d" "begun d t" "list_all is_write ops" "bdg_run bdg sn idx ops t = (None, t')"
  shows "begun d t' \<and> apply_batch ops (tview t) = Some (tview t')"
  using assms(2-)
proof (induction ops arbitrary: idx t)
  case (Cons op ops)
  then obtain t1 where t1: "bdg_do bdg sn idx op t = (None, t1)" "bdg_run bdg sn (idx + 1) ops t1 = (None, t')"
    by (auto split: prod.splits option.splits)
  then show ?case using bdg_do_write[OF assms(1) Cons.prems(1) _ t1(1)] Cons.IH[OF _ _ t1(2)] Cons.prems(2) by simp
qed simp

lemma bdg_do_begun:
  assumes "good d" "begun d t" "bdg_do bdg sn idx op t = (None, t')"
  shows "begun d t'"
proof (cases op)
  case (DelCurrent k v)
  then have "bdg_Delete bdg t k = (None, t')"
    using assms(3) by (auto simp: bdg_DelCurrent_def split: option.splits sum.splits if_splits)
  then show ?thesis using delete_ok[OF assms(1,2)] by blast
qed (use bdg_do_write[OF assms(1,2) _ assms(3)] in auto)

lemma bdg_run_begun:
  assumes "good d" "begun d t" "bdg_run bdg sn idx ops t = (None, t')"
  shows "begun d t'"
  using assms(2,3)
proof (induction ops arbitrary: idx t)
  case (Cons op ops)
  obtain r t1 where t1: "bdg_do bdg sn idx op t = (r, t1)" by fastforce
  then have "r = None" "bdg_run bdg sn (idx + 1) ops t1 = (None, t')" using Cons.prems(2) by (auto split: option.splits)
  then show ?case using Cons.IH bdg_do_begun[OF assms(1) Cons.prems(1)] t1 by blast
qed simp

lemma bdg_run_error:
  assumes "good d" "begun d t" "bdg_run bdg sn idx ops t = (Some err, t')"
  shows "foreign err \<or> (\<exists>j k v. err = Conflict j k v \<and> idx \<le> j)"
  using assms(2-)
proof (induction ops arbitrary: idx t)
  case (Cons op ops)
  show ?case
  proof (cases "bdg_do bdg sn idx op t")
    case (Pair r t1)
    show ?thesis
    proof (cases r)
      case None
      then have "begun d t1" "bdg_run bdg sn (idx + 1) ops t1 = (Some err, t')"
        using bdg_do_begun[OF assms(1) Cons.prems(1)] Pair Cons.prems(2) by auto
      then show ?thesis using Cons.IH[of t1 "idx + 1"] by auto
    next
      case (Some err')
      then have "bdg_do bdg sn idx op t = (Some err, t1)" using Pair Cons.prems(2) by simp
      then show ?thesis using bdg_do_error[OF assms(1) Cons.prems(1)] by blast
    qed
  qed
qed simp

text \<open>A commit makes the writes of the transaction, or has no effect; the pairs seen stay pairs of the history.\<close>

lemma bok_commit:
  assumes "bok s" "begun (bdb s) t" "bdg_Commit bdg (bdb s) t = (e, d)"
  shows "bok (s\<lparr>bdb := d\<rparr>) \<and> content d = (if e = None then tview t else bview s) \<and> (\<forall>err. e = Some err \<longrightarrow> foreign err)"
  using assms commit_all[OF _ assms(2,3)] commit_history[OF _ assms(2,3)] by (auto simp: bok_def)

lemma bok_new:
  "bok s \<Longrightarrow> good (bdb s) \<and> begun (bdb s) (bdg_NewTransaction bdg (bdb s)) \<and> tview (bdg_NewTransaction bdg (bdb s)) = bview s"
  using new_begun by (simp add: bok_def)

lemma batch_Commit_cases:
  assumes "bok s" "bdg_batch_Commit bdg s ops = (e, s')"
  obtains (refused) err t' where "e = Some err" "s' = s" "bdg_run bdg (seen s) 0 ops (bdg_NewTransaction bdg (bdb s)) = (Some err, t')"
      "foreign err \<or> (\<exists>j k v. err = Conflict j k v)"
    | (run) t' d where "bdg_run bdg (seen s) 0 ops (bdg_NewTransaction bdg (bdb s)) = (None, t')"
      "bdg_Commit bdg (bdb s) t' = (e, d)" "s' = s\<lparr>bdb := d\<rparr>"
proof (cases "bdg_run bdg (seen s) 0 ops (bdg_NewTransaction bdg (bdb s))")
  case (Pair r t')
  show ?thesis
  proof (cases r)
    case None
    then show ?thesis using Pair assms(2) run by (auto simp: bdg_batch_Commit_def split: prod.splits)
  next
    case (Some err)
    then have "foreign err \<or> (\<exists>j k v. err = Conflict j k v)"
      using Pair bdg_run_error bok_new[OF assms(1)] by blast
    then show ?thesis using Some Pair assms(2) refused by (auto simp: bdg_batch_Commit_def)
  qed
qed

lemma may_apply_refused: "\<not> errors_is err ErrUncertainResult \<Longrightarrow> may_apply (Some err) ops m m"
  by (simp add: may_apply_def)

lemma not_uncertain: "foreign err \<or> (\<exists>j k v. err = Conflict j k v) \<Longrightarrow> \<not> errors_is err ErrUncertainResult"
  by (auto simp: foreign_def)

text \<open>\<open>step\<close> covers both kinds of batch: what the transaction reads after its operations is what the batch means.\<close>

lemma batch_Commit_law:
  assumes "bok s" "bdg_batch_Commit bdg s ops = (e, s')"
    and step: "\<And>t'. bdg_run bdg (seen s) 0 ops (bdg_NewTransaction bdg (bdb s)) = (None, t') \<Longrightarrow>
      begun (bdb s) t' \<and> apply_batch ops (bview s) = Some (tview t')"
  shows "bok s' \<and> may_apply e ops (bview s) (bview s')"
  using assms(1,2)
proof (cases rule: batch_Commit_cases)
  case (refused err t')
  then show ?thesis using assms(1) not_uncertain may_apply_refused by simp
next
  case (run t' d)
  then show ?thesis using step[OF run(1)] bok_commit[OF assms(1) _ run(2)] not_uncertain may_apply_refused
    by (cases e) auto
qed

lemma bdg_DelCurrent_None:
  assumes "good d" "bdg_DelCurrent bdg idx k r (bdg_NewTransaction bdg d) = (None, t')" "history d k r = Some v"
  shows "begun d t' \<and> content d k = Some v \<and> tview t' = (content d)(k := None)"
proof -
  let ?t = "bdg_NewTransaction bdg d"
  have t: "begun d ?t" "tview ?t = content d" using new_begun[OF assms(1)] by auto
  obtain it where it: "bdg_Get bdg ?t k = Inr it" "itVersion it = r" "bdg_Delete bdg ?t k = (None, t')"
    using assms(2) by (auto simp: bdg_DelCurrent_def split: sum.splits if_splits)
  then show ?thesis using get_item[OF assms(1) t(1) it(1)] delete_ok[OF assms(1) t(1) it(3)] t(2) assms(3) by auto
qed

lemma store_DelCurrent_law:
  assumes "bok s" "bdg_store_DelCurrent bdg s k v = (e, s')"
  shows "bok s' \<and> may_apply e [DelCurrent k v] (bview s) (bview s')"
proof (rule batch_Commit_law[OF assms(1) assms(2)[unfolded bdg_store_DelCurrent_def]], goal_cases)
  case (1 t')
  then obtain r where r: "seen s (k, v) = Some r" "bdg_DelCurrent bdg 0 k r (bdg_NewTransaction bdg (bdb s)) = (None, t')"
    by (auto split: option.splits prod.splits)
  then have "history (bdb s) k r = Some v" "good (bdb s)" using assms(1) by (auto simp: bok_def)
  then show ?case using bdg_DelCurrent_None[OF _ r(2)] by auto
qed

lemma batch_law:
  assumes "bok s" "bdg_batch_Commit bdg s ops = (e, s')" "list_all is_write ops"
  shows "bok s' \<and> may_apply e ops (bview s) (bview s')"
  using batch_Commit_law[OF assms(1,2)] assms(3) bdg_run_writes bok_new[OF assms(1)] by metis

lemma store_Del_law:
  assumes "bok s" "bdg_store_Del bdg s k = (e, s')"
  shows "bok s' \<and> may_apply e [Del k] (bview s) (bview s')"
proof -
  obtain e1 t where t: "bdg_Delete bdg (bdg_NewTransaction bdg (bdb s)) k = (e1, t)" by fastforce
  then obtain d where d: "bdg_Commit bdg (bdb s) t = (e, d)" "s' = s\<lparr>bdb := d\<rparr>"
    using assms(2) by (auto simp: bdg_store_Del_def split: prod.splits)
  note n = bok_new[OF assms(1)]
  have tv: "begun (bdb s) t" "tview t = (bview s)(k := None)"
    using delete_writes[of "bdb s", OF _ _ t] n by (auto split: option.splits)
  show ?thesis using bok_commit[OF assms(1) tv(1) d(1)] d(2) tv(2) not_uncertain may_apply_refused by (cases e) auto
qed

lemma batch_certain:
  assumes "bok s" "bdg_batch_Commit bdg s ops = (Some err, s')"
  shows "\<not> errors_is err ErrUncertainResult"
  using assms
proof (cases rule: batch_Commit_cases)
  case (run t' d)
  have "begun (bdb s) t'" using bdg_run_begun[OF _ _ run(1)] bok_new[OF assms(1)] by blast
  then show ?thesis using bok_commit[OF assms(1) _ run(2)] not_uncertain by blast
qed (use not_uncertain in auto)

text \<open>A conflict of the first operation carries the stored value.\<close>

lemma first_conflict:
  assumes "bok s" "bdg_batch_Commit bdg s (PutIfNotExist k' w ttl # ops) = (Some (Conflict 0 k ov), s')"
  shows "ov = bview s k'"
  using assms
proof (cases rule: batch_Commit_cases)
  case (refused err t')
  let ?t = "bdg_NewTransaction bdg (bdb s)"
  note n = bok_new[OF assms(1)]
  show ?thesis
  proof (cases "bdg_PutIfNotExist bdg 0 k' w ttl ?t")
    case (Pair r t1)
    show ?thesis
    proof (cases r)
      case None
      then have "begun (bdb s) t1" "bdg_run bdg (seen s) 1 ops t1 = (Some (Conflict 0 k ov), t')"
        using bdg_PutIfNotExist_None n Pair refused(1,3) by auto
      then show ?thesis using bdg_run_error[of "bdb s" t1 "seen s" 1] n by fastforce
    next
      case (Some e)
      then have p: "bdg_PutIfNotExist bdg 0 k' w ttl ?t = (Some (Conflict 0 k ov), t1)" using Pair refused(1,3) by auto
      show ?thesis
      proof (cases "bdg_Get bdg ?t k'")
        case (Inl err)
        then have "foreign (Conflict 0 k ov)"
          using p get_missing[of "bdb s" ?t k' err] set_err[of "bdb s" ?t k' w ttl "Conflict 0 k ov" t1] n
          by (auto simp: bdg_PutIfNotExist_def split: if_splits)
        then show ?thesis by simp
      next
        case (Inr it)
        then show ?thesis using p get_item[of "bdb s" ?t k' it] n by (auto simp: bdg_PutIfNotExist_def)
      qed
    qed
  qed
next
  case (run t' d)
  have "begun (bdb s) t'" using bdg_run_begun[OF _ _ run(1)] bok_new[OF assms(1)] by blast
  then have "foreign (Conflict 0 k ov)" using bok_commit[OF assms(1) _ run(2)] by blast
  then show ?thesis by simp
qed

text \<open>Iterators.\<close>

lemma deliver_pairs:
  assumes "\<And>k it. (k, it) \<in> set xs \<Longrightarrow> itVal it = Inr (the (m k))"
  shows "bdg_deliver xs = (map (\<lambda>k. (k, the (m k))) (map fst xs), EOF)"
  using assms
proof (induction xs)
  case (Cons x xs)
  obtain k it where x: "x = (k, it)" by fastforce
  then have "itVal it = Inr (the (m k))" using Cons.prems by simp
  moreover have "bdg_deliver xs = (map (\<lambda>k. (k, the (m k))) (map fst xs), EOF)" using Cons by simp
  ultimately show ?case using x by simp
qed simp

lemma set_bdg_inRange: "set (bdg_inRange start stop limit xs) \<subseteq> set xs"
  unfolding bdg_inRange_def by (auto dest!: set_takeWhileD in_set_takeD split: if_splits)

lemma fst_bdg_inRange:
  "map fst (bdg_inRange start stop limit xs) =
     takeWhile (\<lambda>key. if start > stop then key > stop else key < stop) (if limit \<noteq> 0 then take (unat limit) (map fst xs) else map fst xs)"
  unfolding bdg_inRange_def by (simp add: takeWhile_map comp_def split_def take_map)

lemma note_seen:
  assumes "\<And>k v r. sn (k, v) = Some r \<Longrightarrow> P k v r"
    and "\<And>k it v. (k, it) \<in> set xs \<Longrightarrow> itVal it = Inr v \<Longrightarrow> P k v (itVersion it)"
    and "bdg_note xs sn (k, v) = Some r"
  shows "P k v r"
  using assms
proof (induction xs arbitrary: sn)
  case (Cons x xs)
  obtain k' it where x: "x = (k', it)" by fastforce
  let ?sn = "case itVal it of Inl _ \<Rightarrow> sn | Inr val \<Rightarrow> sn((k', val) \<mapsto> itVersion it)"
  have "bdg_note xs ?sn (k, v) = Some r" using Cons.prems(3) by (simp add: bdg_note_def x)
  moreover have "P k v r" if "?sn (k, v) = Some r" for k v r
    using that Cons.prems(1,2) x by (auto split: sum.splits if_splits)
  ultimately show ?case using Cons.IH[of ?sn] Cons.prems(2) by simp
qed (simp add: bdg_note_def)

lemma newIter_pairs:
  assumes "bok s" "bdg_newIter bdg s start stop limit = (i, s')"
  shows "bok s' \<and> bview s' = bview s \<and> i = (map (\<lambda>k. (k, the (bview s k)))
    (takeWhile (\<lambda>key. if start > stop then key > stop else key < stop)
      ((if limit \<noteq> 0 then take (unat limit) else id)
        (if start > stop then rev (sorted_list_of_set (dom (bview s) \<inter> {..start})) else sorted_list_of_set (dom (bview s) \<inter> {start..})))), EOF)"
proof -
  let ?t = "bdg_NewTransaction bdg (bdb s)"
  define xs where "xs = bdg_inRange start stop limit (bdg_Seek bdg ?t (start > stop) start)"
  note n = bok_new[OF assms(1)]
  have it: "\<exists>v. itVal it = Inr v \<and> bview s k = Some v \<and> history (bdb s) k (itVersion it) = Some v" if "(k, it) \<in> set xs" for k it
    using that seek_items[of "bdb s" ?t k it "start > stop" start] n set_bdg_inRange unfolding xs_def by fastforce
  have "i = bdg_deliver xs" and s': "s' = s\<lparr>seen := bdg_note xs (seen s)\<rparr>"
    using assms(2) by (auto simp: bdg_newIter_def Let_def xs_def)
  then have "i = (map (\<lambda>k. (k, the (bview s k))) (map fst xs), EOF)" using deliver_pairs[of xs "bview s"] it by (metis option.sel)
  moreover have "bok s'"
  proof -
    have "history (bdb s) k r = Some v" if "bdg_note xs (seen s) (k, v) = Some r" for k v r
    proof (rule note_seen[of "seen s" "\<lambda>k v r. history (bdb s) k r = Some v", OF _ _ that])
      show "history (bdb s) k r = Some v" if "seen s (k, v) = Some r" for k v r using assms(1) that by (simp add: bok_def)
      show "history (bdb s) k (itVersion i) = Some v" if "(k, i) \<in> set xs" "itVal i = Inr v" for k i v
        using it[OF that(1)] that(2) by simp
    qed
    then show ?thesis using assms(1) by (simp add: bok_def s')
  qed
  ultimately show ?thesis using seek_order[of "bdb s" ?t "start > stop" start] n s'
    by (simp add: xs_def fst_bdg_inRange)
qed

abbreviation pairs :: "('d, 'v) badgerstore \<Rightarrow> bytes list \<Rightarrow> kvpair list" where
  "pairs s ks \<equiv> map (\<lambda>k. (k, the (bview s k))) ks"

lemma forward_pairs:
  assumes "bok s" "a \<le> b" "bdg_newIter bdg s a b 0 = (i, s')"
  shows "i = (forward_range (bview s) a b, EOF)"
proof -
  have fin: "finite (dom (bview s) \<inter> {a..})" using content_finite assms(1) by (simp add: bok_def)
  have eq: "dom (bview s) \<inter> {a..} \<inter> {..<b} = dom (bview s) \<inter> {a..<b}" by auto
  have "i = (pairs s (takeWhile (\<lambda>k. k < b) (sorted_list_of_set (dom (bview s) \<inter> {a..}))), EOF)"
    using newIter_pairs[OF assms(1,3)] leD[OF assms(2)] by simp
  then show ?thesis by (simp add: takeWhile_below[OF fin] eq forward_range_def entries_of_def)
qed

lemma reverse_pairs:
  assumes "bok s" "b < a" "bdg_newIter bdg s a b limit = (i, s')"
  obtains ks n where "i = (pairs s (takeWhile (\<lambda>k. b < k) (take (Suc n) ks)), EOF)" "reverse_range (bview s) a b = pairs s (takeWhile (\<lambda>k. b < k) ks)"
proof -
  let ?ks = "rev (sorted_list_of_set (dom (bview s) \<inter> {..a}))"
  have fin: "finite (dom (bview s) \<inter> {..a})" using content_finite assms(1) by (simp add: bok_def)
  have eq: "dom (bview s) \<inter> {..a} \<inter> {b<..} = dom (bview s) \<inter> {b<..a}" by auto
  let ?n = "if limit = 0 then length ?ks else unat limit - 1"
  have "i = (pairs s (takeWhile (\<lambda>k. b < k) ((if limit \<noteq> 0 then take (unat limit) else id) ?ks)), EOF)"
    using newIter_pairs[OF assms(1,3)] assms(2) by simp
  moreover have "(if limit \<noteq> 0 then take (unat limit) else id) ?ks = take (Suc ?n) ?ks"
    using unat_gt_0[of limit] by auto
  ultimately have "i = (pairs s (takeWhile (\<lambda>k. b < k) (take (Suc ?n) ?ks)), EOF)" by (simp only:)
  moreover have "reverse_range (bview s) a b = pairs s (takeWhile (\<lambda>k. b < k) ?ks)"
    by (simp only: takeWhile_above[OF fin] eq reverse_range_def entries_of_def rev_map)
  ultimately show ?thesis by (rule that)
qed

end

text \<open>A database that keeps what Badger documents makes the adapter a storage engine.\<close>

sublocale badger_spec \<subseteq> bd: kv_engine "badgerkv bdg" "\<lambda>s. content (bdb s)" "\<lambda>s ts. content (bdb s)" "badger_ok history good"
proof (unfold_locales, goal_cases)
  case (1 s) then show ?case using content_finite by (simp add: bok_def)
next
  case 5 then show ?case by (simp add: badgerkv_def)
next
  case (6 s a b ps s') then show ?case by (auto simp: badgerkv_def)
next
  case 7 then show ?case by (simp add: badgerkv_def)
next
  case (8 s k v s')
  then show ?case using get_item[of "bdb s" "bdg_NewTransaction bdg (bdb s)" k] bok_new[of s]
    by (auto simp: badgerkv_def bdg_store_Get_def split: sum.splits)
next
  case (9 s k s')
  then show ?case using get_item[of "bdb s" "bdg_NewTransaction bdg (bdb s)" k] get_missing[of "bdb s" "bdg_NewTransaction bdg (bdb s)" k] bok_new[of s]
    by (auto simp: badgerkv_def bdg_store_Get_def foreign_def bdgNotFound_def split: sum.splits if_splits)
next
  case (10 s a b ts lim it s')
  then show ?case using newIter_pairs[of s a b lim] by (auto simp: badgerkv_def split: prod.splits)
next
  case (11 s a b ts items err s')
  then show ?case using forward_pairs[of s a b] by (auto simp: badgerkv_def split: prod.splits)
next
  case (12 s b a ts lim k v items err s')
  then have i: "bdg_newIter bdg s a b lim = (((k, v) # items, err), s')" by (auto simp: badgerkv_def split: prod.splits)
  obtain ks n where r: "((k, v) # items, err) = (pairs s (takeWhile (\<lambda>k. b < k) (take (Suc n) ks)), EOF)"
      "reverse_range (bview s) a b = pairs s (takeWhile (\<lambda>k. b < k) ks)"
    by (rule reverse_pairs[OF 12(1,2) i])
  then obtain k0 ks0 where "ks = k0 # ks0" "b < k0" by (cases ks) (auto split: if_splits)
  then have rr: "reverse_range (bview s) a b = (k, v) # pairs s (takeWhile (\<lambda>k. b < k) ks0)" "b < k" using r by auto
  then have "(k, v) \<in> set (reverse_range (bview s) a b)" by simp
  then have "bview s k = Some v" using content_finite 12(1) unfolding reverse_range_def by (auto simp: bok_def)
  then show ?case using rr by blast
next
  case (13 s b a ts lim s')
  then have i: "bdg_newIter bdg s a b lim = (([], EOF), s')" by (auto simp: badgerkv_def split: prod.splits)
  obtain ks n where r: "([], EOF) = (pairs s (takeWhile (\<lambda>k. b < k) (take (Suc n) ks)), EOF)"
      "reverse_range (bview s) a b = pairs s (takeWhile (\<lambda>k. b < k) ks)"
    by (rule reverse_pairs[OF 13(1,2) i])
  then show ?case by (cases ks) (auto split: if_splits)
next
  case 14 then show ?case by (auto simp: badgerkv_def split: prod.splits)
next
  case (15 s a b ts lim items err s')
  then show ?case using newIter_pairs[of s a b lim] by (auto simp: badgerkv_def split: prod.splits)
next
  case 16 then show ?case using batch_law by (simp add: badgerkv_def)
next
  case 17 then show ?case using batch_certain by (simp add: badgerkv_def)
next
  case 18 then show ?case using first_conflict by (simp add: badgerkv_def)
next
  case 19 then show ?case using store_Del_law by (simp add: badgerkv_def)
next
  case 20 then show ?case using store_DelCurrent_law by (simp add: badgerkv_def)
qed (auto simp: badgerkv_def)

section \<open>A database of this kind\<close>

text \<open>
  The log of the commits, newest first, each the list of its writes, newest first. The version of a write is the number of
  commits before it. A transaction is the log it began on with its own writes.
\<close>

type_synonym writes = "(bytes \<times> bytes option) list"

fun log_content :: "writes list \<Rightarrow> kvmap" where
  "log_content [] k = None"
| "log_content (w # d) k = (case map_of w k of None \<Rightarrow> log_content d k | Some x \<Rightarrow> x)"

fun log_version :: "writes list \<Rightarrow> bytes \<Rightarrow> nat" where
  "log_version [] k = 0"
| "log_version (w # d) k = (if map_of w k = None then log_version d k else length d)"

fun log_history :: "writes list \<Rightarrow> bytes \<Rightarrow> nat \<Rightarrow> bytes option" where
  "log_history [] k r = None"
| "log_history (w # d) k r = (if r = length d then Option.bind (map_of w k) id else log_history d k r)"

definition log_tview :: "writes list \<times> writes \<Rightarrow> kvmap" where
  "log_tview t = log_content (snd t # fst t)"

definition log_item :: "writes list \<times> writes \<Rightarrow> bytes \<Rightarrow> nat item" where
  "log_item t k = \<lparr>itVal = Inr (the (log_tview t k)),
     itVersion = (if map_of (snd t) k = None then log_version (fst t) k else length (fst t))\<rparr>"

definition log_keys :: "writes list \<times> writes \<Rightarrow> (bytes \<Rightarrow> bool) \<Rightarrow> bytes list" where
  "log_keys t P = sort (remdups (filter (\<lambda>k. log_tview t k \<noteq> None \<and> P k) (map fst (concat (snd t # fst t)))))"

definition logdb :: "(writes list, writes list \<times> writes, nat) badger" where
  "logdb = \<lparr>bdg_NewTransaction = (\<lambda>d. (d, [])),
     bdg_ReadTs = (\<lambda>t. of_nat (length (fst t))),
     bdg_Get = (\<lambda>t k. if log_tview t k = None then Inl bdgNotFound else Inr (log_item t k)),
     bdg_Set = (\<lambda>t k v ttl. (None, (fst t, (k, Some v) # snd t))),
     bdg_Delete = (\<lambda>t k. (None, (fst t, (k, None) # snd t))),
     bdg_Commit = (\<lambda>d t. (None, snd t # d)),
     bdg_Seek = (\<lambda>t reverse start. map (\<lambda>k. (k, log_item t k))
        (if reverse then rev (log_keys t (\<lambda>k. k \<le> start)) else log_keys t (\<lambda>k. k \<ge> start)))\<rparr>"

lemma log_history_before: "log_history d k r = Some v \<Longrightarrow> r < length d"
  by (induction d) (auto split: if_splits)

lemma log_history_version: "log_content d k = Some v \<Longrightarrow> log_history d k (log_version d k) = Some v"
  by (induction d) (auto split: option.splits dest: log_history_before)

lemma log_content_keys: "dom (log_content d) \<subseteq> fst ` set (concat d)"
proof (induction d)
  case (Cons w d)
  then show ?case using map_of_eq_None_iff[of w] by (auto split: option.splits dest!: map_of_SomeD) (force simp: image_iff)+
qed auto

lemma log_tview_keys: "dom (log_tview t) \<subseteq> fst ` set (concat (snd t # fst t))"
  unfolding log_tview_def by (rule log_content_keys)

lemma log_keys_sorted: "log_keys t P = sorted_list_of_set (dom (log_tview t) \<inter> Collect P)"
proof (rule sorted_distinct_set_unique)
  have "set (log_keys t P) = {k \<in> fst ` set (concat (snd t # fst t)). log_tview t k \<noteq> None \<and> P k}"
    unfolding log_keys_def set_sort set_remdups set_filter set_map by blast
  also have "\<dots> = dom (log_tview t) \<inter> Collect P" using log_tview_keys[of t] unfolding dom_def by blast
  also have "\<dots> = set (sorted_list_of_set (dom (log_tview t) \<inter> Collect P))"
    using finite_subset[OF log_tview_keys[of t]] by simp
  finally show "set (log_keys t P) = set (sorted_list_of_set (dom (log_tview t) \<inter> Collect P))" .
qed (auto simp: log_keys_def)

lemma log_tview_new: "log_tview (d, []) = log_content d"
  by (simp add: log_tview_def fun_eq_iff)

lemma log_item_law:
  "log_tview t k = Some v \<Longrightarrow>
     itVal (log_item t k) = Inr v \<and> (t = (d, []) \<longrightarrow> log_history d k (itVersion (log_item t k)) = Some v)"
  by (auto simp: log_item_def log_tview_new log_history_version)

interpretation logdb: badger_spec logdb log_content log_tview log_history "\<lambda>d t. fst t = d" "\<lambda>d. True"
proof (unfold_locales, goal_cases)
  case (1 d) then show ?case using finite_subset[OF log_content_keys[of d]] by simp
next
  case 2 then show ?case by (simp add: logdb_def log_tview_new)
next
  case (3 d t k it) then show ?case using log_item_law[of t k _ d] by (auto simp: logdb_def split: if_splits)
next
  case 4 then show ?case by (auto simp: logdb_def bdgNotFound_def foreign_def split: if_splits)
next
  case 5 then show ?case by (auto simp: logdb_def log_tview_def fun_eq_iff split: option.split)
next
  case 6 then show ?case by (auto simp: logdb_def log_tview_def fun_eq_iff split: option.split)
next
  case 7 then show ?case by (auto simp: logdb_def log_tview_def)
next
  case 8 then show ?case by (auto simp: logdb_def dest: log_history_before)
next
  case (9 d t k it rv start)
  then have "k \<in> dom (log_tview t)" "it = log_item t k"
    using finite_subset[OF log_tview_keys[of t]] by (auto simp: logdb_def log_keys_sorted split: if_splits)
  then show ?case using log_item_law[of t k _ d] by (auto simp: logdb_def)
next
  case 10 then show ?case by (simp add: logdb_def comp_def log_keys_sorted atMost_def atLeast_def)
qed

section \<open>A value that cannot be read\<close>

text \<open>
  When the value stored under the key cannot be read, \<^verbatim>\<open>PutIfNotExist\<close> neither compares nor writes, and reports no error: the
  rest of the batch is run as if it had succeeded. For a create over a live key this writes a version that the revision key
  does not name.
\<close>

lemma unreadable_value_passes_guard:
  assumes "bdg_Get bdg t k = Inr it" "itVal it = Inl copyErr"
  shows "bdg_run bdg sn idx (PutIfNotExist k v ttl # ops) t = bdg_run bdg sn (idx + 1) ops t"
  using assms by (simp add: bdg_PutIfNotExist_def)

end
