(* ===== verification/TiKV.thy ===== *)
theory TiKV
  imports Badger "HOL-Library.Signed_Division"
begin

text \<open>
  \<^verbatim>\<open>pkg/storage/tikv\<close>: the engine on top of a TiKV cluster. The client library (\<^verbatim>\<open>github.com/tikv/client-go\<close>) is a parameter,
  the record of the calls the adapter makes; the locale \<open>txnkv_spec\<close> states what is promised about transactions with snapshot
  isolation, and \<open>txnkv_listed\<close> adds what the adapter supposes about errors of a commit. Under them the adapter keeps the contract
  of \<^verbatim>\<open>storage.KvStorage\<close>.

  A batch is begun, run and committed in one step: the client commits it only if no other transaction wrote its keys
  meanwhile. Rolling back a transaction that was not committed has no effect.
\<close>

section \<open>The client\<close>

record region =
  StartKey :: bytes
  EndKey :: bytes

text \<open>
  An iterator of a snapshot is the list of the pairs it visits, with the error of the \<^verbatim>\<open>Next\<close> behind the last of them, if any.
  \<open>tk_IterReverse ts k\<close> visits the keys below \<open>k\<close> in descending order.
\<close>

type_synonym tk_iter = "kvpair list \<times> error option"

record ('d, 't) txnkv =
  tk_Begin :: "'d \<Rightarrow> (error + 't) \<times> 'd"
  tk_GetTimestamp :: "'d \<Rightarrow> (error + rev) \<times> 'd"
  tk_Get :: "'t \<Rightarrow> bytes \<Rightarrow> 'd \<Rightarrow> (error + bytes) \<times> 'd"
  tk_Set :: "'t \<Rightarrow> bytes \<Rightarrow> bytes \<Rightarrow> error option \<times> 't"
  tk_Delete :: "'t \<Rightarrow> bytes \<Rightarrow> error option \<times> 't"
  tk_Commit :: "'t \<Rightarrow> 'd \<Rightarrow> error option \<times> 'd"
  tk_Iter :: "rev \<Rightarrow> bytes \<Rightarrow> bytes \<Rightarrow> 'd \<Rightarrow> (error + tk_iter) \<times> 'd"
  tk_IterReverse :: "rev \<Rightarrow> bytes \<Rightarrow> 'd \<Rightarrow> (error + tk_iter) \<times> 'd"
  tk_ScanRegions :: "bytes \<Rightarrow> bytes \<Rightarrow> 'd \<Rightarrow> (error + region list) \<times> 'd"
  tk_IsErrNotFound :: "error \<Rightarrow> bool"
  tk_IsErrWriteConflict :: "error \<Rightarrow> bool"
  tk_ErrBodyMissing :: error
  tk_ErrTiKVServerTimeout :: error
  tk_ErrUnknown :: error

section \<open>The engine\<close>

text \<open>
  The state of the cluster, the number of clients and the counter by which they take turns. All clients talk to the same
  cluster, so the operations use the turn only to move the counter on.
\<close>

record 'd tikvstore =
  cluster :: 'd
  clients :: nat
  turn :: rev

definition getClient :: "'d tikvstore \<Rightarrow> int \<times> 'd tikvstore" where
  "getClient s = (sint (turn s + 1) smod int (clients s), s\<lparr>turn := turn s + 1\<rparr>)"

text \<open>The index is one of the slice for the first \<open>2\<^sup>6\<^sup>3 - 1\<close> calls; from then on the conversion to \<^verbatim>\<open>int\<close> is negative.\<close>

lemma getClient_in_range:
  assumes "0 < clients s" "turn s < 2 ^ 63 - 1"
  shows "fst (getClient s) = int (unat (turn s + 1) mod clients s)" "fst (getClient s) < int (clients s)"
proof -
  have "unat (turn s) < 2 ^ 63 - 1" using assms(2) by (simp add: word_less_nat_alt)
  moreover have "unat (turn s + 1) \<le> unat (turn s) + 1" using unat_word_ariths(1)[of "turn s" 1] by simp
  ultimately have "unat (turn s + 1) < 9223372036854775808" by simp
  then have "uint (turn s + 1) < int 9223372036854775808" unfolding uint_nat of_nat_less_iff .
  moreover have "- 9223372036854775808 \<le> uint (turn s + 1)" using uint_ge_0[of "turn s + 1"] by linarith
  ultimately have "sint (turn s + 1) = int (unat (turn s + 1))"
    using signed_take_bit_int_eq_self[of 63 "uint (turn s + 1)"] by (simp add: sint_uint)
  then show "fst (getClient s) = int (unat (turn s + 1) mod clients s)"
    by (auto simp: getClient_def signed_modulo_int_def zmod_int sgn_if not_less intro: order_antisym)
  then show "fst (getClient s) < int (clients s)" using assms(1) by simp
qed

definition onCluster :: "('d \<Rightarrow> 'a \<times> 'd) \<Rightarrow> 'd tikvstore \<Rightarrow> 'a \<times> 'd tikvstore" where
  "onCluster f s = (case f (cluster s) of (a, d) \<Rightarrow> (a, s\<lparr>cluster := d\<rparr>))"

definition tk_GetTimestampOracle :: "('d, 't) txnkv \<Rightarrow> 'd tikvstore \<Rightarrow> (error + rev) \<times> 'd tikvstore" where
  "tk_GetTimestampOracle tk s =
     (case onCluster (tk_GetTimestamp tk) (snd (getClient s)) of
        (Inl err, s1) \<Rightarrow> (Inl (Wrapped ''fail to get timestamp'' err), s1)
      | (Inr timestamp, s1) \<Rightarrow> (Inr timestamp, s1))"

definition tk_store_Get :: "('d, 't) txnkv \<Rightarrow> 'd tikvstore \<Rightarrow> bytes \<Rightarrow> (error + bytes) \<times> 'd tikvstore" where
  "tk_store_Get tk s key =
     (case onCluster (tk_Begin tk) (snd (getClient s)) of
        (Inl err, s1) \<Rightarrow> (Inl (Wrapped ''failed to create read txn'' err), s1)
      | (Inr txn, s1) \<Rightarrow>
          (case onCluster (tk_Get tk txn key) s1 of
             (Inl err, s2) \<Rightarrow>
               (Inl (if tk_IsErrNotFound tk err then ErrKeyNotFound else Wrapped ''failed to get key %s'' err), s2)
           | (Inr val, s2) \<Rightarrow>
               (case onCluster (tk_Commit tk txn) s2 of
                  (Some err, s3) \<Rightarrow> (Inl (Wrapped ''failed to commit read txn of key %s'' err), s3)
                | (None, s3) \<Rightarrow> (Inr val, s3))))"

subsection \<open>Partitions\<close>

definition maxBytes :: "bytes \<Rightarrow> bytes \<Rightarrow> bytes" where
  "maxBytes a b = (if a > b then a else b)"

definition minBytes :: "bytes \<Rightarrow> bytes \<Rightarrow> bytes" where
  "minBytes a b = (if a > b then b else a)"

definition regionPartition :: "bytes \<Rightarrow> bytes \<Rightarrow> region \<Rightarrow> partition" where
  "regionPartition start stop reg =
     \<lparr>Start = (if StartKey reg \<noteq> [] then maxBytes (StartKey reg) start else start),
      End = (if EndKey reg \<noteq> [] then minBytes (EndKey reg) stop else stop)\<rparr>"

definition tk_store_GetPartitions ::
    "('d, 't) txnkv \<Rightarrow> 'd tikvstore \<Rightarrow> bytes \<Rightarrow> bytes \<Rightarrow> (error + partition list) \<times> 'd tikvstore" where
  "tk_store_GetPartitions tk s start stop =
     (case onCluster (tk_ScanRegions tk start stop) (snd (getClient s)) of
        (Inl err, s1) \<Rightarrow> (Inl (Wrapped ''failed to get regions'' err), s1)
      | (Inr regs, s1) \<Rightarrow>
          (Inr (if length regs > 1 then map (regionPartition start stop) regs
                else [\<lparr>Start = start, End = stop\<rparr>]), s1))"

subsection \<open>Iterators\<close>

text \<open>
  \<^verbatim>\<open>Next\<close>: the first call only looks whether there is a pair, every later one counts, moves and checks the border. So the
  limit lets one pair more through, and the first pair is not checked.
\<close>

definition checkBorder :: "bool \<Rightarrow> bytes \<Rightarrow> kvpair \<Rightarrow> bool" where
  "checkBorder reverse stop it \<longleftrightarrow> (if reverse then fst it > stop else fst it < stop)"

fun tk_moves :: "int \<Rightarrow> bool \<Rightarrow> bytes \<Rightarrow> int \<Rightarrow> kvpair list \<Rightarrow> error option \<Rightarrow> iter" where
  "tk_moves limit reverse stop count [] e =
     ([], if limit > 0 \<and> count \<ge> limit then EOF else case e of None \<Rightarrow> EOF | Some err \<Rightarrow> err)"
| "tk_moves limit reverse stop count (it # rest) e =
     (if limit > 0 \<and> count \<ge> limit then ([], EOF)
      else if \<not> checkBorder reverse stop it then ([], EOF)
      else case tk_moves limit reverse stop (count + 1) rest e of (items, err) \<Rightarrow> (it # items, err))"

fun tk_walk :: "int \<Rightarrow> bool \<Rightarrow> bytes \<Rightarrow> tk_iter \<Rightarrow> iter" where
  "tk_walk limit reverse stop ([], e) = ([], EOF)"
| "tk_walk limit reverse stop (it # rest, e) =
     (case tk_moves limit reverse stop 0 rest e of (items, err) \<Rightarrow> (it # items, err))"

definition tk_newIter ::
    "('d, 't) txnkv \<Rightarrow> 'd tikvstore \<Rightarrow> bytes \<Rightarrow> bytes \<Rightarrow> rev \<Rightarrow> rev \<Rightarrow> (error + iter) \<times> 'd tikvstore" where
  "tk_newIter tk s start stop timestamp limit =
     (let reverse = start > stop in
      case onCluster (if reverse then tk_IterReverse tk timestamp (start @ [0]) else tk_Iter tk timestamp start stop) (snd (getClient s)) of
        (Inl err, s1) \<Rightarrow> (Inl (Wrapped ''failed to create TiKV iter'' err), s1)
      | (Inr it, s1) \<Rightarrow> (Inr (tk_walk (sint limit) reverse stop it), s1))"

definition tk_store_Iter ::
    "('d, 't) txnkv \<Rightarrow> 'd tikvstore \<Rightarrow> bytes \<Rightarrow> bytes \<Rightarrow> rev \<Rightarrow> rev \<Rightarrow> (error + iter) \<times> 'd tikvstore" where
  "tk_store_Iter tk s start stop timestamp limit =
     (if timestamp = 0 then
        (case tk_GetTimestampOracle tk s of
           (Inl err, s1) \<Rightarrow> (Inl err, s1)
         | (Inr ts, s1) \<Rightarrow> tk_newIter tk s1 start stop ts limit)
      else tk_newIter tk s start stop timestamp limit)"

subsection \<open>Batches\<close>

text \<open>
  The closures of a batch, on the transaction and the cluster. The error of \<^verbatim>\<open>Begin\<close> is the result of a first closure, so the
  position \<open>i\<close> of the first operation is 1. The TTL is not used.
\<close>

definition tk_PutIfNotExist :: "('d, 't) txnkv \<Rightarrow> nat \<Rightarrow> bytes \<Rightarrow> bytes \<Rightarrow> 't \<Rightarrow> 'd \<Rightarrow> error option \<times> 't \<times> 'd" where
  "tk_PutIfNotExist tk i key val t d =
     (case tk_Get tk t key d of
        (Inl err, d1) \<Rightarrow>
          if tk_IsErrNotFound tk err then
            (case tk_Set tk t key val of (e, t1) \<Rightarrow> (map_option (Wrapped ''fail to create key %s'') e, t1, d1))
          else (Some (Wrapped ''fail to get key %s'' err), t, d1)
      | (Inr oldVal, d1) \<Rightarrow> (Some (Conflict i key (Some oldVal)), t, d1))"

definition tk_CAS :: "('d, 't) txnkv \<Rightarrow> nat \<Rightarrow> bytes \<Rightarrow> bytes \<Rightarrow> bytes \<Rightarrow> 't \<Rightarrow> 'd \<Rightarrow> error option \<times> 't \<times> 'd" where
  "tk_CAS tk i key newVal oldVal t d =
     (case tk_Get tk t key d of
        (Inl err, d1) \<Rightarrow>
          (Some (if tk_IsErrNotFound tk err then ErrKeyNotFound else Wrapped ''fail to get key %s'' err), t, d1)
      | (Inr val, d1) \<Rightarrow>
          if oldVal \<noteq> val then (Some (Conflict i key (Some val)), t, d1)
          else (case tk_Set tk t key newVal of (e, t1) \<Rightarrow> (map_option (Wrapped ''fail to set key %s'') e, t1, d1)))"

definition tk_DelCurrent :: "('d, 't) txnkv \<Rightarrow> nat \<Rightarrow> bytes \<Rightarrow> bytes \<Rightarrow> 't \<Rightarrow> 'd \<Rightarrow> error option \<times> 't \<times> 'd" where
  "tk_DelCurrent tk i key val t d =
     (case tk_Get tk t key d of
        (Inl err, d1) \<Rightarrow>
          (Some (if tk_IsErrNotFound tk err then Conflict i key None else Wrapped ''fail to get key %s'' err), t, d1)
      | (Inr oldVal, d1) \<Rightarrow>
          if oldVal \<noteq> val then (Some (Conflict i key (Some oldVal)), t, d1)
          else (case tk_Delete tk t key of (e, t1) \<Rightarrow> (e, t1, d1)))"

fun tk_do :: "('d, 't) txnkv \<Rightarrow> nat \<Rightarrow> batch_op \<Rightarrow> 't \<Rightarrow> 'd \<Rightarrow> error option \<times> 't \<times> 'd" where
  "tk_do tk i (PutIfNotExist k v ttl) t d = tk_PutIfNotExist tk i k v t d"
| "tk_do tk i (CAS k new old ttl) t d = tk_CAS tk i k new old t d"
| "tk_do tk i (Put k v ttl) t d = (case tk_Set tk t k v of (e, t1) \<Rightarrow> (map_option (Wrapped ''fail to set key %s'') e, t1, d))"
| "tk_do tk i (Del k) t d = (case tk_Delete tk t k of (e, t1) \<Rightarrow> (map_option (Wrapped ''fail to set key %s'') e, t1, d))"
| "tk_do tk i (DelCurrent k v) t d = tk_DelCurrent tk i k v t d"

fun tk_run :: "('d, 't) txnkv \<Rightarrow> nat \<Rightarrow> batch_op list \<Rightarrow> 't \<Rightarrow> 'd \<Rightarrow> error option \<times> 't \<times> 'd" where
  "tk_run tk i [] t d = (None, t, d)"
| "tk_run tk i (op # ops) t d =
     (case tk_do tk i op t d of
        (Some err, t1, d1) \<Rightarrow> (Some err, t1, d1)
      | (None, t1, d1) \<Rightarrow> tk_run tk (i + 1) ops t1 d1)"

definition uncertainErrList :: "('d, 't) txnkv \<Rightarrow> error list" where
  "uncertainErrList tk =
     [OtherErr ''context deadline exceeded'', OtherErr ''context canceled'',
      tk_ErrBodyMissing tk, tk_ErrTiKVServerTimeout tk, tk_ErrUnknown tk]"

text \<open>The error of a commit as \<^verbatim>\<open>Commit\<close> reports it: wrapped once for every entry of the list it is.\<close>

definition commitErr :: "('d, 't) txnkv \<Rightarrow> error \<Rightarrow> error" where
  "commitErr tk err =
     (if tk_IsErrWriteConflict tk err then ErrCASFailed
      else fold (\<lambda>u err. if errors_is err u then ErrUncertain err else err) (uncertainErrList tk) err)"

definition tk_batch_Commit :: "('d, 't) txnkv \<Rightarrow> 'd tikvstore \<Rightarrow> batch_op list \<Rightarrow> error option \<times> 'd tikvstore" where
  "tk_batch_Commit tk s ops =
     (case onCluster (tk_Begin tk) (snd (getClient s)) of
        (Inl err, s1) \<Rightarrow> (Some err, s1)
      | (Inr txn, s1) \<Rightarrow>
          (case tk_run tk 1 ops txn (cluster s1) of
             (Some err, t, d) \<Rightarrow> (Some err, s1\<lparr>cluster := d\<rparr>)
           | (None, t, d) \<Rightarrow>
               (case tk_Commit tk t d of (e, d1) \<Rightarrow> (map_option (commitErr tk) e, s1\<lparr>cluster := d1\<rparr>))))"

definition tikvkv :: "('d, 't) txnkv \<Rightarrow> 'd tikvstore kv_storage" where
  "tikvkv tk =
     \<lparr>kv_GetTimestampOracle = tk_GetTimestampOracle tk,
      kv_GetPartitions = tk_store_GetPartitions tk,
      kv_Get = tk_store_Get tk,
      kv_Iter = tk_store_Iter tk,
      kv_Commit = tk_batch_Commit tk,
      kv_Del = (\<lambda>s key. tk_batch_Commit tk s [Del key]),
      kv_DelCurrent = (\<lambda>s key val. tk_batch_Commit tk s [DelCurrent key val]),
      kv_SupportTTL = False\<rparr>"

section \<open>What the client promises\<close>

text \<open>
  Regions that cover \<open>[a, b)\<close>: the first one starts at or before \<open>a\<close> (or has no start), each next one starts where
  the one before ends, inside the range, and the last one ends at or behind \<open>b\<close> (or has no end).
\<close>

fun region_chain :: "region list \<Rightarrow> bytes \<Rightarrow> bytes \<Rightarrow> bool" where
  "region_chain [] a b \<longleftrightarrow> False"
| "region_chain [r] a b \<longleftrightarrow> StartKey r \<le> a \<and> (EndKey r = [] \<or> b \<le> EndKey r)"
| "region_chain (r # r' # rs) a b \<longleftrightarrow>
     StartKey r \<le> a \<and> a < EndKey r \<and> EndKey r < b \<and> StartKey r' = EndKey r \<and> region_chain (r' # rs) (EndKey r) b"

text \<open>
  \<open>content d\<close> is the committed content of the cluster, \<open>asof d ts\<close> that of the snapshot at \<open>ts\<close>, \<open>tview t\<close> what the transaction
  \<open>t\<close> reads. Reads and timestamps leave both as they are. A commit that succeeds makes exactly the writes of the transaction; one that
  fails makes all of them or none, none for a write conflict; a snapshot sees a write or not. A transaction that wrote
  nothing commits without effect. Errors are the client's own, and an iterator that fails does not do so with \<^verbatim>\<open>io.EOF\<close>.
\<close>

locale txnkv_spec =
  fixes tk :: "('d, 't) txnkv"
    and content :: "'d \<Rightarrow> kvmap"
    and asof :: "'d \<Rightarrow> rev \<Rightarrow> kvmap"
    and tview :: "'t \<Rightarrow> kvmap"
    and begun :: "'d \<Rightarrow> 't \<Rightarrow> bool"
    and good :: "'d \<Rightarrow> bool"
  assumes content_finite: "good d \<Longrightarrow> finite (dom (content d)) \<and> finite (dom (asof d ts))"
    and begin_txn: "good d \<Longrightarrow> tk_Begin tk d = (r, d') \<Longrightarrow>
          (good d' \<and> content d' = content d \<and> asof d' = asof d)
          \<and> (case r of Inl err \<Rightarrow> foreign err | Inr t \<Rightarrow> begun d' t \<and> tview t = content d)"
    and timestamp: "good d \<Longrightarrow> tk_GetTimestamp tk d = (q, d') \<Longrightarrow>
          (good d' \<and> content d' = content d \<and> asof d' = asof d)
          \<and> (case q of Inl err \<Rightarrow> foreign err | Inr ts \<Rightarrow> asof d' ts = content d)"
    and get_key: "good d \<Longrightarrow> begun d t \<Longrightarrow> tk_Get tk t k d = (g, d') \<Longrightarrow>
          (good d' \<and> content d' = content d \<and> asof d' = asof d) \<and> begun d' t
          \<and> (case g of Inl err \<Rightarrow> foreign err \<and> (tk_IsErrNotFound tk err \<longrightarrow> tview t k = None) | Inr v \<Rightarrow> tview t k = Some v)"
    and set_key: "begun d t \<Longrightarrow> tk_Set tk t k v = (e, t') \<Longrightarrow>
          (case e of None \<Rightarrow> begun d t' \<and> tview t' = (tview t)(k \<mapsto> v) | Some err \<Rightarrow> foreign err)"
    and delete_key: "begun d t \<Longrightarrow> tk_Delete tk t k = (e, t') \<Longrightarrow>
          (case e of None \<Rightarrow> begun d t' \<and> tview t' = (tview t)(k := None) | Some err \<Rightarrow> foreign err)"
    and commit_txn: "good d \<Longrightarrow> begun d t \<Longrightarrow> tk_Commit tk t d = (e, d') \<Longrightarrow>
          good d' \<and> (content d' = tview t \<or> e \<noteq> None \<and> content d' = content d)
          \<and> (\<forall>err. e = Some err \<longrightarrow> foreign err \<and> (tk_IsErrWriteConflict tk err \<longrightarrow> content d' = content d))
          \<and> (\<forall>ts k. asof d' ts k = asof d ts k \<or> asof d' ts k = content d' k)"
    and commit_idle: "good d \<Longrightarrow> begun d t \<Longrightarrow> tview t = content d \<Longrightarrow> tk_Commit tk t d = (e, d') \<Longrightarrow>
          good d' \<and> content d' = content d \<and> asof d' = asof d"
    and iter_snapshot: "good d \<Longrightarrow> b \<noteq> [] \<Longrightarrow> tk_Iter tk ts a b d = (Inr (items, e), d') \<Longrightarrow>
          prefix items (forward_range (asof d ts) a b) \<and> (e = None \<or> items = [] \<longrightarrow> items = forward_range (asof d ts) a b)"
    and iter_reverse: "good d \<Longrightarrow> tk_IterReverse tk ts b d = (Inr (items, e), d') \<Longrightarrow>
          prefix items (rev (entries_of (asof d ts) {..<b})) \<and> (e = None \<or> items = [] \<longrightarrow> items = rev (entries_of (asof d ts) {..<b}))"
    and iter_quiet: "good d \<Longrightarrow> tk_Iter tk ts a b d = (it, d') \<or> tk_IterReverse tk ts b d = (it, d') \<Longrightarrow>
          (good d' \<and> content d' = content d \<and> asof d' = asof d)
          \<and> (case it of Inl err \<Rightarrow> foreign err | Inr (items, e) \<Rightarrow> (\<forall>err. e = Some err \<longrightarrow> foreign err \<and> err \<noteq> EOF))"
    and scan_regions: "good d \<Longrightarrow> tk_ScanRegions tk a b d = (p, d') \<Longrightarrow>
          (good d' \<and> content d' = content d \<and> asof d' = asof d)
          \<and> (\<forall>regs. p = Inr regs \<longrightarrow> a < b \<longrightarrow> length regs \<le> 1 \<or> region_chain regs a b)"

text \<open>
  What the adapter relies on beyond this: an error of a commit that is neither a write conflict nor in its list of uncertain
  errors means that nothing was written.
\<close>

locale txnkv_listed = txnkv_spec +
  assumes commit_listed: "good d \<Longrightarrow> begun d t \<Longrightarrow> tk_Commit tk t d = (Some err, d') \<Longrightarrow>
          \<not> (\<exists>u \<in> set (uncertainErrList tk). errors_is err u) \<Longrightarrow> content d' = content d"

definition tikv_view :: "('d \<Rightarrow> kvmap) \<Rightarrow> 'd tikvstore \<Rightarrow> kvmap" where
  "tikv_view content s = content (cluster s)"

definition tikv_snap :: "('d \<Rightarrow> kvmap) \<Rightarrow> ('d \<Rightarrow> rev \<Rightarrow> kvmap) \<Rightarrow> 'd tikvstore \<Rightarrow> rev \<Rightarrow> kvmap" where
  "tikv_snap content asof s ts = (if ts = 0 then content (cluster s) else asof (cluster s) ts)"

lemma cluster_getClient [simp]: "cluster (snd (getClient s)) = cluster s"
  by (simp add: getClient_def)

lemma commitErr_listed:
  assumes "foreign err" "\<not> tk_IsErrWriteConflict tk err"
  shows "if \<exists>u \<in> set (uncertainErrList tk). errors_is err u then errors_is (commitErr tk err) ErrUncertainResult
    \<and> \<not> errors_is (commitErr tk err) ErrCASFailed else commitErr tk err = err"
proof -
  let ?f = "\<lambda>u err. if errors_is err u then ErrUncertain err else err"
  have wrapped: "errors_is (fold ?f us e) ErrUncertainResult \<and> \<not> errors_is (fold ?f us e) ErrCASFailed"
    if "errors_is e ErrUncertainResult" "\<not> errors_is e ErrCASFailed" for us e
    using that by (induction us arbitrary: e) auto
  have "if \<exists>u \<in> set us. errors_is err u then errors_is (fold ?f us err) ErrUncertainResult \<and> \<not> errors_is (fold ?f us err) ErrCASFailed
    else fold ?f us err = err" for us
    using assms(1) wrapped[of "ErrUncertain err"] by (induction us) (auto simp: foreign_def)
  then show ?thesis using assms(2) by (simp add: commitErr_def)
qed

lemma chain_tiles:
  "region_chain regs a b \<Longrightarrow> start \<le> a \<Longrightarrow> a < b \<Longrightarrow> (StartKey (hd regs) \<le> start \<and> a = start \<or> StartKey (hd regs) = a) \<Longrightarrow>
     tiles (map (regionPartition start b) regs) a b"
  by (induction regs a b rule: region_chain.induct)
     (auto simp: regionPartition_def maxBytes_def minBytes_def)

lemma tiles_sorted: "tiles ps a b \<Longrightarrow> sorted (map Start ps) \<and> (\<forall>p \<in> set ps. a \<le> Start p)"
  by (induction ps a b rule: tiles.induct) auto

lemma less_snoc_zero: "x < a @ [0 :: 8 word] \<longleftrightarrow> x \<le> a"
proof (induction a arbitrary: x)
  case Nil
  then show ?case by (cases x) auto
next
  case (Cons y a)
  then show ?case by (cases x) (auto simp: order_le_less)
qed

context txnkv_spec
begin

abbreviation tv :: "'d tikvstore \<Rightarrow> kvmap" where
  "tv \<equiv> tikv_view content"

abbreviation ts_snap :: "'d tikvstore \<Rightarrow> rev \<Rightarrow> kvmap" where
  "ts_snap \<equiv> tikv_snap content asof"

abbreviation same :: "'d \<Rightarrow> 'd \<Rightarrow> bool" where
  "same d d' \<equiv> good d' \<and> content d' = content d \<and> asof d' = asof d"

lemmas views = tikv_view_def tikv_snap_def onCluster_def

lemma set_ok: "begun d t \<Longrightarrow> tk_Set tk t k v = (None, t') \<Longrightarrow> begun d t' \<and> tview t' = (tview t)(k \<mapsto> v)"
  using set_key[of d t k v None t'] by simp

lemma set_err: "begun d t \<Longrightarrow> tk_Set tk t k v = (Some err, t') \<Longrightarrow> foreign err"
  using set_key[of d t k v "Some err" t'] by simp

lemma delete_ok: "begun d t \<Longrightarrow> tk_Delete tk t k = (None, t') \<Longrightarrow> begun d t' \<and> tview t' = (tview t)(k := None)"
  using delete_key[of d t k None t'] by simp

lemma delete_err: "begun d t \<Longrightarrow> tk_Delete tk t k = (Some err, t') \<Longrightarrow> foreign err"
  using delete_key[of d t k "Some err" t'] by simp

text \<open>
  What an operation does, by its error: without one it has its effect on what the transaction reads. An error is the client's,
  a missing key, or a conflict at the operation's position; it is never uncertain.
\<close>

definition op_law :: "nat \<Rightarrow> (kvmap \<Rightarrow> kvmap option) \<Rightarrow> 't \<Rightarrow> 'd \<Rightarrow> error option \<times> 't \<times> 'd \<Rightarrow> bool" where
  "op_law i f t d x \<longleftrightarrow> (case x of (e, t', d') \<Rightarrow> same d d' \<and>
     (case e of None \<Rightarrow> begun d' t' \<and> f (tview t) = Some (tview t')
      | Some err \<Rightarrow> foreign err \<or> err = ErrKeyNotFound \<or> (\<exists>j k v. err = Conflict j k v \<and> i \<le> j)))"

lemma PutIfNotExist_law:
  assumes "good d" "begun d t"
  shows "op_law i (apply_op (PutIfNotExist k v ttl)) t d (tk_PutIfNotExist tk i k v t d)"
proof -
  obtain g d1 where g: "tk_Get tk t k d = (g, d1)" by fastforce
  obtain e t1 where s: "tk_Set tk t k v = (e, t1)" by fastforce
  note law = get_key[OF assms g]
  then have "begun d1 t" by blast
  then show ?thesis using law g s set_ok[of d1 t k v t1] set_err[of d1 t k v _ t1]
    by (cases g; cases e) (auto simp: op_law_def tk_PutIfNotExist_def)
qed

lemma CAS_law:
  assumes "good d" "begun d t"
  shows "op_law i (apply_op (CAS k new old ttl)) t d (tk_CAS tk i k new old t d)"
proof -
  obtain g d1 where g: "tk_Get tk t k d = (g, d1)" by fastforce
  obtain e t1 where s: "tk_Set tk t k new = (e, t1)" by fastforce
  note law = get_key[OF assms g]
  then have "begun d1 t" by blast
  then show ?thesis using law g s set_ok[of d1 t k new t1] set_err[of d1 t k new _ t1]
    by (cases g; cases e) (auto simp: op_law_def tk_CAS_def)
qed

lemma DelCurrent_law:
  assumes "good d" "begun d t"
  shows "op_law i (apply_op (DelCurrent k v)) t d (tk_DelCurrent tk i k v t d)"
proof -
  obtain g d1 where g: "tk_Get tk t k d = (g, d1)" by fastforce
  obtain e t1 where s: "tk_Delete tk t k = (e, t1)" by fastforce
  note law = get_key[OF assms g]
  then have "begun d1 t" by blast
  then show ?thesis using law g s delete_ok[of d1 t k t1] delete_err[of d1 t k _ t1]
    by (cases g; cases e) (auto simp: op_law_def tk_DelCurrent_def)
qed

lemma do_law:
  assumes "good d" "begun d t"
  shows "op_law i (apply_op op) t d (tk_do tk i op t d)"
proof (cases op)
  case (Put k v ttl)
  then show ?thesis using assms set_ok[OF assms(2)] set_err[OF assms(2)]
    by (cases "tk_Set tk t k v") (auto simp: op_law_def split: option.splits)
next
  case (Del k)
  then show ?thesis using assms delete_ok[OF assms(2)] delete_err[OF assms(2)]
    by (cases "tk_Delete tk t k") (auto simp: op_law_def split: option.splits)
qed (use PutIfNotExist_law[OF assms] CAS_law[OF assms] DelCurrent_law[OF assms] in auto)

lemma run_law:
  assumes "good d" "begun d t"
  shows "op_law i (apply_batch ops) t d (tk_run tk i ops t d)"
  using assms
proof (induction ops arbitrary: i t d)
  case (Cons op ops)
  obtain e t1 d1 where d: "tk_do tk i op t d = (e, t1, d1)" by (metis prod_cases3)
  note law = do_law[OF Cons.prems, of i op, unfolded d]
  show ?case
  proof (cases e)
    case None
    then have "same d d1" "begun d1 t1" "apply_op op (tview t) = Some (tview t1)" using law by (auto simp: op_law_def)
    then show ?thesis using Cons.IH[of d1 t1 "i + 1"] d None
      by (auto simp: op_law_def split: option.splits prod.splits)
  next
    case (Some err)
    then show ?thesis using law d by (auto simp: op_law_def)
  qed
qed (simp add: op_law_def)

text \<open>A batch: refused before the commit without any effect, or committed.\<close>

lemma batch_Commit_cases:
  assumes "good (cluster s)" "tk_batch_Commit tk s ops = (e, s')"
  obtains (refused) err where "e = Some err" "same (cluster s) (cluster s')"
      "foreign err \<or> err = ErrKeyNotFound \<or> (\<exists>j k v. err = Conflict j k v \<and> 1 \<le> j)"
    | (run) t d ce where "same (cluster s) d" "begun d t" "apply_batch ops (tv s) = Some (tview t)"
      "tk_Commit tk t d = (ce, cluster s')" "e = map_option (commitErr tk) ce"
proof -
  obtain b d0 where b: "tk_Begin tk (cluster s) = (b, d0)" by fastforce
  note law = begin_txn[OF assms(1) b]
  show ?thesis
  proof (cases b)
    case (Inl err)
    then show ?thesis using b law assms(2) refused by (auto simp: tk_batch_Commit_def onCluster_def)
  next
    case (Inr txn)
    obtain r t d where r: "tk_run tk 1 ops txn d0 = (r, t, d)" by (metis prod_cases3)
    have rl: "op_law 1 (apply_batch ops) txn d0 (r, t, d)" using run_law[of d0 txn 1 ops] law Inr r by simp
    show ?thesis
    proof (cases r)
      case None
      obtain ce d1 where c: "tk_Commit tk t d = (ce, d1)" by fastforce
      then show ?thesis using rl None b r law Inr assms(2)
        by (intro run[of d t ce]) (auto simp: tk_batch_Commit_def op_law_def views)
    next
      case (Some err)
      then show ?thesis using rl b r law Inr assms(2)
        by (intro refused[of err]) (auto simp: tk_batch_Commit_def op_law_def views)
    qed
  qed
qed

lemma refused_certain:
  "foreign err \<or> err = ErrKeyNotFound \<or> (\<exists>j k v. err = Conflict j k v \<and> 1 \<le> j) \<Longrightarrow> \<not> errors_is err ErrUncertainResult"
  by (auto simp: foreign_def)

lemma batch_snap:
  assumes "good (cluster s)" "tk_batch_Commit tk s ops = (e, s')"
  shows "ts_snap s' ts k = ts_snap s ts k \<or> ts_snap s' ts k = tv s' k"
  using assms
proof (cases rule: batch_Commit_cases)
  case (run t d ce)
  then show ?thesis using commit_txn[OF _ run(2,4)] by (auto simp: views)
qed (auto simp: views)

text \<open>Iterators.\<close>

lemma moves_forward:
  "\<forall>p \<in> set rest. fst p < stop \<Longrightarrow> tk_moves 0 False stop c rest e = (rest, case e of None \<Rightarrow> EOF | Some err \<Rightarrow> err)"
  by (induction rest arbitrary: c) (auto simp: checkBorder_def)

lemma walk_forward:
  "\<forall>p \<in> set items. fst p < stop \<Longrightarrow>
     tk_walk 0 False stop (items, e) = (items, if items = [] then EOF else case e of None \<Rightarrow> EOF | Some err \<Rightarrow> err)"
  by (cases items) (auto simp: moves_forward)

lemma walk_first: "fst (tk_walk limit reverse stop (items, e)) = [] \<longleftrightarrow> items = []"
  "fst (tk_walk limit reverse stop (items, e)) = p # ps \<Longrightarrow> \<exists>rest. items = p # rest"
  by (cases items; auto split: prod.splits)+

lemma walk_error: "snd (tk_walk limit reverse stop (items, e)) = EOF \<or> e = Some (snd (tk_walk limit reverse stop (items, e)))"
proof -
  have "snd (tk_moves limit reverse stop c rest e) = EOF \<or> e = Some (snd (tk_moves limit reverse stop c rest e))" for c rest
    by (induction rest arbitrary: c) (simp_all add: split_beta split: option.split)
  then show ?thesis by (cases items) (simp_all add: split_beta)
qed

lemma newIter_cases:
  assumes "good (cluster s)" "tk_newIter tk s a b ts lim = (it, s')"
  obtains (failed) err where "it = Inl err" "foreign err" "same (cluster s) (cluster s')"
    | (created) items e where "it = Inr (tk_walk (sint lim) (a > b) b (items, e))" "same (cluster s) (cluster s')"
        "\<forall>err. e = Some err \<longrightarrow> foreign err \<and> err \<noteq> EOF"
        "if a > b then tk_IterReverse tk ts (a @ [0]) (cluster s) = (Inr (items, e), cluster s')
         else tk_Iter tk ts a b (cluster s) = (Inr (items, e), cluster s')"
proof -
  let ?f = "if a > b then tk_IterReverse tk ts (a @ [0]) else tk_Iter tk ts a b"
  obtain x d where x: "?f (cluster s) = (x, d)" by fastforce
  then have q: "same (cluster s) d \<and> (case x of Inl err \<Rightarrow> foreign err | Inr (items, e) \<Rightarrow> (\<forall>err. e = Some err \<longrightarrow> foreign err \<and> err \<noteq> EOF))"
    using iter_quiet[OF assms(1), of ts a b x d] iter_quiet[OF assms(1), of ts a "a @ [0]" x d] by (auto split: if_splits)
  show ?thesis
  proof (cases x)
    case (Inl err)
    then show ?thesis using assms(2) x q by (intro failed) (auto simp: tk_newIter_def onCluster_def Let_def)
  next
    case (Inr y)
    obtain items e where "y = (items, e)" by fastforce
    then show ?thesis using assms(2) x q Inr
      by (intro created[of items e]) (auto simp: tk_newIter_def onCluster_def Let_def split: if_splits)
  qed
qed

lemma Iter_cases:
  assumes "good (cluster s)" "tk_store_Iter tk s a b ts lim = (it, s')"
  obtains (failed) err where "it = Inl err" "foreign err" "same (cluster s) (cluster s')"
    | (created) items e ts' d where "it = Inr (tk_walk (sint lim) (a > b) b (items, e))" "same (cluster s) (cluster s')"
        "\<forall>err. e = Some err \<longrightarrow> foreign err \<and> err \<noteq> EOF" "asof d ts' = ts_snap s ts" "good d"
        "if a > b then tk_IterReverse tk ts' (a @ [0]) d = (Inr (items, e), cluster s')
         else tk_Iter tk ts' a b d = (Inr (items, e), cluster s')"
proof (cases "ts = 0")
  case False
  then have it: "tk_newIter tk s a b ts lim = (it, s')" using assms(2) by (simp add: tk_store_Iter_def)
  show ?thesis using assms(1) it
  proof (cases rule: newIter_cases)
    case (created items e)
    then show ?thesis using False assms(1) by (intro that(2)[of items e "cluster s" ts]) (auto simp: views)
  qed (use failed in blast)
next
  case True
  obtain q d0 where q: "tk_GetTimestamp tk (cluster s) = (q, d0)" by fastforce
  note law = timestamp[OF assms(1) q]
  show ?thesis
  proof (cases q)
    case (Inl err)
    then show ?thesis using True q law assms(2)
      by (intro failed) (auto simp: tk_store_Iter_def tk_GetTimestampOracle_def onCluster_def)
  next
    case (Inr ts')
    let ?s = "snd (getClient s)\<lparr>cluster := d0\<rparr>"
    have it: "tk_newIter tk ?s a b ts' lim = (it, s')"
      using True Inr q assms(2) by (simp add: tk_store_Iter_def tk_GetTimestampOracle_def onCluster_def)
    have g: "good (cluster ?s)" using law by simp
    show ?thesis using g it
    proof (cases rule: newIter_cases)
      case (created items e)
      then show ?thesis using True law Inr by (intro that(2)[of items e d0 ts']) (auto simp: views)
    qed (use law failed in auto)
  qed
qed

lemma Iter_forward:
  assumes "good (cluster s)" "a \<le> b" "b \<noteq> []" "tk_store_Iter tk s a b ts 0 = (Inr (items, err), s')"
  shows "prefix items (forward_range (ts_snap s ts) a b) \<and> (err = EOF \<longrightarrow> items = forward_range (ts_snap s ts) a b)"
  using assms(1,4)
proof (cases rule: Iter_cases)
  case (created items' e ts' d)
  have f: "prefix items' (forward_range (ts_snap s ts) a b)" "e = None \<or> items' = [] \<Longrightarrow> items' = forward_range (ts_snap s ts) a b"
    using iter_snapshot[OF created(5) assms(3), of ts' a items' e] created(4,6) leD[OF assms(2)] by auto
  have fin: "finite (dom (ts_snap s ts))" using content_finite[OF assms(1)] by (simp add: views)
  have "\<forall>p \<in> set items'. fst p < b" using set_mono_prefix[OF f(1)] fin by (auto simp: forward_range_def)
  then have i: "items = items'" "err = (if items' = [] then EOF else case e of None \<Rightarrow> EOF | Some err \<Rightarrow> err)"
    using created(1) leD[OF assms(2)] walk_forward[of items' b e] by auto
  have "e \<noteq> Some EOF" using created(3) by blast
  then show ?thesis using f i by (auto split: if_splits option.splits)
qed simp

lemma Iter_reverse:
  assumes "good (cluster s)" "b < a" "tk_store_Iter tk s a b ts lim = (Inr (items, err), s')"
  shows "case items of
      [] \<Rightarrow> reverse_range (ts_snap s ts) a b = []
    | (k, v) # _ \<Rightarrow> ts_snap s ts k = Some v \<and> ((b < k \<and> (\<exists>rest. reverse_range (ts_snap s ts) a b = (k, v) # rest))
         \<or> (k \<le> b \<and> reverse_range (ts_snap s ts) a b = []))"
  using assms(1,3)
proof (cases rule: Iter_cases)
  case (created items' e ts' d)
  let ?m = "ts_snap s ts"
  let ?L = "rev (entries_of ?m {..a})"
  have "{..<a @ [0]} = {..a}" by (auto simp: less_snoc_zero)
  then have f: "prefix items' ?L" "items' = [] \<Longrightarrow> ?L = []"
    using iter_reverse[OF created(5), of ts' "a @ [0]" items' e] created(4,6) assms(2) by auto
  have fin: "finite (dom ?m)" using content_finite[OF assms(1)] by (simp add: views)
  have rr: "reverse_range ?m a b = takeWhile (\<lambda>p. b < fst p) ?L" by (rule reverse_range_takeWhile[OF fin])
  have it: "items = fst (tk_walk (sint lim) (a > b) b (items', e))" using created(1) by (metis fst_conv sum.inject(2))
  show ?thesis
  proof (cases items)
    case Nil
    then show ?thesis using it walk_first(1)[of "sint lim" "a > b" b items' e] f(2) rr by simp
  next
    case (Cons p ps)
    then obtain rest where "items' = p # rest" using it walk_first(2)[of "sint lim" "a > b" b items' e p ps] by metis
    then obtain L' where L: "?L = p # L'" using f(1) by (metis append_Cons prefix_def)
    then have "p \<in> set (entries_of ?m {..a})" by (metis list.set_intros(1) set_rev)
    then have "?m (fst p) = Some (snd p)" unfolding set_entries_of[OF fin] by auto
    then show ?thesis using Cons rr L by (cases p) (auto simp: not_less)
  qed
qed simp

lemma Iter_error:
  assumes "good (cluster s)" "tk_store_Iter tk s a b ts lim = (it, s')"
  shows "same (cluster s) (cluster s') \<and> (case it of Inl err \<Rightarrow> \<not> errors_is err ErrKeyNotFound | Inr (items, err) \<Rightarrow> \<not> errors_is err ErrKeyNotFound)"
  using assms
proof (cases rule: Iter_cases)
  case (created items e ts' d)
  then show ?thesis using walk_error[of "sint lim" "a > b" b items e] by (auto simp: foreign_def split: prod.splits)
qed (auto simp: foreign_def)

lemma Get_cases:
  assumes "good (cluster s)" "tk_store_Get tk s k = (g, s')"
  shows "same (cluster s) (cluster s') \<and> (\<forall>v. g = Inr v \<longrightarrow> tv s k = Some v) \<and> (g = Inl ErrKeyNotFound \<longrightarrow> tv s k = None)"
proof -
  obtain b d0 where b: "tk_Begin tk (cluster s) = (b, d0)" by fastforce
  note law = begin_txn[OF assms(1) b]
  show ?thesis
  proof (cases b)
    case (Inl err)
    then show ?thesis using b law assms(2) by (auto simp: tk_store_Get_def onCluster_def)
  next
    case (Inr t)
    obtain r d1 where r: "tk_Get tk t k d0 = (r, d1)" by fastforce
    have l1: "same (cluster s) d1" "begun d1 t" "tview t = tv s"
      "case r of Inl err \<Rightarrow> foreign err \<and> (tk_IsErrNotFound tk err \<longrightarrow> tview t k = None) | Inr v \<Rightarrow> tview t k = Some v"
      using get_key[of d0 t k r d1] law Inr r by (auto simp: views)
    obtain e d2 where c: "tk_Commit tk t d1 = (e, d2)" by fastforce
    have "same d1 d2" using commit_idle[OF _ l1(2) _ c] l1 by (simp add: views)
    then show ?thesis using b Inr r c l1 assms(2)
      by (cases r; cases e) (auto simp: tk_store_Get_def views split: if_splits)
  qed
qed

lemma GetPartitions_cases:
  assumes "good (cluster s)" "tk_store_GetPartitions tk s a b = (p, s')"
  shows "same (cluster s) (cluster s') \<and> (\<forall>ps. p = Inr ps \<longrightarrow> a < b \<longrightarrow> tiles (sort_key Start ps) a b)"
proof -
  obtain r d where r: "tk_ScanRegions tk a b (cluster s) = (r, d)" by fastforce
  note law = scan_regions[OF assms(1) r]
  have "tiles (sort_key Start (map (regionPartition a b) regs)) a b" if "region_chain regs a b" "a < b" for regs
  proof -
    have "regs \<noteq> [] \<and> StartKey (hd regs) \<le> a" using that(1) by (cases "(regs, a, b)" rule: region_chain.cases) auto
    then have t: "tiles (map (regionPartition a b) regs) a b" using chain_tiles[OF that(1) order.refl that(2)] by blast
    then show ?thesis using tiles_sorted[OF t] sort_key_id_if_sorted by metis
  qed
  then show ?thesis using law r assms(2)
    by (cases r) (auto simp: tk_store_GetPartitions_def onCluster_def split: if_splits)
qed

end

context txnkv_listed
begin

lemma batch_law:
  assumes "good (cluster s)" "tk_batch_Commit tk s ops = (e, s')"
  shows "good (cluster s') \<and> may_apply e ops (tv s) (tv s') \<and> (\<forall>err. e = Some err \<longrightarrow> errors_is err ErrCASFailed \<longrightarrow> \<not> errors_is err ErrUncertainResult)
    \<and> (\<forall>k v. e \<noteq> Some (Conflict 0 k v))"
  using assms
proof (cases rule: batch_Commit_cases)
  case (refused err)
  then show ?thesis using refused_certain[of err] by (auto simp: may_apply_def views foreign_def)
next
  case (run t d ce)
  note law = commit_txn[OF _ run(2,4)]
  show ?thesis
  proof (cases ce)
    case None
    then show ?thesis using law run by (auto simp: views)
  next
    case (Some err)
    then have f: "foreign err" using law run(1) by blast
    show ?thesis
    proof (cases "tk_IsErrWriteConflict tk err")
      case True
      then show ?thesis using law run Some by (auto simp: commitErr_def may_apply_def views)
    next
      case False
      note listed = commitErr_listed[of err tk, OF f False]
      show ?thesis
      proof (cases "\<exists>u \<in> set (uncertainErrList tk). errors_is err u")
        case True
        then have "errors_is (commitErr tk err) ErrUncertainResult" "\<not> errors_is (commitErr tk err) ErrCASFailed"
          using listed by auto
        then show ?thesis using law run Some by (auto simp: may_apply_def views)
      next
        case unl: False
        then have "commitErr tk err = err" "content (cluster s') = content d"
          using listed commit_listed[of d t err "cluster s'"] run Some by auto
        then show ?thesis using law run Some f by (auto simp: may_apply_def views foreign_def)
      qed
    qed
  qed
qed

end

text \<open>A client that keeps what the adapter relies on makes it a storage engine.\<close>

sublocale txnkv_listed \<subseteq> tv: kv_engine "tikvkv tk" "tikv_view content" "tikv_snap content asof" "\<lambda>s. good (cluster s)"
proof (unfold_locales, goal_cases)
  case (1 s) then show ?case using content_finite by (simp add: views)
next
  case (2 s) then show ?case by (simp add: views)
next
  case (3 s r s')
  obtain q d where q: "tk_GetTimestamp tk (cluster s) = (q, d)" by fastforce
  then show ?case using timestamp[OF 3(1) q] 3(2)
    by (cases q) (auto simp: tikvkv_def tk_GetTimestampOracle_def views)
next
  case (4 s ts s')
  obtain q d where q: "tk_GetTimestamp tk (cluster s) = (q, d)" by fastforce
  then show ?case using timestamp[OF 4(1) q] 4(2)
    by (cases q) (auto simp: tikvkv_def tk_GetTimestampOracle_def views)
next
  case 5 then show ?case using GetPartitions_cases by (simp add: tikvkv_def views fun_eq_iff)
next
  case 6 then show ?case using GetPartitions_cases by (simp add: tikvkv_def)
next
  case 7 then show ?case using Get_cases by (simp add: tikvkv_def views fun_eq_iff)
next
  case 8 then show ?case using Get_cases by (simp add: tikvkv_def)
next
  case 9 then show ?case using Get_cases by (simp add: tikvkv_def)
next
  case 10 then show ?case using Iter_error by (simp add: tikvkv_def views fun_eq_iff)
next
  case 11 then show ?case using Iter_forward by (simp add: tikvkv_def)
next
  case (12 s b a ts lim k v items err s') then show ?case using Iter_reverse[of s b a ts lim "(k, v) # items" err s'] by (simp add: tikvkv_def)
next
  case (13 s b a ts lim s') then show ?case using Iter_reverse[of s b a ts lim "[]" EOF s'] by (simp add: tikvkv_def)
next
  case (14 s a b ts lim err s') then show ?case using Iter_error[of s a b ts lim "Inl err" s'] by (simp add: tikvkv_def)
next
  case (15 s a b ts lim items err s') then show ?case using Iter_error[of s a b ts lim "Inr (items, err)" s'] by (simp add: tikvkv_def)
next
  case 16 then show ?case using batch_law by (simp add: tikvkv_def)
next
  case 17 then show ?case using batch_law by (simp add: tikvkv_def)
next
  case 18 then show ?case using batch_law by (simp add: tikvkv_def) blast
next
  case 19 then show ?case using batch_law by (simp add: tikvkv_def)
next
  case 20 then show ?case using batch_law by (simp add: tikvkv_def)
qed (use batch_snap in \<open>simp_all add: tikvkv_def\<close>)

section \<open>A client of this kind\<close>

text \<open>
  The log of commits of theory \<open>Badger\<close>, with the number of commits as timestamp; the snapshot at \<open>ts\<close> has the first \<open>ts\<close> of them. There
  are two regions, split at a revision key.
\<close>

definition log_asof :: "writes list \<Rightarrow> rev \<Rightarrow> writes list" where
  "log_asof d ts = drop (length d - unat ts) d"

definition log_pairs :: "writes list \<Rightarrow> (bytes \<Rightarrow> bool) \<Rightarrow> kvpair list" where
  "log_pairs d P = map (\<lambda>k. (k, the (log_content d k))) (log_keys (d, []) P)"

definition logSplit :: bytes where
  "logSplit = EncodeObjectKey [0x6d] 0"

definition logtk :: "(writes list, writes list \<times> writes) txnkv" where
  "logtk = \<lparr>tk_Begin = (\<lambda>d. (Inr (d, []), d)),
     tk_GetTimestamp = (\<lambda>d. (Inr (of_nat (length d)), d)),
     tk_Get = (\<lambda>t k d. (case log_tview t k of None \<Rightarrow> Inl bdgNotFound | Some v \<Rightarrow> Inr v, d)),
     tk_Set = (\<lambda>t k v. (None, (fst t, (k, Some v) # snd t))),
     tk_Delete = (\<lambda>t k. (None, (fst t, (k, None) # snd t))),
     tk_Commit = (\<lambda>t d. if length d + 1 < 2 ^ 64 then (None, snd t # d) else (Some (OtherErr ''out of timestamps''), d)),
     tk_Iter = (\<lambda>ts a b d. (Inr (log_pairs (log_asof d ts) (\<lambda>k. a \<le> k \<and> k < b), None), d)),
     tk_IterReverse = (\<lambda>ts b d. (Inr (rev (log_pairs (log_asof d ts) (\<lambda>k. k < b)), None), d)),
     tk_ScanRegions = (\<lambda>a b d. (Inr (if a < logSplit \<and> logSplit < b then [\<lparr>StartKey = [], EndKey = logSplit\<rparr>, \<lparr>StartKey = logSplit, EndKey = []\<rparr>] else []), d)),
     tk_IsErrNotFound = (\<lambda>err. err = bdgNotFound),
     tk_IsErrWriteConflict = (\<lambda>err. False),
     tk_ErrBodyMissing = OtherErr ''response body is missing'',
     tk_ErrTiKVServerTimeout = OtherErr ''tikv server timeout'',
     tk_ErrUnknown = OtherErr ''unknown''\<rparr>"

lemma log_pairs_entries: "log_pairs d P = entries_of (log_content d) (Collect P)"
  by (simp add: log_pairs_def log_keys_sorted log_tview_new entries_of_def)

lemma finite_log_content: "finite (dom (log_content d))"
  using finite_subset[OF log_content_keys[of d]] by simp

lemma log_asof_Cons:
  "log_asof (w # d) ts = (if unat ts \<le> length d then log_asof d ts else w # d)"
  by (simp add: log_asof_def Suc_diff_le)

lemma log_asof_now: "length d \<le> unat ts \<Longrightarrow> log_asof d ts = d"
  by (simp add: log_asof_def)

lemma log_asof_length: "length d < 2 ^ 64 \<Longrightarrow> log_asof d (of_nat (length d)) = d"
  by (rule log_asof_now) (simp add: unsigned_of_nat take_bit_nat_eq_self)

interpretation logtk: txnkv_listed logtk log_content "\<lambda>d ts. log_content (log_asof d ts)" log_tview "\<lambda>d t. fst t = d" "\<lambda>d. length d < 2 ^ 64"
proof (unfold_locales, goal_cases)
  case 1 show ?case using finite_log_content by simp
next
  case 2 then show ?case by (auto simp: logtk_def log_tview_new)
next
  case 3 then show ?case by (auto simp: logtk_def log_asof_length simp del: One_nat_def)
next
  case 4 then show ?case by (auto simp: logtk_def bdgNotFound_def foreign_def split: option.splits)
next
  case 5 then show ?case by (auto simp: logtk_def log_tview_def fun_eq_iff split: option.split)
next
  case 6 then show ?case by (auto simp: logtk_def log_tview_def fun_eq_iff split: option.split)
next
  case 7 then show ?case by (auto simp: logtk_def log_tview_def log_asof_Cons foreign_def fun_eq_iff split: if_splits)
next
  case (8 d t e d')
  then show ?case by (auto simp: logtk_def log_tview_def log_asof_Cons log_asof_now fun_eq_iff split: if_splits)
next
  case 9 then show ?case by (auto simp: logtk_def log_pairs_entries forward_range_def atLeastLessThan_def Int_def atLeast_def lessThan_def)
next
  case 10 then show ?case by (auto simp: logtk_def log_pairs_entries lessThan_def)
next
  case 11 then show ?case by (auto simp: logtk_def)
next
  case 12 then show ?case by (auto simp: logtk_def split: if_splits)
next
  case 13 then show ?case by (auto simp: logtk_def split: if_splits)
qed

section \<open>Errors of a commit\<close>

text \<open>
  An error that is not in the list is passed on as it is. If the client returns one although it committed, the engine reports a
  failure that looks certain, and the backend drops a write that took effect.
\<close>

lemma unlisted_error_hides_commit:
  assumes "tk_Begin tk d = (Inr t, d)" "tk_run tk 1 ops t d = (None, t', d)" "tk_Commit tk t' d = (Some err, d')"
    and "foreign err" "\<not> tk_IsErrWriteConflict tk err" "\<not> (\<exists>u \<in> set (uncertainErrList tk). errors_is err u)"
  shows "\<exists>s'. tk_batch_Commit tk \<lparr>cluster = d, clients = n, turn = i\<rparr> ops = (Some err, s') \<and> cluster s' = d'
    \<and> \<not> errors_is err ErrUncertainResult"
  using assms commitErr_listed[of err tk] by (auto simp: tk_batch_Commit_def onCluster_def getClient_def foreign_def)

end
