(* ===== verification/Engines.thy ===== *)
theory Engines
  imports TiKV StorageMetrics
begin

text \<open>
  The engines the program is built with, Badger and TiKV, as instances of the contracts the backend is proved correct over:
  what List, Count and streams need, and what compaction needs.
\<close>

context badger_spec
begin

lemma badger_clean:
  "kv_engine_clean (badgerkv bdg) (\<lambda>s. content (bdb s)) (\<lambda>s ts. content (bdb s)) (badger_ok history good)"
proof (intro kv_engine_clean.intro kv_engine_bordered.intro bd.kv_engine_axioms kv_engine_bordered_axioms.intro
    kv_engine_clean_axioms.intro, goal_cases)
  case 1
  then show ?case by (auto simp: badgerkv_def)
next
  case (2 s k err s')
  obtain e1 t where t: "bdg_Delete bdg (bdg_NewTransaction bdg (bdb s)) k = (e1, t)" by fastforce
  then obtain d where "bdg_Commit bdg (bdb s) t = (Some err, d)"
    using 2(2) by (auto simp: badgerkv_def bdg_store_Del_def split: prod.splits)
  moreover have "begun (bdb s) t" using delete_writes[of "bdb s", OF _ _ t] bok_new[OF 2(1)] by blast
  ultimately show ?case using bok_commit[OF 2(1)] by (auto simp: foreign_def)
qed

end

context txnkv_listed
begin

lemma tikv_engine: "kv_engine (tikvkv tk) (tikv_view content) (tikv_snap content asof) (\<lambda>s. good (cluster s))"
  by (rule tv.kv_engine_axioms)

lemma chain_borders:
  "region_chain regs a b \<Longrightarrow> p \<in> set (butlast (map (regionPartition start b) regs)) \<Longrightarrow> \<exists>r \<in> set (butlast regs). End p = EndKey r"
  by (induction regs a b rule: region_chain.induct) (auto simp: regionPartition_def minBytes_def split: if_splits)

lemma tikv_bordered:
  assumes "\<And>d a b regs d' r. good d \<Longrightarrow> tk_ScanRegions tk a b d = (Inr regs, d') \<Longrightarrow> r \<in> set (butlast regs) \<Longrightarrow> border_ok (EndKey r)"
  shows "kv_engine_bordered (tikvkv tk) (tikv_view content) (tikv_snap content asof) (\<lambda>s. good (cluster s))"
proof (intro kv_engine_bordered.intro tv.kv_engine_axioms kv_engine_bordered_axioms.intro)
  fix s a b ps s' p
  assume s: "good (cluster s)" "a < b" "kv_GetPartitions (tikvkv tk) s a b = (Inr ps, s')" "p \<in> set (butlast (sort_key Start ps))"
  obtain r d where r: "tk_ScanRegions tk a b (cluster s) = (r, d)" by fastforce
  then obtain regs where regs: "r = Inr regs" "ps = (if length regs > 1 then map (regionPartition a b) regs else [\<lparr>Start = a, End = b\<rparr>])"
    using s(3) by (cases r) (auto simp: tikvkv_def tk_store_GetPartitions_def onCluster_def)
  then have "length regs > 1" using s(4) by (auto split: if_splits)
  then have ch: "region_chain regs a b" and ps: "ps = map (regionPartition a b) regs"
    using scan_regions[OF s(1) r] regs s(2) by auto
  have "regs \<noteq> [] \<and> StartKey (hd regs) \<le> a" using ch by (cases "(regs, a, b)" rule: region_chain.cases) auto
  then have "sort_key Start ps = ps"
    using chain_tiles[OF ch order.refl s(2)] tiles_sorted ps sort_key_id_if_sorted by metis
  then show "border_ok (End p)" using chain_borders[OF ch, of p a] s(4) ps assms[OF s(1)] r regs(1) by auto
qed

end

section \<open>Properties\<close>



section \<open>Witnesses\<close>



end
