(* ===== verification/Endpoint.thy ===== *)
theory Endpoint
  imports KB_Prelude
begin

text \<open>
  \<^verbatim>\<open>pkg/endpoint\<close>: the configuration of the listeners, the TLS settings made from it, and the tree of servers a port exposes.
  Reading certificates is a parameter, the record \<open>files\<close>. A nil pointer is \<open>None\<close>, and using one is a panic, the outer \<open>None\<close> of a
  result.
\<close>

section \<open>Configuration\<close>

datatype secureMode = modeOnlyInsecure | modeOnlySecure | modeBothInsecureAndSecure

text \<open>The fields of a \<^verbatim>\<open>tls.Config\<close> that are set; \<^verbatim>\<open>NoClientCert\<close> is the zero value.\<close>

datatype clientAuthType = NoClientCert | RequireAndVerifyClientCert

record ('c, 'p) tlsConfig =
  Certificates :: "'c list"
  tls_ClientAuth :: clientAuthType
  ClientCAs :: "'p option"
  RootCAs :: "'p option"

record ('c, 'p) SecurityConfig =
  CertFile :: string
  KeyFile :: string
  CA :: string
  ClientAuth :: bool
  AllowInsecure :: bool
  serverTlsConfig :: "('c, 'p) tlsConfig option"
  clientTlsConfig :: "('c, 'p) tlsConfig option"
  once :: bool
  sc_err :: "error option"

record ('c, 'p) EndpointConfig =
  Port :: int
  PeerPort :: int
  InfoPort :: int
  ClientSecurityConfig :: "('c, 'p) SecurityConfig option"
  PeerSecurityConfig :: "('c, 'p) SecurityConfig option"
  ec_EnableEtcdCompatibility :: bool

record ('c, 'p) files =
  LoadX509KeyPair :: "string \<Rightarrow> string \<Rightarrow> error + 'c"
  ReadPool :: "string \<Rightarrow> error + 'p"

definition isInsecure :: "('c, 'p) SecurityConfig option \<Rightarrow> bool" where
  "isInsecure sc = (case sc of None \<Rightarrow> True | Some c \<Rightarrow> CertFile c = '''' \<and> KeyFile c = '''' \<and> CA c = '''' \<and> \<not> ClientAuth c)"

definition mode :: "('c, 'p) SecurityConfig option \<Rightarrow> secureMode" where
  "mode sc =
     (if isInsecure sc then modeOnlyInsecure
      else if AllowInsecure (the sc) then modeBothInsecureAndSecure
      else modeOnlySecure)"

text \<open>
  The function run once by \<^verbatim>\<open>init\<close>. Nothing is set when the key pair cannot be loaded; when the CA cannot, the two settings
  stay as they were made from the key pair.
\<close>

definition initOnce :: "('c, 'p) files \<Rightarrow> ('c, 'p) SecurityConfig \<Rightarrow> ('c, 'p) SecurityConfig" where
  "initOnce f sc =
     (case LoadX509KeyPair f (CertFile sc) (KeyFile sc) of
        Inl err \<Rightarrow> sc\<lparr>sc_err := Some (Wrapped ''can not load key pair'' err)\<rparr>
      | Inr cert \<Rightarrow>
          let tls = \<lparr>Certificates = [cert], tls_ClientAuth = NoClientCert, ClientCAs = None, RootCAs = None\<rparr>;
              sc1 = sc\<lparr>serverTlsConfig := Some tls, clientTlsConfig := Some tls\<rparr>
          in if CA sc \<noteq> '''' then
               (case ReadPool f (CA sc) of
                  Inl err \<Rightarrow> sc1\<lparr>sc_err := Some (Wrapped ''can not load ca cert'' err)\<rparr>
                | Inr certPool \<Rightarrow>
                    sc1\<lparr>serverTlsConfig := Some (tls\<lparr>tls_ClientAuth := RequireAndVerifyClientCert, ClientCAs := Some certPool, RootCAs := Some certPool\<rparr>),
                        clientTlsConfig := Some (tls\<lparr>RootCAs := Some certPool\<rparr>)\<rparr>)
             else if ClientAuth sc then
               sc1\<lparr>serverTlsConfig := Some (tls\<lparr>tls_ClientAuth := RequireAndVerifyClientCert\<rparr>)\<rparr>
             else sc1)"

definition init :: "('c, 'p) files \<Rightarrow> ('c, 'p) SecurityConfig option \<Rightarrow> error option \<times> ('c, 'p) SecurityConfig option" where
  "init f sc =
     (case sc of
        None \<Rightarrow> (None, None)
      | Some c \<Rightarrow> let c1 = (if once c then c else (initOnce f c)\<lparr>once := True\<rparr>) in (sc_err c1, Some c1))"

definition validate :: "('c, 'p) files \<Rightarrow> ('c, 'p) SecurityConfig option \<Rightarrow> error option \<times> ('c, 'p) SecurityConfig option" where
  "validate f sc = (if isInsecure sc then (None, sc) else init f sc)"

definition getServerTLSConfig ::
    "('c, 'p) files \<Rightarrow> ('c, 'p) SecurityConfig option \<Rightarrow> (('c, 'p) tlsConfig option \<times> ('c, 'p) SecurityConfig option) option" where
  "getServerTLSConfig f sc = (case init f sc of (_, None) \<Rightarrow> None | (_, Some c) \<Rightarrow> Some (serverTlsConfig c, Some c))"

definition getClientTLSConfig ::
    "('c, 'p) files \<Rightarrow> ('c, 'p) SecurityConfig option \<Rightarrow> (('c, 'p) tlsConfig option \<times> ('c, 'p) SecurityConfig option) option" where
  "getClientTLSConfig f sc = (case init f sc of (_, None) \<Rightarrow> None | (_, Some c) \<Rightarrow> Some (clientTlsConfig c, Some c))"

definition invalidErr :: "string \<Rightarrow> error" where
  "invalidErr what = OtherErr (''invalid '' @ what)"

definition Validate :: "('c, 'p) files \<Rightarrow> ('c, 'p) EndpointConfig option \<Rightarrow> error option \<times> ('c, 'p) EndpointConfig option" where
  "Validate f cfg =
     (case cfg of
        None \<Rightarrow> (Some (invalidErr ''config''), None)
      | Some c \<Rightarrow>
          if Port c = 0 then (Some (invalidErr ''port''), Some c)
          else if PeerPort c = 0 \<or> PeerPort c = Port c then (Some (invalidErr ''peer port''), Some c)
          else if InfoPort c \<noteq> 0 \<and> (InfoPort c = Port c \<or> InfoPort c = PeerPort c) then (Some (invalidErr ''info port''), Some c)
          else
            (case validate f (ClientSecurityConfig c) of
               (Some err, sc) \<Rightarrow> (Some err, Some (c\<lparr>ClientSecurityConfig := sc\<rparr>))
             | (None, sc) \<Rightarrow>
                 (case validate f (PeerSecurityConfig c) of
                    (e, psc) \<Rightarrow> (e, Some (c\<lparr>ClientSecurityConfig := sc, PeerSecurityConfig := psc\<rparr>)))))"

section \<open>Servers\<close>

text \<open>
  The servers behind a port: HTTP with its handlers by path, gRPC, and the TLS server around others. \<^verbatim>\<open>http.ServeMux\<close> panics when a
  path is handled twice.
\<close>

datatype 'h exposedServer = HttpServer "(string \<times> 'h) list" | GrpcServer | SecureServer "'h exposedServer list"

fun muxHandle :: "(string \<times> 'h) list \<Rightarrow> (string \<times> 'h) list \<Rightarrow> (string \<times> 'h) list option" where
  "muxHandle mux [] = Some mux"
| "muxHandle mux ((pattern, handler) # rest) =
     (if pattern \<in> fst ` set mux then None else muxHandle (mux @ [(pattern, handler)]) rest)"

definition newHttpServerWithHandlers :: "(string \<times> 'h) list list \<Rightarrow> 'h exposedServer option" where
  "newHttpServerWithHandlers handlersMaps = map_option HttpServer (muxHandle [] (concat handlersMaps))"

definition buildExposedServers :: "('c, 'p) SecurityConfig option \<Rightarrow> 'h exposedServer list \<Rightarrow> 'h exposedServer list" where
  "buildExposedServers sc servers =
     (case mode sc of
        modeOnlyInsecure \<Rightarrow> servers
      | modeOnlySecure \<Rightarrow> [SecureServer servers]
      | modeBothInsecureAndSecure \<Rightarrow> SecureServer servers # servers)"

text \<open>The paths under which \<^verbatim>\<open>pprof.go\<close> serves profiles.\<close>

definition getPProfHandlers :: "string list" where
  "getPProfHandlers = map (\<lambda>p. ''/debug/pprof'' @ p)
     [''/'', ''/profile'', ''/symbol'', ''/cmdline'', ''/trace'', ''/heap'', ''/goroutine'', ''/threadcreate'', ''/block'', ''/mutex'']"

subsection \<open>What a client reaches\<close>

text \<open>
  A connection: the client certificate it presents if it starts with a TLS handshake, and whether HTTP/2 is spoken inside.
  The listeners are tried in the order of the servers, by what the connection starts with (\<^verbatim>\<open>matcher\<close>); the TLS server goes on
  inside the handshake, which \<^verbatim>\<open>crypto/tls\<close> completes for a required certificate only if it is verified with the pool
  (\<open>verify\<close>).
\<close>

datatype 'k connection = Plain bool | Tls "'k option" bool

fun matcher :: "'h exposedServer \<Rightarrow> 'k connection \<Rightarrow> bool" where
  "matcher (HttpServer hs) c \<longleftrightarrow> c = Plain False"
| "matcher GrpcServer c \<longleftrightarrow> c = Plain True"
| "matcher (SecureServer ss) c \<longleftrightarrow> (\<exists>k h. c = Tls k h)"

definition handshake :: "('p option \<Rightarrow> 'k \<Rightarrow> bool) \<Rightarrow> ('c, 'p) tlsConfig option \<Rightarrow> 'k option \<Rightarrow> bool" where
  "handshake verify tls cert =
     (case tls of
        None \<Rightarrow> False
      | Some t \<Rightarrow>
          (case tls_ClientAuth t of
             NoClientCert \<Rightarrow> Certificates t \<noteq> []
           | RequireAndVerifyClientCert \<Rightarrow>
               Certificates t \<noteq> [] \<and> (case cert of None \<Rightarrow> False | Some k \<Rightarrow> verify (ClientCAs t) k)))"

fun find_match :: "'h exposedServer list \<Rightarrow> 'k connection \<Rightarrow> 'h exposedServer option" where
  "find_match [] c = None"
| "find_match (s # ss) c = (if matcher s c then Some s else find_match ss c)"

definition serve ::
    "('p option \<Rightarrow> 'k \<Rightarrow> bool) \<Rightarrow> ('c, 'p) tlsConfig option \<Rightarrow> 'h exposedServer list \<Rightarrow> 'k connection \<Rightarrow> 'h exposedServer option" where
  "serve verify tls ss c =
     (case find_match ss c of
        Some (SecureServer inner) \<Rightarrow>
          (case c of Plain h \<Rightarrow> None | Tls cert h \<Rightarrow> if handshake verify tls cert then find_match inner (Plain h :: 'k connection) else None)
      | s \<Rightarrow> s)"

text \<open>A port with the servers for its security configuration.\<close>

definition rootServe ::
    "('c, 'p) files \<Rightarrow> ('p option \<Rightarrow> 'k \<Rightarrow> bool) \<Rightarrow> ('c, 'p) SecurityConfig option \<Rightarrow> 'h exposedServer list \<Rightarrow> 'k connection
     \<Rightarrow> 'h exposedServer option" where
  "rootServe f verify sc servers c =
     serve verify (case getServerTLSConfig f sc of None \<Rightarrow> None | Some (tls, _) \<Rightarrow> tls) (buildExposedServers sc servers) c"

section \<open>Who gets in\<close>

text \<open>
  The specification: without TLS where nothing is configured or insecure access is allowed; with TLS where something is
  configured, and if that includes a CA or client authentication, with a verified certificate.
\<close>

definition poolOf :: "('c, 'p) files \<Rightarrow> ('c, 'p) SecurityConfig \<Rightarrow> 'p option" where
  "poolOf f sc = (if CA sc = '''' then None else case ReadPool f (CA sc) of Inl _ \<Rightarrow> None | Inr p \<Rightarrow> Some p)"

fun admits :: "('c, 'p) files \<Rightarrow> ('p option \<Rightarrow> 'k \<Rightarrow> bool) \<Rightarrow> ('c, 'p) SecurityConfig option \<Rightarrow> 'k connection \<Rightarrow> bool" where
  "admits f verify sc (Plain h) \<longleftrightarrow> isInsecure sc \<or> AllowInsecure (the sc)"
| "admits f verify sc (Tls cert h) \<longleftrightarrow> \<not> isInsecure sc
     \<and> (CA (the sc) \<noteq> '''' \<or> ClientAuth (the sc) \<longrightarrow> (\<exists>k. cert = Some k \<and> verify (poolOf f (the sc)) k))"

fun answering :: "(string \<times> 'h) list \<Rightarrow> 'k connection \<Rightarrow> 'h exposedServer" where
  "answering hs (Plain h) = (if h then GrpcServer else HttpServer hs)"
| "answering hs (Tls cert h) = (if h then GrpcServer else HttpServer hs)"

definition fresh_config :: "('c, 'p) SecurityConfig option \<Rightarrow> bool" where
  "fresh_config sc \<longleftrightarrow> (case sc of None \<Rightarrow> True | Some c \<Rightarrow> \<not> once c \<and> sc_err c = None)"

text \<open>A configuration that was validated: loaded as asked for, and the same in everything else.\<close>

lemma initOnce_loaded:
  assumes "sc_err c = None" "sc_err (initOnce f c) = None"
  shows "\<exists>t. serverTlsConfig (initOnce f c) = Some t \<and> Certificates t \<noteq> [] \<and> ClientCAs t = poolOf f c
    \<and> tls_ClientAuth t = (if CA c \<noteq> '''' \<or> ClientAuth c then RequireAndVerifyClientCert else NoClientCert)"
  using assms by (auto simp: initOnce_def Let_def poolOf_def split: sum.splits if_splits)

lemma initOnce_same [simp]:
  "CertFile (initOnce f c) = CertFile c" "KeyFile (initOnce f c) = KeyFile c" "CA (initOnce f c) = CA c"
  "ClientAuth (initOnce f c) = ClientAuth c" "AllowInsecure (initOnce f c) = AllowInsecure c"
  by (simp_all add: initOnce_def Let_def split: sum.split)

lemma validated_loaded:
  assumes "validate f sc = (None, sc')" "fresh_config sc"
  shows "isInsecure sc' = isInsecure sc \<and> mode sc' = mode sc"
    and "\<not> isInsecure sc \<Longrightarrow> \<exists>t s. getServerTLSConfig f sc' = Some (Some t, s) \<and> Certificates t \<noteq> [] \<and> ClientCAs t = poolOf f (the sc)
      \<and> tls_ClientAuth t = (if CA (the sc) \<noteq> '''' \<or> ClientAuth (the sc) then RequireAndVerifyClientCert else NoClientCert)"
  using assms initOnce_loaded[of "the sc" f]
  by (auto simp: validate_def init_def fresh_config_def isInsecure_def mode_def getServerTLSConfig_def Let_def
      split: if_splits option.splits)

lemma rootServe_admits:
  assumes "validate f sc = (None, sc')" "fresh_config sc"
  shows "rootServe f verify sc' [HttpServer hs, GrpcServer] conn = (if admits f verify sc conn then Some (answering hs conn) else None)"
proof (cases "isInsecure sc")
  case True
  then have "mode sc' = modeOnlyInsecure" using validated_loaded(1)[OF assms] by (simp add: mode_def)
  then show ?thesis using True by (cases conn) (auto simp: rootServe_def serve_def buildExposedServers_def)
next
  case False
  obtain t s where t: "getServerTLSConfig f sc' = Some (Some t, s)" "Certificates t \<noteq> []" "ClientCAs t = poolOf f (the sc)"
      "tls_ClientAuth t = (if CA (the sc) \<noteq> '''' \<or> ClientAuth (the sc) then RequireAndVerifyClientCert else NoClientCert)"
    using validated_loaded(2)[OF assms False] by blast
  have "mode sc' = (if AllowInsecure (the sc) then modeBothInsecureAndSecure else modeOnlySecure)"
    using validated_loaded(1)[OF assms] False by (simp add: mode_def[of sc])
  then show ?thesis using False t
    by (cases conn) (auto simp: rootServe_def serve_def buildExposedServers_def handshake_def split: option.splits)
qed

section \<open>Properties\<close>


text \<open>
  A CA alone makes client certificates required, whatever \<^verbatim>\<open>ClientAuth\<close> says, which is documented as the switch for it; and
  \<^verbatim>\<open>getClientTLSConfig\<close> panics on the nil configuration that \<^verbatim>\<open>init\<close> and \<^verbatim>\<open>Validate\<close> accept.
\<close>

lemma ca_requires_client_cert:
  assumes "validate f (Some c) = (None, sc')" "fresh_config (Some c)" "CA c \<noteq> ''''" "\<not> ClientAuth c"
  shows "rootServe f verify sc' [HttpServer hs, GrpcServer] (Tls None h) = None"
  using rootServe_admits[OF assms(1,2), of verify hs "Tls None h"] assms(3) by simp

lemma nil_config_panics: "validate f None = (None, None) \<and> getClientTLSConfig f None = None"
  by (simp add: validate_def isInsecure_def getClientTLSConfig_def init_def)

section \<open>Witness\<close>

definition sample_files :: "(nat, nat) files" where
  "sample_files = \<lparr>LoadX509KeyPair = (\<lambda>c k. if c = ''cert'' \<and> k = ''key'' then Inr 1 else Inl (OtherErr ''no such file'')),
     ReadPool = (\<lambda>p. if p = ''ca'' then Inr 2 else Inl (OtherErr ''no such file''))\<rparr>"

definition sample_security :: "(nat, nat) SecurityConfig" where
  "sample_security = \<lparr>CertFile = ''cert'', KeyFile = ''key'', CA = ''ca'', ClientAuth = False, AllowInsecure = True,
     serverTlsConfig = None, clientTlsConfig = None, once = False, sc_err = None\<rparr>"

definition sample_endpoint :: "(nat, nat) EndpointConfig" where
  "sample_endpoint = \<lparr>Port = 2379, PeerPort = 2380, InfoPort = 0, ClientSecurityConfig = Some sample_security,
     PeerSecurityConfig = None, ec_EnableEtcdCompatibility = False\<rparr>"

text \<open>Clients whose number is 7 have a certificate of the CA.\<close>

definition sample_verify :: "nat option \<Rightarrow> nat \<Rightarrow> bool" where
  "sample_verify pool k \<longleftrightarrow> pool = Some 2 \<and> k = 7"


end
