(* ===== verification/Host.thy ===== *)
theory Host
  imports Election "HOL-Library.Char_ord" "HOL-Library.Product_Lexorder" "HOL-Library.Multiset"
begin

text \<open>
  \<^verbatim>\<open>pkg/util/net.go\<close> and \<^verbatim>\<open>pkg/util/env.go\<close>: the host name under which an instance is known to the others, chosen among the
  addresses of its network interfaces. An address is a byte slice as in package \<^verbatim>\<open>net\<close>, whose predicates are written out;
  the text of an address is a parameter. \<^verbatim>\<open>sort.Slice\<close> is not stable: it is a parameter too, any function that sorts.
\<close>

unbundle bit_operations_syntax

section \<open>The environment\<close>

record envFlags =
  forceInIPv6Mode :: bool
  skipPrivateAddr :: bool

definition parseEnv :: "string \<Rightarrow> string \<times> string" where
  "parseEnv s = (case splitAt (CHR ''='') s of [k, v] \<Rightarrow> (k, v) | _ \<Rightarrow> (s, ''''))"

text \<open>The \<^verbatim>\<open>init\<close> function of the package on the value of \<^verbatim>\<open>KUBE_DEBUG\<close>; \<open>toBool\<close> is \<^verbatim>\<open>cast.ToBool\<close>.\<close>

definition env_init :: "(string \<Rightarrow> bool) \<Rightarrow> string \<Rightarrow> envFlags" where
  "env_init toBool s =
     fold (\<lambda>inp e. case parseEnv inp of (key, val) \<Rightarrow>
             if key = ''ipv6_only'' then e\<lparr>forceInIPv6Mode := toBool val\<rparr>
             else if key = ''skip_private_addr'' then e\<lparr>skipPrivateAddr := toBool val\<rparr>
             else e)
       (splitAt (CHR '','') s) \<lparr>forceInIPv6Mode = False, skipPrivateAddr = False\<rparr>"

section \<open>Addresses\<close>

definition v4InV6Prefix :: bytes where
  "v4InV6Prefix = replicate 10 0 @ [0xff, 0xff]"

definition To4 :: "bytes \<Rightarrow> bytes option" where
  "To4 ip = (if length ip = 4 then Some ip else if length ip = 16 \<and> take 12 ip = v4InV6Prefix then Some (drop 12 ip) else None)"

definition To16 :: "bytes \<Rightarrow> bytes" where
  "To16 ip = (if length ip = 4 then v4InV6Prefix @ ip else if length ip = 16 then ip else [])"

definition IsLoopback :: "bytes \<Rightarrow> bool" where
  "IsLoopback ip \<longleftrightarrow> (case To4 ip of Some ip4 \<Rightarrow> ip4 ! 0 = 127 | None \<Rightarrow> ip = replicate 15 0 @ [1])"

definition IsLinkLocalUnicast :: "bytes \<Rightarrow> bool" where
  "IsLinkLocalUnicast ip \<longleftrightarrow>
     (case To4 ip of Some ip4 \<Rightarrow> ip4 ! 0 = 169 \<and> ip4 ! 1 = 254 | None \<Rightarrow> length ip = 16 \<and> ip ! 0 = 0xfe \<and> ip ! 1 AND 0xc0 = 0x80)"

definition Contains :: "bytes \<times> bytes \<Rightarrow> bytes \<Rightarrow> bool" where
  "Contains block ip \<longleftrightarrow>
     (let x = (case To4 ip of Some ip4 \<Rightarrow> ip4 | None \<Rightarrow> ip)
      in length x = length (fst block) \<and> map2 (AND) x (snd block) = map2 (AND) (fst block) (snd block))"

text \<open>Network and mask of \<^verbatim>\<open>10.0.0.0/8\<close>, \<^verbatim>\<open>172.16.0.0/12\<close>, \<^verbatim>\<open>192.168.0.0/16\<close> and \<^verbatim>\<open>fd00::/8\<close>.\<close>

definition privateIPBlocks :: "(bytes \<times> bytes) list" where
  "privateIPBlocks =
     [([10, 0, 0, 0], [0xff, 0, 0, 0]), ([172, 16, 0, 0], [0xff, 0xf0, 0, 0]), ([192, 168, 0, 0], [0xff, 0xff, 0, 0]),
      (0xfd # replicate 15 0, 0xff # replicate 15 0)]"

definition isPrivate :: "bytes \<Rightarrow> bool" where
  "isPrivate ip \<longleftrightarrow> (\<exists>block \<in> set privateIPBlocks. Contains block ip)"

section \<open>The choice\<close>

record ip =
  ipv4 :: string
  ipv6 :: string
  ip_ip :: bytes
  ip_isPrivate :: bool

definition noIp :: ip where
  "noIp = \<lparr>ipv4 = '''', ipv6 = '''', ip_ip = [], ip_isPrivate = False\<rparr>"

definition getHost :: "envFlags \<Rightarrow> ip \<Rightarrow> string" where
  "getHost e i = (if ipv4 i \<noteq> '''' \<and> \<not> forceInIPv6Mode e then ipv4 i else ''['' @ ipv6 i @ '']'')"

definition valid :: "ip \<Rightarrow> bool" where
  "valid i \<longleftrightarrow> ipv4 i \<noteq> '''' \<or> ipv6 i \<noteq> ''''"

text \<open>An address of an interface; other kinds than \<^verbatim>\<open>net.IPNet\<close> are passed over.\<close>

datatype addr = IPNet bytes | OtherAddr

record netInterface =
  Up :: bool
  Name :: string
  Addrs :: "error + addr list"

fun getIpLoop :: "envFlags \<Rightarrow> (bytes \<Rightarrow> string) \<Rightarrow> addr list \<Rightarrow> ip \<Rightarrow> ip" where
  "getIpLoop e str [] ret = ret"
| "getIpLoop e str (OtherAddr # ads) ret = getIpLoop e str ads ret"
| "getIpLoop e str (IPNet a # ads) ret =
     (if \<not> IsLoopback a \<and> \<not> IsLinkLocalUnicast a then
        let ip16 = To16 a;
            ret1 = (if To4 ip16 = None then ret\<lparr>ipv6 := str ip16\<rparr>
                    else if \<not> forceInIPv6Mode e then ret\<lparr>ipv4 := str ip16\<rparr>
                    else ret);
            ret2 = ret1\<lparr>ip_ip := a, ip_isPrivate := isPrivate a\<rparr>
        in if ip_isPrivate ret2 \<and> skipPrivateAddr e then getIpLoop e str ads noIp
           else if valid ret2 then ret2
           else getIpLoop e str ads ret2
      else getIpLoop e str ads ret)"

definition getIp :: "envFlags \<Rightarrow> (bytes \<Rightarrow> string) \<Rightarrow> addr list \<Rightarrow> ip" where
  "getIp e str ads = getIpLoop e str ads noIp"

definition localIP :: "envFlags \<Rightarrow> (bytes \<Rightarrow> string) \<Rightarrow> netInterface \<Rightarrow> ip option" where
  "localIP e str nic =
     (if Up nic \<and> \<not> prefix ''lo'' (Name nic) then
        (case Addrs nic of
           Inl _ \<Rightarrow> None
         | Inr ads \<Rightarrow> let i = getIp e str ads in if valid i then Some i else None)
      else None)"

text \<open>\<open>None\<close> for the panic when the interfaces cannot be listed.\<close>

definition getLocalIPs :: "envFlags \<Rightarrow> (bytes \<Rightarrow> string) \<Rightarrow> error + netInterface list \<Rightarrow> ip list option" where
  "getLocalIPs e str nics = (case nics of Inl _ \<Rightarrow> None | Inr ns \<Rightarrow> Some (List.map_filter (localIP e str) ns))"

definition preferMinimalIPv4 :: "ip \<Rightarrow> ip \<Rightarrow> bool" where
  "preferMinimalIPv4 i j =
     (if ipv4 i \<noteq> '''' \<and> ipv4 j = '''' then True
      else if ipv4 i = '''' \<and> ipv4 j \<noteq> '''' then False
      else if ipv4 i \<noteq> '''' \<and> ipv4 j \<noteq> '''' then ipv4 i < ipv4 j
      else ipv6 i < ipv6 j)"

definition preferMinimalPrivate :: "ip \<Rightarrow> ip \<Rightarrow> bool" where
  "preferMinimalPrivate i j =
     (if ip_isPrivate i \<and> \<not> ip_isPrivate j then True
      else if \<not> ip_isPrivate i \<and> ip_isPrivate j then False
      else preferMinimalIPv4 i j)"

definition GetHost ::
    "((ip \<Rightarrow> ip \<Rightarrow> bool) \<Rightarrow> ip list \<Rightarrow> ip list) \<Rightarrow> envFlags \<Rightarrow> (bytes \<Rightarrow> string) \<Rightarrow> error + netInterface list \<Rightarrow> string option" where
  "GetHost sortSlice e str nics =
     map_option (\<lambda>ips.
         if ips = [] then ''''
         else case filter (\<lambda>i. getHost e i \<noteq> '''') (sortSlice preferMinimalPrivate ips) of
                [] \<Rightarrow> '''' | i # _ \<Rightarrow> getHost e i)
       (getLocalIPs e str nics)"

section \<open>Correctness\<close>

text \<open>What \<^verbatim>\<open>sort.Slice\<close> promises: a permutation in which no element is less than one before it.\<close>

definition sorts :: "(('a \<Rightarrow> 'a \<Rightarrow> bool) \<Rightarrow> 'a list \<Rightarrow> 'a list) \<Rightarrow> ('a \<Rightarrow> 'a \<Rightarrow> bool) \<Rightarrow> bool" where
  "sorts sortSlice lt \<longleftrightarrow> (\<forall>xs. mset (sortSlice lt xs) = mset xs \<and> sorted_wrt (\<lambda>x y. \<not> lt y x) (sortSlice lt xs))"

text \<open>The comparison is that of a key: private before public, with an IPv4 address before without, then the text.\<close>

definition ip_key :: "ip \<Rightarrow> bool \<times> bool \<times> string" where
  "ip_key i = (\<not> ip_isPrivate i, ipv4 i = '''', if ipv4 i = '''' then ipv6 i else ipv4 i)"

lemma preferMinimalPrivate_key: "preferMinimalPrivate i j \<longleftrightarrow> ip_key i < ip_key j"
  by (auto simp: preferMinimalPrivate_def preferMinimalIPv4_def ip_key_def less_prod_def')

text \<open>In IPv6 mode no address has an IPv4 part, so the host is a function of the key.\<close>

lemma getIpLoop_mode: "(forceInIPv6Mode e \<longrightarrow> ipv4 ret = '''') \<Longrightarrow> forceInIPv6Mode e \<longrightarrow> ipv4 (getIpLoop e str ads ret) = ''''"
  by (induction e str ads ret rule: getIpLoop.induct) (auto simp: Let_def noIp_def)

lemma localIP_mode: "localIP e str nic = Some i \<Longrightarrow> valid i \<and> (forceInIPv6Mode e \<longrightarrow> ipv4 i = '''')"
  using getIpLoop_mode[of e noIp str]
  by (auto simp: localIP_def getIp_def noIp_def Let_def split: sum.splits if_splits)

lemma host_of_key:
  "ip_key i = ip_key j \<Longrightarrow> forceInIPv6Mode e \<longrightarrow> ipv4 i = '''' \<and> ipv4 j = '''' \<Longrightarrow> getHost e i = getHost e j"
  by (auto simp: ip_key_def getHost_def split: if_splits)

lemma getHost_nonempty: "valid i \<Longrightarrow> getHost e i \<noteq> ''''"
  by (simp add: getHost_def)

text \<open>The addresses an instance may be known by.\<close>

definition candidates :: "envFlags \<Rightarrow> (bytes \<Rightarrow> string) \<Rightarrow> netInterface list \<Rightarrow> ip set" where
  "candidates e str ns = {i. \<exists>nic \<in> set ns. localIP e str nic = Some i}"

lemma set_map_filter_localIP: "set (List.map_filter (localIP e str) ns) = candidates e str ns"
  by (force simp: candidates_def List.map_filter_def)

lemma GetHost_least:
  assumes "sorts sortSlice preferMinimalPrivate"
  obtains (none) "candidates e str ns = {}" "GetHost sortSlice e str (Inr ns) = Some ''''"
    | (chosen) i where "i \<in> candidates e str ns" "\<forall>j \<in> candidates e str ns. ip_key i \<le> ip_key j"
        "GetHost sortSlice e str (Inr ns) = Some (getHost e i)"
proof (cases "List.map_filter (localIP e str) ns = []")
  case True
  then show ?thesis using none set_map_filter_localIP[of e str ns] by (simp add: GetHost_def getLocalIPs_def)
next
  case False
  let ?ips = "List.map_filter (localIP e str) ns"
  let ?srt = "sortSlice preferMinimalPrivate ?ips"
  have perm: "mset ?srt = mset ?ips" and ord: "sorted_wrt (\<lambda>x y. ip_key x \<le> ip_key y) ?srt"
    using assms by (auto simp: sorts_def preferMinimalPrivate_key not_less)
  have set: "set ?srt = candidates e str ns" using perm set_map_filter_localIP mset_eq_setD by metis
  have "?srt \<noteq> []" using perm False by (metis mset.simps(1) mset_zero_iff_right)
  then obtain i rest where i: "?srt = i # rest" by (cases ?srt) auto
  have "\<forall>j \<in> set ?srt. getHost e j \<noteq> ''''"
    using set localIP_mode[of e str] getHost_nonempty by (fastforce simp: candidates_def)
  then have "filter (\<lambda>i. getHost e i \<noteq> '''') ?srt = ?srt" by (simp add: filter_id_conv)
  then have "GetHost sortSlice e str (Inr ns) = Some (getHost e i)" using False i by (simp add: GetHost_def getLocalIPs_def)
  moreover have "i \<in> candidates e str ns" unfolding set[symmetric] i by simp
  moreover have "\<forall>j \<in> candidates e str ns. ip_key i \<le> ip_key j" unfolding set[symmetric] using ord by (simp add: i)
  ultimately show ?thesis using chosen by blast
qed

section \<open>Properties\<close>


section \<open>Witness\<close>

text \<open>A host with a public and a private address; the texts are only told apart by their length.\<close>

definition sample_lo :: netInterface where
  "sample_lo = \<lparr>Up = True, Name = ''lo'', Addrs = Inr [IPNet [127, 0, 0, 1]]\<rparr>"

definition sample_eth0 :: netInterface where
  "sample_eth0 = \<lparr>Up = True, Name = ''eth0'', Addrs = Inr [IPNet [169, 254, 1, 1], IPNet [8, 8, 8, 8]]\<rparr>"

definition sample_eth1 :: netInterface where
  "sample_eth1 = \<lparr>Up = True, Name = ''eth1'', Addrs = Inr [OtherAddr, IPNet [172, 31, 0, 9]]\<rparr>"

definition sample_text :: "bytes \<Rightarrow> string" where
  "sample_text a = (if drop 12 a = [172, 31, 0, 9] then ''172.31.0.9'' else ''8.8.8.8'')"

lemma sort_key_sorts: "sorts (\<lambda>_. sort_key ip_key) preferMinimalPrivate"
proof -
  have "sorted_wrt (\<lambda>x y. ip_key x \<le> ip_key y) (sort_key ip_key xs)" for xs
    using sorted_sort_key[of ip_key xs] by (simp add: sorted_map)
  then show ?thesis by (simp add: sorts_def preferMinimalPrivate_key not_less)
qed

lemmas host_eval = localIP_def sample_lo_def sample_eth0_def sample_eth1_def getIp_def Let_def IsLoopback_def IsLinkLocalUnicast_def To4_def To16_def
  v4InV6Prefix_def isPrivate_def privateIPBlocks_def Contains_def valid_def noIp_def sample_text_def


end
