(* ===== verification/Options.thy ===== *)
theory Options
  imports Compact Endpoint Host
begin

text \<open>
  \<^verbatim>\<open>cmd/option\<close>: the options of the program, their validation, and the configuration of the backend made from them; and what the
  prefixes among them mean for compaction (\<^verbatim>\<open>pkg/backend/compact.go\<close>).
\<close>

section \<open>Options\<close>

datatype storageConfig = BadgerStorage string | TiKVStorage "string list"

record ('c, 'p) KubeBrainOption =
  epsConf :: "('c, 'p) EndpointConfig"
  o_Prefix :: bytes
  o_SkippedPrefixes :: "bytes list"
  ClusterName :: string
  storageConf :: storageConfig
  EnableStorageMetrics :: bool
  watchCacheSize :: int

definition newSecurityConfig :: "('c, 'p) SecurityConfig" where
  "newSecurityConfig = \<lparr>CertFile = '''', KeyFile = '''', CA = '''', ClientAuth = False, AllowInsecure = False,
     serverTlsConfig = None, clientTlsConfig = None, once = False, sc_err = None\<rparr>"

definition NewOptions :: "storageConfig \<Rightarrow> ('c, 'p) KubeBrainOption" where
  "NewOptions storage =
     \<lparr>epsConf = \<lparr>Port = 2379, PeerPort = 2380, InfoPort = 0, ClientSecurityConfig = Some newSecurityConfig,
                PeerSecurityConfig = Some newSecurityConfig, ec_EnableEtcdCompatibility = False\<rparr>,
      o_Prefix = [], o_SkippedPrefixes = [], ClusterName = ''default'', storageConf = storage,
      EnableStorageMetrics = False, watchCacheSize = 200 * 1000\<rparr>"

definition newStorageConfig_badger :: storageConfig where
  "newStorageConfig_badger = BadgerStorage ''./data''"

definition newStorageConfig_tikv :: storageConfig where
  "newStorageConfig_tikv = TiKVStorage []"

fun storage_validate :: "storageConfig \<Rightarrow> error option" where
  "storage_validate (BadgerStorage dir) = None"
| "storage_validate (TiKVStorage pdAddrs) = (if pdAddrs = [] then Some (OtherErr ''invalid param --pd-addrs'') else None)"

definition slash :: bytes where
  "slash = bytes_of_string ''/''"

definition prefixErr :: error where
  "prefixErr = OtherErr ''prefix is invalid, make sure it has no / suffix''"

fun skippedErr :: "bytes \<Rightarrow> bytes list \<Rightarrow> error option" where
  "skippedErr pre [] = None"
| "skippedErr pre (p # ps) =
     (if \<not> prefix pre p then Some (OtherErr ''skipped prefix has no prefix'')
      else if suffix slash p then Some (OtherErr ''skipped prefix is invalid, make sure it has no / suffix'')
      else skippedErr pre ps)"

definition option_Validate :: "('c, 'p) files \<Rightarrow> ('c, 'p) KubeBrainOption \<Rightarrow> error option \<times> ('c, 'p) KubeBrainOption" where
  "option_Validate f opt =
     (case Validate f (Some (epsConf opt)) of
        (e, c) \<Rightarrow>
          let opt1 = opt\<lparr>epsConf := the c\<rparr> in
          (case e of
             Some err \<Rightarrow> (Some err, opt1)
           | None \<Rightarrow>
               if suffix slash (o_Prefix opt) then (Some prefixErr, opt1)
               else (case skippedErr (o_Prefix opt) (o_SkippedPrefixes opt) of
                       Some err \<Rightarrow> (Some err, opt1)
                     | None \<Rightarrow> (storage_validate (storageConf opt), opt1))))"

text \<open>The beginning of \<^verbatim>\<open>Run\<close>: the identity from the host and the peer port, and the configuration of the backend.\<close>

definition signed_decimal :: "int \<Rightarrow> string" where
  "signed_decimal i = (if i < 0 then ''-'' @ decimal (nat (- i)) else decimal (nat i))"

definition runConfig :: "string \<Rightarrow> ('c, 'p) KubeBrainOption \<Rightarrow> error + Config" where
  "runConfig host opt =
     (if length host = 0 then Inl (OtherErr ''local ip is empty'')
      else Inr \<lparr>EnableEtcdCompatibility = ec_EnableEtcdCompatibility (epsConf opt),
                Prefix = o_Prefix opt,
                Identity = bytes_of_string (host @ '':'' @ signed_decimal (PeerPort (epsConf opt))),
                SkippedPrefixes = o_SkippedPrefixes opt,
                WatchCacheSize = watchCacheSize opt\<rparr>)"

section \<open>The ranges of a compaction\<close>

text \<open>The pairs of borders the loop of \<^verbatim>\<open>compact\<close> goes over.\<close>

fun rangesOf :: "bytes list \<Rightarrow> (bytes \<times> bytes) list" where
  "rangesOf (a # b # bs) = (a, b) # rangesOf bs"
| "rangesOf bs = []"

fun overRanges :: "(nat \<Rightarrow> bytes \<Rightarrow> bytes \<Rightarrow> 'a \<Rightarrow> 'a option) \<Rightarrow> (bytes \<times> bytes) list \<Rightarrow> 'a \<Rightarrow> 'a option" where
  "overRanges f [] st = Some st"
| "overRanges f ((a, b) # xs) st = (case f (2 * length xs) a b st of None \<Rightarrow> None | Some st1 \<Rightarrow> overRanges f xs st1)"

lemma length_rangesOf: "even (length bs) \<Longrightarrow> 2 * length (rangesOf bs) = length bs"
  by (induction bs rule: rangesOf.induct) auto

lemma compactRanges_ranges:
  "even (length bs) \<Longrightarrow> compactRanges kv conf ctx revision bs st =
     overRanges (\<lambda>n a b. scanner_Compact kv conf (ctx n) a b revision) (rangesOf bs) st"
  by (induction bs arbitrary: st rule: rangesOf.induct) (auto simp: length_rangesOf split: option.split)

text \<open>A point lies in one of the ranges if and only if an odd number of the sorted borders is not above it.\<close>

lemma ranges_parity:
  assumes "sorted bs" "even (length bs)"
  shows "(\<exists>(a, b) \<in> set (rangesOf bs). a \<le> x \<and> x < b) \<longleftrightarrow> odd (length (filter (\<lambda>y. y \<le> x) bs))"
  using assms
proof (induction bs rule: rangesOf.induct)
  case (1 a b bs)
  have "filter (\<lambda>y. y \<le> x) bs = []" "\<not> (\<exists>(a, b) \<in> set (rangesOf bs). a \<le> x \<and> x < b)" if "x < b"
  proof -
    show f: "filter (\<lambda>y. y \<le> x) bs = []" using 1(2) that by (auto simp: filter_empty_conv)
    show "\<not> (\<exists>(a, b) \<in> set (rangesOf bs). a \<le> x \<and> x < b)" using 1 f by simp
  qed
  then show ?case using 1 by (cases "x < b") auto
qed auto

lemma length_filter_sort: "length (filter P (sort xs)) = length (filter P xs)"
  by (metis mset_filter mset_sort size_mset)

text \<open>The range of a prefix holds exactly the versions of the keys below it.\<close>

lemma prefix_range:
  assumes "wf_key p" "wf_key k"
  shows "EncodeObjectKey (withSlash p) 0 \<le> EncodeObjectKey k r \<and> EncodeObjectKey k r < EncodeObjectKey (PrefixEnd (withSlash p)) 0
    \<longleftrightarrow> prefix (withSlash p) k"
proof -
  have "\<exists>b \<in> set (withSlash p). b \<noteq> 0xff" using withSlash_end[of p] by auto
  then show ?thesis
    using EncodeObjectKey_le_iff[OF wf_withSlash[OF assms(1)] assms(2), of 0 r]
      EncodeObjectKey_less_iff[OF assms(2) wf_PrefixEnd_withSlash[OF assms(1)], of r 0] PrefixEnd_range[of "withSlash p" k]
    by auto
qed

lemma prefix_range_ordered:
  assumes "wf_key p"
  shows "EncodeObjectKey (withSlash p) 0 < EncodeObjectKey (PrefixEnd (withSlash p)) 0"
  using prefix_range[OF assms wf_withSlash[OF assms], of 0] by simp

lemma borders_parity:
  assumes "\<forall>p \<in> set ps. wf_key p" "wf_key k"
  shows "odd (length (filter (\<lambda>y. y \<le> EncodeObjectKey k r)
       (concat (map (\<lambda>p. [EncodeObjectKey (withSlash p) 0, EncodeObjectKey (PrefixEnd (withSlash p)) 0]) ps))))
    \<longleftrightarrow> odd (length (filter (\<lambda>p. prefix (withSlash p) k) ps))"
  using assms(1)
proof (induction ps)
  case (Cons p ps)
  have "(EncodeObjectKey (withSlash p) 0 \<le> EncodeObjectKey k r) \<noteq> (EncodeObjectKey (PrefixEnd (withSlash p)) 0 \<le> EncodeObjectKey k r)
      \<longleftrightarrow> prefix (withSlash p) k"
    using prefix_range[of p k r] prefix_range_ordered[of p] Cons.prems assms(2) by fastforce
  then show ?case using Cons by auto
qed simp

lemma covered_iff_odd:
  assumes "\<forall>p \<in> set (Prefix c # SkippedPrefixes c). wf_key p" "wf_key k"
  shows "(\<exists>(a, b) \<in> set (rangesOf (getCompactBorders c)). a \<le> EncodeObjectKey k r \<and> EncodeObjectKey k r < b)
    \<longleftrightarrow> odd (length (filter (\<lambda>p. prefix (withSlash p) k) (Prefix c # SkippedPrefixes c)))"
proof -
  have "even (length (getCompactBorders c))" using length_getCompactBorders[of c] by simp
  moreover have "sorted (getCompactBorders c)" unfolding getCompactBorders_def by (rule sorted_sort)
  ultimately show ?thesis using ranges_parity[of "getCompactBorders c" "EncodeObjectKey k r"] borders_parity[OF assms, of r]
    unfolding getCompactBorders_def length_filter_sort by blast
qed

section \<open>Validated prefixes\<close>

text \<open>What validation gives: no prefix ends with a slash, and the skipped ones have the prefix of the cluster as a prefix.\<close>

lemma skippedErr_None: "skippedErr pre ps = None \<longleftrightarrow> (\<forall>p \<in> set ps. prefix pre p \<and> \<not> suffix slash p)"
  by (induction ps) auto

lemma option_Validate_None:
  assumes "option_Validate f opt = (None, opt')"
  shows "\<not> suffix slash (o_Prefix opt)" "\<forall>p \<in> set (o_SkippedPrefixes opt). prefix (o_Prefix opt) p \<and> \<not> suffix slash p"
    "storage_validate (storageConf opt) = None"
  using assms by (auto simp: option_Validate_def Let_def skippedErr_None[symmetric] split: prod.splits option.splits if_splits)

lemma slash_byte: "slash = [47]"
  by (simp add: slash_def bytes_of_string_def)

lemma length_filter_unique:
  assumes "distinct xs" "\<And>x y. x \<in> set xs \<Longrightarrow> y \<in> set xs \<Longrightarrow> P x \<Longrightarrow> P y \<Longrightarrow> x = y"
  shows "length (filter P xs) = of_bool (\<exists>x \<in> set xs. P x)"
  using assms
proof (induction xs)
  case (Cons x xs)
  then show ?case by (cases "P x") (auto simp: filter_empty_conv)
qed simp

text \<open>
  With validated options whose skipped prefixes lie below the prefix, each below no other one, compaction goes over exactly the
  keys it should.
\<close>

lemma validated_options_compaction:
  assumes "option_Validate f opt = (None, opt')" "runConfig host opt' = Inr c"
    and "\<forall>p \<in> set (o_Prefix opt # o_SkippedPrefixes opt). wf_key p" "wf_key k" "distinct (o_SkippedPrefixes opt)"
    and below: "\<forall>p \<in> set (o_SkippedPrefixes opt). prefix (o_Prefix opt @ slash) p"
    and apart: "\<forall>p \<in> set (o_SkippedPrefixes opt). \<forall>q \<in> set (o_SkippedPrefixes opt). \<not> prefix (p @ slash) q"
  shows "(\<exists>(a, b) \<in> set (rangesOf (getCompactBorders c)). a \<le> EncodeObjectKey k r \<and> EncodeObjectKey k r < b)
    \<longleftrightarrow> prefix (o_Prefix opt @ slash) k \<and> \<not> (\<exists>p \<in> set (o_SkippedPrefixes opt). prefix (p @ slash) k)"
proof -
  let ?P = "o_Prefix opt" and ?S = "o_SkippedPrefixes opt"
  let ?in = "\<lambda>p. prefix (p @ slash) k"
  have opt': "o_Prefix opt' = ?P" "o_SkippedPrefixes opt' = ?S"
    using assms(1) by (auto simp: option_Validate_def Let_def split: prod.splits option.splits if_splits)
  have c: "Prefix c = ?P" "SkippedPrefixes c = ?S" using assms(2) opt' by (auto simp: runConfig_def split: if_splits)
  have ws: "withSlash p = p @ slash" if "p \<in> set (?P # ?S)" for p
    using that option_Validate_None(1,2)[OF assms(1)] by (auto simp: withSlash_def slash_def)
  have eq: "filter (\<lambda>p. prefix (withSlash p) k) (?P # ?S) = filter ?in (?P # ?S)"
    by (rule filter_cong) (simp_all add: ws)
  have up: "?in ?P" if "p \<in> set ?S" "?in p" for p using below that by (metis prefix_order.trans prefixI)
  have same: "p = q" if "p \<in> set ?S" "q \<in> set ?S" "?in p" "?in q" for p q
    using that apart prefix_same_cases[OF that(3,4)] by (auto simp: slash_byte)
  have one: "length (filter ?in ?S) = of_bool (\<exists>p \<in> set ?S. ?in p)"
    by (rule length_filter_unique[OF assms(5)]) (rule same)
  have "odd (length (filter ?in (?P # ?S))) \<longleftrightarrow> ?in ?P \<and> \<not> (\<exists>p \<in> set ?S. ?in p)"
    using one up by auto
  then show ?thesis using covered_iff_odd[of c k r] assms(3,4) unfolding c eq by blast
qed

text \<open>
  Validation does not ask for that much. A skipped prefix below another skipped one is accepted, and its keys are compacted; so is a
  skipped prefix that only has the prefix as a string prefix, and its keys, outside the prefix of the cluster, are compacted too.
\<close>

definition prefixes_config :: "string \<Rightarrow> string list \<Rightarrow> Config" where
  "prefixes_config p ps = \<lparr>EnableEtcdCompatibility = False, Prefix = bytes_of_string p, Identity = bytes_of_string ''10.0.0.1:2380'',
     SkippedPrefixes = map bytes_of_string ps, WatchCacheSize = 200000\<rparr>"

lemmas prefixes_eval = prefixes_config_def bytes_of_string_def withSlash_def suffix_def wf_key_def splitByte_def

lemma nested_skipped_compacted:
  fixes c defines "c \<equiv> prefixes_config ''/a'' [''/a/b'', ''/a/b/c'']"
  shows "skippedErr (Prefix c) (SkippedPrefixes c) = None"
    "\<exists>(a, b) \<in> set (rangesOf (getCompactBorders c)).
       a \<le> EncodeObjectKey (bytes_of_string ''/a/b/c/d'') r \<and> EncodeObjectKey (bytes_of_string ''/a/b/c/d'') r < b"
  unfolding c_def by (simp add: prefixes_eval skippedErr_None slash_byte)
    (subst covered_iff_odd, simp_all add: prefixes_eval)

lemma sibling_skipped_compacted:
  fixes c defines "c \<equiv> prefixes_config ''/a'' [''/ab'']"
  shows "skippedErr (Prefix c) (SkippedPrefixes c) = None"
    "\<exists>(a, b) \<in> set (rangesOf (getCompactBorders c)).
       a \<le> EncodeObjectKey (bytes_of_string ''/ab/d'') r \<and> EncodeObjectKey (bytes_of_string ''/ab/d'') r < b"
  unfolding c_def by (simp add: prefixes_eval skippedErr_None slash_byte)
    (subst covered_iff_odd, simp_all add: prefixes_eval)

section \<open>Properties\<close>

text \<open>
  C20: which keys a compaction goes over. The loop scans exactly the ranges between the first and second, third and fourth, ... of
  the sorted borders; a key is in one of them if and only if it is below an odd number of the prefixes given, the prefix of the
  cluster and the skipped ones. So with skipped prefixes that lie below the prefix and not below each other, these are exactly the keys
  below the prefix and below no skipped one.
\<close>

theorem compaction_covers_odd:
  assumes "\<forall>p \<in> set (Prefix c # SkippedPrefixes c). wf_key p" "wf_key k"
  shows "compactRanges kv conf ctx revision (getCompactBorders c) st =
      overRanges (\<lambda>n a b. scanner_Compact kv conf (ctx n) a b revision) (rangesOf (getCompactBorders c)) st
    \<and> ((\<exists>(a, b) \<in> set (rangesOf (getCompactBorders c)). a \<le> EncodeObjectKey k r \<and> EncodeObjectKey k r < b)
       \<longleftrightarrow> odd (length (filter (\<lambda>p. prefix (withSlash p) k) (Prefix c # SkippedPrefixes c))))"
  using compactRanges_ranges[of "getCompactBorders c"] length_getCompactBorders[of c] covered_iff_odd[OF assms, of r] by simp

theorem compaction_covers_odd_witness:
  "(\<exists>(a, b) \<in> set (rangesOf (getCompactBorders (prefixes_config ''/a'' [''/a/b'']))).
      a \<le> EncodeObjectKey (bytes_of_string ''/a/c'') 7 \<and> EncodeObjectKey (bytes_of_string ''/a/c'') 7 < b)
    \<and> \<not> (\<exists>(a, b) \<in> set (rangesOf (getCompactBorders (prefixes_config ''/a'' [''/a/b'']))).
      a \<le> EncodeObjectKey (bytes_of_string ''/a/b/c'') 7 \<and> EncodeObjectKey (bytes_of_string ''/a/b/c'') 7 < b)"
proof (rule conjI, goal_cases)
  case 1
  show ?case
    by (subst compaction_covers_odd[where k = "bytes_of_string ''/a/c''", THEN conjunct2]) (simp_all add: prefixes_eval)
next
  case 2
  show ?case
    by (subst compaction_covers_odd[where k = "bytes_of_string ''/a/b/c''", THEN conjunct2]) (simp_all add: prefixes_eval)
qed

end
