(* ===== verification/Prometheus.thy ===== *)
theory Prometheus
  imports StorageMetrics "HOL-Library.Char_ord"
begin

text \<open>
  \<^verbatim>\<open>pkg/metrics/metrics.go\<close> and \<^verbatim>\<open>pkg/metrics/prometheus/prometheus.go\<close>: the metrics client of the program. The Prometheus library
  (\<^verbatim>\<open>client_golang\<close>) is a parameter, the record of the calls the client makes; \<open>prom_spec\<close> states when they panic. A metric that panics takes
  the process down, so the property is that none does: the vector of a metric is made on first use, with the labels of that use, and
  every later use has to fit it.
\<close>

section \<open>The library\<close>

text \<open>
  A vector of metrics: its kind, full name and label names. \<open>pl_MustRegister\<close> registers it, \<open>pl_Emit\<close> is \<^verbatim>\<open>With\<close> of a label map,
  followed by \<^verbatim>\<open>Add\<close>, \<^verbatim>\<open>Set\<close> or \<^verbatim>\<open>Observe\<close>; \<open>None\<close> is a panic. The type \<open>'f\<close> stands for \<^verbatim>\<open>float64\<close>.
\<close>

record vec =
  v_kind :: metricKind
  v_name :: string
  v_labels :: "string list"

record ('r, 'f) promlib =
  pl_MustRegister :: "vec \<Rightarrow> 'r \<Rightarrow> 'r option"
  pl_Emit :: "vec \<Rightarrow> (string \<rightharpoonup> string) \<Rightarrow> 'f \<Rightarrow> 'r \<Rightarrow> 'r option"

section \<open>The client\<close>

type_synonym tag = "string \<times> string"

record prometheusWrapper =
  globalLabelNames :: "string list"
  globalLabels :: "tag list"
  counterVecMap :: "string \<rightharpoonup> vec"
  gaugeVecMap :: "string \<rightharpoonup> vec"
  histogramVecMap :: "string \<rightharpoonup> vec"

text \<open>A value as it is passed, by its dynamic type: an integer of any width, a float, a string, a bool, or something else.\<close>

datatype 'f metricValue = IntVal int | FloatVal 'f | StringVal string | BoolVal bool | OtherVal

text \<open>Conversion of integers and \<^verbatim>\<open>strconv.ParseFloat\<close>.\<close>

record 'f floats =
  ofInteger :: "int \<Rightarrow> 'f"
  ParseFloat :: "string \<Rightarrow> 'f option"

definition castErr :: error where
  "castErr = OtherErr ''unable to cast %#v of type %T to float64''"

fun convert2float64 :: "'f floats \<Rightarrow> 'f metricValue \<Rightarrow> 'f \<times> error option" where
  "convert2float64 fl (IntVal i) = (ofInteger fl i, None)"
| "convert2float64 fl (FloatVal x) = (x, None)"
| "convert2float64 fl (StringVal s) =
     (case ParseFloat fl s of Some v \<Rightarrow> (v, None) | None \<Rightarrow> (ofInteger fl 0, Some castErr))"
| "convert2float64 fl (BoolVal b) = (ofInteger fl (if b then 1 else 0), None)"
| "convert2float64 fl OtherVal = (ofInteger fl 0, Some castErr)"

definition labelsToMap :: "prometheusWrapper \<Rightarrow> tag list \<Rightarrow> string \<rightharpoonup> string" where
  "labelsToMap pw labels = fold (\<lambda>(name, val) m. m(name \<mapsto> val)) labels (fold (\<lambda>(name, val) m. m(name \<mapsto> val)) (globalLabels pw) Map.empty)"

definition extractLabelNames :: "prometheusWrapper \<Rightarrow> tag list \<Rightarrow> string list" where
  "extractLabelNames pw labels = globalLabelNames pw @ map fst labels"

definition formatName :: "string \<Rightarrow> string" where
  "formatName name = map (\<lambda>c. if c = CHR ''.'' then CHR ''_'' else c) name"

definition NewMetrics :: "tag list \<Rightarrow> prometheusWrapper" where
  "NewMetrics labels =
     (let pw = \<lparr>globalLabelNames = [], globalLabels = labels, counterVecMap = Map.empty, gaugeVecMap = Map.empty, histogramVecMap = Map.empty\<rparr>
      in pw\<lparr>globalLabelNames := extractLabelNames pw labels\<rparr>)"

text \<open>The vectors, made and registered on first use; the locks make each of these one step.\<close>

definition mustGetCounterVec ::
    "('r, 'f) promlib \<Rightarrow> string \<Rightarrow> tag list \<Rightarrow> prometheusWrapper \<Rightarrow> 'r \<Rightarrow> (vec \<times> prometheusWrapper \<times> 'r) option" where
  "mustGetCounterVec pl name labels pw r =
     (case counterVecMap pw name of
        Some vec \<Rightarrow> Some (vec, pw, r)
      | None \<Rightarrow>
          let vec = \<lparr>v_kind = CounterKind, v_name = formatName name, v_labels = extractLabelNames pw labels\<rparr>
          in map_option (\<lambda>r'. (vec, pw\<lparr>counterVecMap := (counterVecMap pw)(name \<mapsto> vec)\<rparr>, r')) (pl_MustRegister pl vec r))"

definition mustGetGaugeVec ::
    "('r, 'f) promlib \<Rightarrow> string \<Rightarrow> tag list \<Rightarrow> prometheusWrapper \<Rightarrow> 'r \<Rightarrow> (vec \<times> prometheusWrapper \<times> 'r) option" where
  "mustGetGaugeVec pl name labels pw r =
     (case gaugeVecMap pw name of
        Some vec \<Rightarrow> Some (vec, pw, r)
      | None \<Rightarrow>
          let vec = \<lparr>v_kind = GaugeKind, v_name = formatName name, v_labels = extractLabelNames pw labels\<rparr>
          in map_option (\<lambda>r'. (vec, pw\<lparr>gaugeVecMap := (gaugeVecMap pw)(name \<mapsto> vec)\<rparr>, r')) (pl_MustRegister pl vec r))"

definition mustGetHistogramVec ::
    "('r, 'f) promlib \<Rightarrow> string \<Rightarrow> tag list \<Rightarrow> prometheusWrapper \<Rightarrow> 'r \<Rightarrow> (vec \<times> prometheusWrapper \<times> 'r) option" where
  "mustGetHistogramVec pl name labels pw r =
     (case histogramVecMap pw name of
        Some vec \<Rightarrow> Some (vec, pw, r)
      | None \<Rightarrow>
          let vec = \<lparr>v_kind = HistogramKind, v_name = formatName name, v_labels = extractLabelNames pw labels\<rparr>
          in map_option (\<lambda>r'. (vec, pw\<lparr>histogramVecMap := (histogramVecMap pw)(name \<mapsto> vec)\<rparr>, r')) (pl_MustRegister pl vec r))"

definition EmitCounter ::
    "('r, 'f) promlib \<Rightarrow> 'f floats \<Rightarrow> string \<Rightarrow> 'f metricValue \<Rightarrow> tag list \<Rightarrow> prometheusWrapper \<times> 'r \<Rightarrow> (prometheusWrapper \<times> 'r) option" where
  "EmitCounter pl fl name val labels st =
     (let flt = fst (convert2float64 fl val) in
      case mustGetCounterVec pl name labels (fst st) (snd st) of
        None \<Rightarrow> None
      | Some (vec, pw, r) \<Rightarrow> map_option (Pair pw) (pl_Emit pl vec (labelsToMap pw labels) flt r))"

definition EmitGauge ::
    "('r, 'f) promlib \<Rightarrow> 'f floats \<Rightarrow> string \<Rightarrow> 'f metricValue \<Rightarrow> tag list \<Rightarrow> prometheusWrapper \<times> 'r \<Rightarrow> (prometheusWrapper \<times> 'r) option" where
  "EmitGauge pl fl name val labels st =
     (let flt = fst (convert2float64 fl val) in
      case mustGetGaugeVec pl name labels (fst st) (snd st) of
        None \<Rightarrow> None
      | Some (vec, pw, r) \<Rightarrow> map_option (Pair pw) (pl_Emit pl vec (labelsToMap pw labels) flt r))"

definition EmitHistogram ::
    "('r, 'f) promlib \<Rightarrow> 'f floats \<Rightarrow> string \<Rightarrow> 'f metricValue \<Rightarrow> tag list \<Rightarrow> prometheusWrapper \<times> 'r \<Rightarrow> (prometheusWrapper \<times> 'r) option" where
  "EmitHistogram pl fl name val labels st =
     (let flt = fst (convert2float64 fl val) in
      case mustGetHistogramVec pl name labels (fst st) (snd st) of
        None \<Rightarrow> None
      | Some (vec, pw, r) \<Rightarrow> map_option (Pair pw) (pl_Emit pl vec (labelsToMap pw labels) flt r))"

section \<open>Emissions\<close>

text \<open>An emission: the kind of the call, name, value and tags.\<close>

type_synonym 'f emission = "metricKind \<times> string \<times> 'f metricValue \<times> tag list"

fun emitOne :: "('r, 'f) promlib \<Rightarrow> 'f floats \<Rightarrow> 'f emission \<Rightarrow> prometheusWrapper \<times> 'r \<Rightarrow> (prometheusWrapper \<times> 'r) option" where
  "emitOne pl fl (CounterKind, name, val, labels) st = EmitCounter pl fl name val labels st"
| "emitOne pl fl (GaugeKind, name, val, labels) st = EmitGauge pl fl name val labels st"
| "emitOne pl fl (HistogramKind, name, val, labels) st = EmitHistogram pl fl name val labels st"

fun emitAll :: "('r, 'f) promlib \<Rightarrow> 'f floats \<Rightarrow> 'f emission list \<Rightarrow> prometheusWrapper \<times> 'r \<Rightarrow> (prometheusWrapper \<times> 'r) option" where
  "emitAll pl fl [] st = Some st"
| "emitAll pl fl (e # es) st = (case emitOne pl fl e st of None \<Rightarrow> None | Some st1 \<Rightarrow> emitAll pl fl es st1)"

text \<open>The three kinds at once: the vectors of a kind, and an emission in terms of them.\<close>

fun vecMap :: "metricKind \<Rightarrow> prometheusWrapper \<Rightarrow> string \<rightharpoonup> vec" where
  "vecMap CounterKind pw = counterVecMap pw"
| "vecMap GaugeKind pw = gaugeVecMap pw"
| "vecMap HistogramKind pw = histogramVecMap pw"

fun addVec :: "metricKind \<Rightarrow> string \<Rightarrow> vec \<Rightarrow> prometheusWrapper \<Rightarrow> prometheusWrapper" where
  "addVec CounterKind n v pw = pw\<lparr>counterVecMap := (counterVecMap pw)(n \<mapsto> v)\<rparr>"
| "addVec GaugeKind n v pw = pw\<lparr>gaugeVecMap := (gaugeVecMap pw)(n \<mapsto> v)\<rparr>"
| "addVec HistogramKind n v pw = pw\<lparr>histogramVecMap := (histogramVecMap pw)(n \<mapsto> v)\<rparr>"

lemma vecMap_addVec [simp]: "vecMap k (addVec k' n v pw) = (if k = k' then (vecMap k pw)(n \<mapsto> v) else vecMap k pw)"
  by (cases k; cases k') auto

lemma globals_addVec [simp]:
  "globalLabels (addVec k n v pw) = globalLabels pw" "globalLabelNames (addVec k n v pw) = globalLabelNames pw"
  by (cases k; simp)+

lemma labelsToMap_addVec [simp]: "labelsToMap (addVec k n v pw) labels = labelsToMap pw labels"
  by (simp add: labelsToMap_def)

lemma emitOne_known:
  assumes "vecMap k pw n = Some v"
  shows "emitOne pl fl (k, n, val, labels) (pw, r) = map_option (Pair pw) (pl_Emit pl v (labelsToMap pw labels) (fst (convert2float64 fl val)) r)"
  using assms by (cases k) (simp_all add: EmitCounter_def EmitGauge_def EmitHistogram_def mustGetCounterVec_def mustGetGaugeVec_def
      mustGetHistogramVec_def)

lemma emitOne_new:
  assumes "vecMap k pw n = None"
    and "pl_MustRegister pl \<lparr>v_kind = k, v_name = formatName n, v_labels = extractLabelNames pw labels\<rparr> r = Some r1"
  shows "emitOne pl fl (k, n, val, labels) (pw, r) =
    emitOne pl fl (k, n, val, labels) (addVec k n \<lparr>v_kind = k, v_name = formatName n, v_labels = extractLabelNames pw labels\<rparr> pw, r1)"
  using assms by (cases k) (simp_all add: EmitCounter_def EmitGauge_def EmitHistogram_def mustGetCounterVec_def mustGetGaugeVec_def
      mustGetHistogramVec_def labelsToMap_def Let_def)

lemma dom_labels: "dom (fold (\<lambda>(name, val) m. m(name \<mapsto> val)) labels m) = fst ` set labels \<union> dom m"
  by (induction labels arbitrary: m) auto

lemma ran_labels: "ran (fold (\<lambda>(name, val) m. m(name \<mapsto> val)) labels m) \<subseteq> snd ` set labels \<union> ran m"
proof (induction labels arbitrary: m)
  case (Cons l labels)
  obtain name val where l: "l = (name, val)" by fastforce
  have "ran (m(name \<mapsto> val)) \<subseteq> insert val (ran m)" by (auto simp: ran_def)
  then show ?case using Cons[of "m(name \<mapsto> val)"] by (auto simp: l simp del: fun_upd_apply)
qed simp

lemma labelsToMap_names: "dom (labelsToMap pw labels) = fst ` set (globalLabels pw @ labels)"
  by (auto simp: labelsToMap_def dom_labels)

lemma labelsToMap_values: "ran (labelsToMap pw labels) \<subseteq> snd ` set (globalLabels pw @ labels)"
  using ran_labels[of labels] ran_labels[of "globalLabels pw" Map.empty] by (fastforce simp: labelsToMap_def)

section \<open>What the library promises\<close>

text \<open>
  Names of metrics and labels as the data model of Prometheus wants them; a histogram keeps the label \<^verbatim>\<open>le\<close> for itself. A vector is
  registered if its name is new and its names are valid and distinct; registering a name again panics. Using a registered vector
  panics if the labels given are not exactly its labels, if a value is not legal (not UTF-8), and if a counter would go down.
\<close>

definition between :: "char \<Rightarrow> char \<Rightarrow> char \<Rightarrow> bool" where
  "between lo hi c \<longleftrightarrow> lo \<le> c \<and> c \<le> hi"

definition letter :: "char \<Rightarrow> bool" where
  "letter c \<longleftrightarrow> between (CHR ''a'') (CHR ''z'') c \<or> between (CHR ''A'') (CHR ''Z'') c \<or> c = CHR ''_''"

definition digitChar :: "char \<Rightarrow> bool" where
  "digitChar = between (CHR ''0'') (CHR ''9'')"

fun validName :: "string \<Rightarrow> bool" where
  "validName [] \<longleftrightarrow> False"
| "validName (c # cs) \<longleftrightarrow> (letter c \<or> c = CHR '':'') \<and> list_all (\<lambda>c. letter c \<or> c = CHR '':'' \<or> digitChar c) cs"

fun validLabel :: "metricKind \<Rightarrow> string \<Rightarrow> bool" where
  "validLabel k [] \<longleftrightarrow> False"
| "validLabel k (c # cs) \<longleftrightarrow> letter c \<and> list_all (\<lambda>c. letter c \<or> digitChar c) cs \<and> take 2 (c # cs) \<noteq> ''__'' \<and> (k = HistogramKind \<longrightarrow> c # cs \<noteq> ''le'')"

locale prom_spec =
  fixes pl :: "('r, 'f) promlib" and registered :: "'r \<Rightarrow> string \<rightharpoonup> vec"
    and recorded :: "'r \<Rightarrow> (string \<times> (string \<rightharpoonup> string) \<times> 'f) list"
    and legalValue :: "string \<Rightarrow> bool" and nonneg :: "'f \<Rightarrow> bool"
  assumes register_new: "\<lbrakk>registered r (v_name v) = None; validName (v_name v); distinct (v_labels v);
      \<forall>l \<in> set (v_labels v). validLabel (v_kind v) l\<rbrakk> \<Longrightarrow>
      \<exists>r'. pl_MustRegister pl v r = Some r' \<and> registered r' = (registered r)(v_name v \<mapsto> v) \<and> recorded r' = recorded r"
    and register_again: "registered r (v_name v) \<noteq> None \<Longrightarrow> pl_MustRegister pl v r = None"
    and emit_fits: "\<lbrakk>registered r (v_name v) = Some v; dom m = set (v_labels v); \<forall>x \<in> ran m. legalValue x;
      v_kind v = CounterKind \<longrightarrow> nonneg x\<rbrakk> \<Longrightarrow>
      \<exists>r'. pl_Emit pl v m x r = Some r' \<and> registered r' = registered r \<and> recorded r' = recorded r @ [(v_name v, m, x)]"
    and emit_misfit: "dom m \<noteq> set (v_labels v) \<Longrightarrow> pl_Emit pl v m x r = None"
begin

text \<open>
  A schema says which kind and labels each metric has. While it is kept, the client has a vector for a name exactly if the
  registry has one, and it is the one of the schema.
\<close>

definition schema_ok :: "tag list \<Rightarrow> (string \<rightharpoonup> metricKind \<times> string list) \<Rightarrow> bool" where
  "schema_ok gs sch \<longleftrightarrow> inj_on formatName (dom sch) \<and> (\<forall>n k ls. sch n = Some (k, ls) \<longrightarrow>
     validName (formatName n) \<and> distinct (map fst gs @ ls) \<and> (\<forall>l \<in> set (map fst gs @ ls). validLabel k l))"

definition pinv :: "tag list \<Rightarrow> (string \<rightharpoonup> metricKind \<times> string list) \<Rightarrow> prometheusWrapper \<times> 'r \<Rightarrow> bool" where
  "pinv gs sch st \<longleftrightarrow> globalLabels (fst st) = gs \<and> globalLabelNames (fst st) = map fst gs
     \<and> (\<forall>n k ls. sch n = Some (k, ls) \<longrightarrow> registered (snd st) (formatName n) = vecMap k (fst st) n
          \<and> (\<forall>v. vecMap k (fst st) n = Some v \<longrightarrow> v = \<lparr>v_kind = k, v_name = formatName n, v_labels = map fst gs @ ls\<rparr>))"

definition keeps :: "(string \<rightharpoonup> metricKind \<times> string list) \<Rightarrow> 'f floats \<Rightarrow> 'f emission \<Rightarrow> bool" where
  "keeps sch fl e \<longleftrightarrow> (case e of (k, n, val, labels) \<Rightarrow> sch n = Some (k, map fst labels) \<and> (\<forall>x \<in> snd ` set labels. legalValue x)
     \<and> (k = CounterKind \<longrightarrow> nonneg (fst (convert2float64 fl val))))"

lemma pinv_register:
  assumes ok: "schema_ok gs sch" and inv: "pinv gs sch (pw, r)" and n: "sch n = Some (k, map fst labels)" and new: "vecMap k pw n = None"
  defines "v \<equiv> \<lparr>v_kind = k, v_name = formatName n, v_labels = extractLabelNames pw labels\<rparr>"
  shows "\<exists>r1. pl_MustRegister pl v r = Some r1 \<and> pinv gs sch (addVec k n v pw, r1) \<and> recorded r1 = recorded r"
proof -
  have l: "extractLabelNames pw labels = map fst gs @ map fst labels" using inv by (simp add: pinv_def extractLabelNames_def)
  have "registered r (formatName n) = None" using inv n new by (simp add: pinv_def)
  moreover have "validName (formatName n) \<and> distinct (v_labels v) \<and> (\<forall>l \<in> set (v_labels v). validLabel k l)"
    using ok n unfolding schema_ok_def v_def vec.select_convs l by blast
  ultimately obtain r1 where r1: "pl_MustRegister pl v r = Some r1"
      "registered r1 = (registered r)(formatName n \<mapsto> v)" "recorded r1 = recorded r"
    using register_new[of r v] by (auto simp: v_def)
  have "formatName n' \<noteq> formatName n" if "n' \<noteq> n" "sch n' = Some x" for n' x
    using that n ok unfolding schema_ok_def by (metis domI inj_onD)
  then have "pinv gs sch (addVec k n v pw, r1)" using inv r1(2) n unfolding pinv_def by (auto simp: v_def l)
  then show ?thesis using r1 by blast
qed

lemma emitOne_keeps:
  assumes ok: "schema_ok gs sch" and vals: "\<forall>x \<in> snd ` set gs. legalValue x"
    and inv: "pinv gs sch st" and e: "keeps sch fl (k, n, val, labels)"
  shows "\<exists>st'. emitOne pl fl (k, n, val, labels) st = Some st' \<and> pinv gs sch st'
    \<and> recorded (snd st') = recorded (snd st) @ [(formatName n, labelsToMap (fst st) labels, fst (convert2float64 fl val))]"
proof -
  obtain pw r where st: "st = (pw, r)" by fastforce
  have n: "sch n = Some (k, map fst labels)" using e by (simp add: keeps_def)
  have known: "\<exists>st'. emitOne pl fl (k, n, val, labels) (pw1, r1) = Some st' \<and> pinv gs sch st'
      \<and> recorded (snd st') = recorded r1 @ [(formatName n, labelsToMap pw1 labels, fst (convert2float64 fl val))]"
    if inv1: "pinv gs sch (pw1, r1)" and v: "vecMap k pw1 n = Some v" for pw1 r1 v
  proof -
    have eq: "v = \<lparr>v_kind = k, v_name = formatName n, v_labels = map fst gs @ map fst labels\<rparr>" "registered r1 (formatName n) = Some v"
      using inv1 n v by (auto simp: pinv_def)
    have g: "globalLabels pw1 = gs" using inv1 by (simp add: pinv_def)
    have "\<forall>x \<in> ran (labelsToMap pw1 labels). legalValue x"
      using labelsToMap_values[of pw1 labels] vals e unfolding g by (fastforce simp: keeps_def)
    moreover have "dom (labelsToMap pw1 labels) = set (v_labels v)" by (simp add: labelsToMap_names g eq(1) image_Un)
    ultimately obtain r2 where "pl_Emit pl v (labelsToMap pw1 labels) (fst (convert2float64 fl val)) r1 = Some r2"
        "registered r2 = registered r1" "recorded r2 = recorded r1 @ [(formatName n, labelsToMap pw1 labels, fst (convert2float64 fl val))]"
      using emit_fits[of r1 v "labelsToMap pw1 labels" "fst (convert2float64 fl val)"] eq e by (auto simp: keeps_def)
    then show ?thesis using inv1 by (simp add: emitOne_known[OF v] pinv_def)
  qed
  show ?thesis
  proof (cases "vecMap k pw n")
    case None
    from pinv_register[OF ok inv[unfolded st] n None] obtain r1 where
      r1: "pl_MustRegister pl \<lparr>v_kind = k, v_name = formatName n, v_labels = extractLabelNames pw labels\<rparr> r = Some r1"
        "pinv gs sch (addVec k n \<lparr>v_kind = k, v_name = formatName n, v_labels = extractLabelNames pw labels\<rparr> pw, r1)" "recorded r1 = recorded r"
      by blast
    from known[OF r1(2)] show ?thesis unfolding st emitOne_new[OF None r1(1)] by (simp add: r1(3))
  next
    case (Some v)
    then show ?thesis using known inv unfolding st by simp
  qed
qed

lemma labelsToMap_globals: "globalLabels pw = globalLabels pw' \<Longrightarrow> labelsToMap pw labels = labelsToMap pw' labels"
  by (simp add: labelsToMap_def)

lemma emitAll_keeps:
  assumes "schema_ok gs sch" "\<forall>x \<in> snd ` set gs. legalValue x" "pinv gs sch st" "\<forall>e \<in> set es. keeps sch fl e"
  shows "\<exists>st'. emitAll pl fl es st = Some st' \<and> recorded (snd st') = recorded (snd st)
    @ map (\<lambda>(k, n, val, labels). (formatName n, labelsToMap (fst st) labels, fst (convert2float64 fl val))) es"
  using assms(3,4)
proof (induction es arbitrary: st)
  case (Cons e es)
  obtain k n val labels where e: "e = (k, n, val, labels)" by (cases e)
  from emitOne_keeps[OF assms(1,2) Cons.prems(1)] Cons.prems(2) obtain st1 where
    st1: "emitOne pl fl e st = Some st1" "pinv gs sch st1"
      "recorded (snd st1) = recorded (snd st) @ [(formatName n, labelsToMap (fst st) labels, fst (convert2float64 fl val))]"
    unfolding e by (meson list.set_intros(1))
  have "labelsToMap (fst st1) ls = labelsToMap (fst st) ls" for ls
    using st1(2) Cons.prems(1) by (intro labelsToMap_globals) (simp add: pinv_def)
  then show ?case using Cons.IH[OF st1(2)] Cons.prems(2) st1(1,3) by (auto simp: e)
qed simp

end

section \<open>The metrics of the program\<close>

text \<open>
  The name, kind and labels of every metric the program emits, as they are at the calls of \<^verbatim>\<open>EmitCounter\<close>, \<^verbatim>\<open>EmitGauge\<close> and
  \<^verbatim>\<open>EmitHistogram\<close> in the packages; \<open>brainMetrics\<close> are those of \<^verbatim>\<open>emitMethodMetric\<close> and \<^verbatim>\<open>emitResponseDetailMetric\<close>.
\<close>

definition emitMethodMetric :: "string \<Rightarrow> string \<Rightarrow> error option \<Rightarrow> 'f \<Rightarrow> 'f emission list" where
  "emitMethodMetric metricName method err latency =
     (let methodTag = (''method'', method); successTag = (''err'', if err \<noteq> None then ''true'' else ''false'') in
      [(CounterKind, metricName, IntVal 1, [methodTag, successTag]),
       (HistogramKind, metricName @ ''.latency'', FloatVal latency, [methodTag, successTag])])"

definition emitResponseDetailMetric :: "string \<Rightarrow> string \<Rightarrow> bool \<Rightarrow> int \<Rightarrow> 'f emission list" where
  "emitResponseDetailMetric metricName method success responseSize =
     (let methodTag = (''method'', method) in
      (if \<not> success then [(CounterKind, metricName @ ''.fail'', IntVal 1, [methodTag])] else [])
      @ [(HistogramKind, metricName @ ''.responsesize'', IntVal responseSize, [methodTag])])"

definition brainMetrics :: "string \<Rightarrow> (string \<times> metricKind \<times> string list) list" where
  "brainMetrics n =
     [(n, CounterKind, [''method'', ''err'']), (n @ ''.latency'', HistogramKind, [''method'', ''err'']),
      (n @ ''.fail'', CounterKind, [''method'']), (n @ ''.responsesize'', HistogramKind, [''method''])]"

definition serverMetrics :: "(string \<times> metricKind \<times> string list) list" where
  "serverMetrics =
     [(''lease.grant'', CounterKind, []), (''lease.revoke'', CounterKind, []), (''lease.keepalive'', CounterKind, []),
      (''lease.ttl'', CounterKind, []), (''lease.leases'', CounterKind, []), (''member.list'', CounterKind, []),
      (''read'', CounterKind, [''method'', ''success'']), (''read.latency'', HistogramKind, [''method'', ''success'']),
      (''read.responsesize'', HistogramKind, [''method'', ''success'']),
      (''write.follower'', CounterKind, []), (''write'', CounterKind, [''method'', ''success'']),
      (''write.latency'', HistogramKind, [''method'', ''success'']), (''write.responsesize'', HistogramKind, [''method'', ''success'']),
      (''write.fail'', CounterKind, [''method'']),
      (''watcher.receive.cancel'', CounterKind, []), (''watch.follower'', CounterKind, []), (''watch.client.cancel'', CounterKind, []),
      (''watch.request.progress'', CounterKind, []), (''watch.request.unsupported'', CounterKind, []), (''watch.watch_id'', GaugeKind, []),
      (''watch.range'', CounterKind, []), (''watch.watch'', CounterKind, []), (''watch.cancel'', CounterKind, [''compact'']),
      (''watch.close'', CounterKind, []), (''watch.backend.list_stream.err'', CounterKind, []), (''watch.list_stream.eof'', CounterKind, []),
      (''watch.list_stream.latency'', HistogramKind, []), (''watch.list_stream.push'', CounterKind, []),
      (''watch.list_stream.push.size'', HistogramKind, []), (''watch.list_stream.push.err'', CounterKind, []),
      (''invalid.watch.key'', CounterKind, []), (''watch.backend.err'', CounterKind, []), (''watch.watch_stream.push'', GaugeKind, []),
      (''watch.watch_stream.push.size'', HistogramKind, []), (''watch.watch_stream.push.err'', CounterKind, []),
      (''read.follower'', CounterKind, []), (''read.follower.revision_err'', CounterKind, []), (''follower.getleader'', GaugeKind, [''leader'']),
      (''member.round_trip'', HistogramKind, [''leader'']), (''follower.get.revision.err'', CounterKind, [''leader'']),
      (''follower.get.revision.failed'', CounterKind, [''leader'']), (''follower.get.revision'', GaugeKind, [''leader'']),
      (''leader.election.success'', CounterKind, []), (''leader.election.initial.version'', GaugeKind, [''addr'']),
      (''leader.election.lost'', CounterKind, [''addr'']), (''brain.write.follower'', CounterKind, []),
      (''brain.server.write.follower'', CounterKind, []), (''brain.watch.follower'', CounterKind, []), (''brain.watch.event'', CounterKind, []),
      (''leader.compact'', GaugeKind, []), (''leader.compact.latency'', HistogramKind, []), (''leader.invalid'', CounterKind, []),
      (''leader.revision'', GaugeKind, [])]"

definition backendMetrics :: "(string \<times> metricKind \<times> string list) list" where
  "backendMetrics =
     [(''revision.generator.invalid'', CounterKind, []), (''revision.generator'', GaugeKind, []), (''watch.set.current.revision'', GaugeKind, []),
      (''async_retry.queue_size'', GaugeKind, []), (''async_retry.retry'', HistogramKind, [''state'', ''method'']),
      (''backend.set_compact_revision'', CounterKind, []), (''backend.set_compact_revision.err'', CounterKind, []),
      (''backend.list.by.stream.failed'', CounterKind, []), (''storage.scan_worker.latency'', HistogramKind, []),
      (''storage.scan_worker.size'', HistogramKind, []), (''storage.scan_worker.count'', HistogramKind, []),
      (''compact.skip'', CounterKind, []), (''compact'', CounterKind, []), (''compact.err'', CounterKind, []),
      (''watcherhub.events_chan.closed'', CounterKind, [''prefix'']), (''watcher_hub.add_watcher'', CounterKind, []),
      (''watcher_hub.delete_watcher'', CounterKind, []), (''drop.slow.watcher'', CounterKind, []),
      (''watch.event.buffer.invalid'', CounterKind, []), (''watch.event.buffer.full'', CounterKind, []), (''watch.revision.lag'', GaugeKind, [])]"

definition storageMetrics :: "(string \<times> metricKind \<times> string list) list" where
  "storageMetrics =
     [(''storage.op'', HistogramKind, [''state'', ''op'']), (''storage.iter.start'', CounterKind, [''state'']),
      (''storage.iter.start.success'', CounterKind, [''limited'']), (''storage.iter.fetch.error'', CounterKind, [''limited'']),
      (''storage.iter.fetch.success'', CounterKind, [''limited'']), (''storage.iter.duration.avg'', HistogramKind, [''limited'']),
      (''storage.iter.duration.sum'', HistogramKind, [''limited'']), (''storage.batch.count'', HistogramKind, [''op'', ''state'']),
      (''storage.batch.duration'', HistogramKind, [''op'', ''state''])]"

definition programMetrics :: "(string \<times> metricKind \<times> string list) list" where
  "programMetrics = storageMetrics @ backendMetrics @ serverMetrics
     @ brainMetrics ''brain.server.write'' @ brainMetrics ''brain.server.read'' @ brainMetrics ''brain.server.watch''"

text \<open>
  No two of these names become the same when formatted, no labels clash with the label \<^verbatim>\<open>cluster\<close> of all metrics, and all names are
  valid.
\<close>

lemma programMetrics_distinct: "distinct (map (formatName \<circ> fst) programMetrics)"
  by code_simp

lemma programMetrics_valid:
  "list_all (\<lambda>(n, k, ls). validName (formatName n) \<and> distinct (''cluster'' # ls) \<and> list_all (validLabel k) (''cluster'' # ls)) programMetrics"
  by code_simp

lemma NewMetrics_fresh:
  "vecMap k (NewMetrics gs) = Map.empty" "globalLabels (NewMetrics gs) = gs" "globalLabelNames (NewMetrics gs) = map fst gs"
  by (cases k; simp add: NewMetrics_def extractLabelNames_def Let_def)+

definition programSchema :: "string \<rightharpoonup> metricKind \<times> string list" where
  "programSchema = map_of programMetrics"

context prom_spec
begin

lemma programSchema_ok: "schema_ok [(''cluster'', c)] programSchema"
proof -
  have "inj_on (formatName \<circ> fst) (set programMetrics)" using programMetrics_distinct by (simp add: distinct_map)
  then have "inj_on formatName (fst ` set programMetrics)" by (auto simp: inj_on_def)
  moreover have "dom programSchema \<subseteq> fst ` set programMetrics" by (simp add: programSchema_def dom_map_of_conv_image_fst)
  moreover have "(n, k, ls) \<in> set programMetrics" if "programSchema n = Some (k, ls)" for n k ls
    using that by (simp add: programSchema_def map_of_SomeD)
  ultimately show ?thesis using programMetrics_valid unfolding schema_ok_def list_all_iff by (fastforce intro: inj_on_subset)
qed

text \<open>Whatever the program emits by its table is accepted and recorded.\<close>

lemma program_emissions:
  assumes "\<forall>n \<in> dom programSchema. registered r (formatName n) = None" "legalValue c" "\<forall>e \<in> set es. keeps programSchema fl e"
  shows "\<exists>st. emitAll pl fl es (NewMetrics [(''cluster'', c)], r) = Some st \<and> recorded (snd st) = recorded r
    @ map (\<lambda>(k, n, val, labels). (formatName n, labelsToMap (NewMetrics [(''cluster'', c)]) labels, fst (convert2float64 fl val))) es"
proof -
  have "pinv [(''cluster'', c)] programSchema (NewMetrics [(''cluster'', c)], r)"
    using assms(1) by (auto simp: pinv_def NewMetrics_fresh)
  from emitAll_keeps[OF programSchema_ok _ this assms(3)] assms(2) show ?thesis by simp
qed

end

subsection \<open>The storage wrapper keeps to the table\<close>

datatype call = CGet bytes | CIter bytes bytes rev rev | CCommit "batch_op list" | CDel bytes | CDelCurrent bytes bytes
  | CUse rev nat error

text \<open>A call through the wrapper; \<open>CUse limit n err\<close> is the use of an iterator that delivers \<open>n\<close> pairs and ends with \<open>err\<close>.\<close>

fun wrapper_call :: "'s kv_storage \<Rightarrow> error \<Rightarrow> call \<Rightarrow> 's storeWrapper \<Rightarrow> 's storeWrapper" where
  "wrapper_call kv canceled (CGet k) w = snd (wrapper_Get kv w k)"
| "wrapper_call kv canceled (CIter a b ts lim) w = snd (wrapper_Iter kv w a b ts lim)"
| "wrapper_call kv canceled (CCommit ops) w = snd (wrapper_Commit kv w ops)"
| "wrapper_call kv canceled (CDel k) w = snd (wrapper_Del kv w k)"
| "wrapper_call kv canceled (CDelCurrent k v) w = snd (wrapper_DelCurrent kv w k v)"
| "wrapper_call kv canceled (CUse lim n err) w = iter_use canceled n err (\<lparr>iw_counter = 0, iw_tags = [limitedTag lim]\<rparr>, w)"

definition ascii :: "string \<Rightarrow> bool" where
  "ascii s \<longleftrightarrow> list_all (\<lambda>c. of_char c < (128 :: nat)) s"

definition listed :: "metric \<Rightarrow> bool" where
  "listed m \<longleftrightarrow> (mName m, mKind m, map fst (mTags m)) \<in> set storageMetrics \<and> list_all (ascii \<circ> snd) (mTags m)
     \<and> (mKind m = CounterKind \<longrightarrow> (\<exists>i \<ge> 0. mValue m = Some i))"

lemma listed_tags:
  "fst (genStateTag err) = ''state''" "ascii (snd (genStateTag err))" "fst (limitedTag lim) = ''limited''" "ascii (snd (limitedTag lim))"
  by (auto simp: genStateTag_def limitedTag_def ascii_def split: option.split)

lemma listed_calls:
  "listed \<lparr>mKind = HistogramKind, mName = ''storage.op'', mValue = v, mTags = [genStateTag err, (''op'', op)]\<rparr> \<longleftrightarrow> ascii op"
  "listed \<lparr>mKind = CounterKind, mName = ''storage.iter.start'', mValue = Some 1, mTags = [(''state'', ''error'')]\<rparr>"
  "listed \<lparr>mKind = CounterKind, mName = ''storage.iter.start'', mValue = Some 1, mTags = [(''state'', ''success'')]\<rparr>"
  "listed \<lparr>mKind = CounterKind, mName = ''storage.iter.start.success'', mValue = Some 1, mTags = [limitedTag lim]\<rparr>"
  "listed \<lparr>mKind = HistogramKind, mName = ''storage.batch.count'', mValue = v, mTags = [(''op'', ''write_batch''), genStateTag err]\<rparr>"
  "listed \<lparr>mKind = HistogramKind, mName = ''storage.batch.duration'', mValue = v, mTags = [(''op'', ''write_batch''), genStateTag err]\<rparr>"
  "listed \<lparr>mKind = CounterKind, mName = ''storage.iter.fetch.error'', mValue = Some 1, mTags = [limitedTag lim]\<rparr>"
  "0 \<le> i \<Longrightarrow> listed \<lparr>mKind = CounterKind, mName = ''storage.iter.fetch.success'', mValue = Some i, mTags = [limitedTag lim]\<rparr>"
  "listed \<lparr>mKind = HistogramKind, mName = ''storage.iter.duration.avg'', mValue = v, mTags = [limitedTag lim]\<rparr>"
  "listed \<lparr>mKind = HistogramKind, mName = ''storage.iter.duration.sum'', mValue = v, mTags = [limitedTag lim]\<rparr>"
  by (simp_all add: listed_def storageMetrics_def listed_tags) (simp_all add: ascii_def)

lemma ascii_ops: "ascii ''get''" "ascii ''del''" "ascii ''cmp_and_del''"
  by (simp_all add: ascii_def)

lemma wrapper_call_listed: "list_all listed (emitted w) \<Longrightarrow> list_all listed (emitted (wrapper_call kv canceled c w))"
  by (cases c) (auto simp: wrapper_Get_def wrapper_Iter_def wrapper_Commit_def wrapper_Del_def wrapper_DelCurrent_def wrapper_time_def
      iter_use_def iter_Next_fetch iter_Next_def iter_Close_def emitMetric_def listed_calls ascii_ops Let_def split: prod.split sum.split)

lemma wrapper_calls_listed: "list_all listed (emitted w) \<Longrightarrow> list_all listed (emitted (fold (wrapper_call kv canceled) cs w))"
  by (induction cs arbitrary: w) (simp_all add: wrapper_call_listed)

text \<open>The metrics of the kubebrain protocol are in the table too.\<close>

lemma brain_metrics_listed:
  assumes "metricName = ''brain.server.write'' \<or> metricName = ''brain.server.read'' \<or> metricName = ''brain.server.watch''"
  shows "list_all (\<lambda>(k, n, val, labels). (n, k, map fst labels) \<in> set programMetrics)
    (emitMethodMetric metricName method err latency @ emitResponseDetailMetric metricName method success len)"
proof -
  have "list_all (\<lambda>(k, n, val, labels). (n, k, map fst labels) \<in> set (brainMetrics metricName))
      (emitMethodMetric metricName method err latency @ emitResponseDetailMetric metricName method success len)"
    by (simp add: emitMethodMetric_def emitResponseDetailMetric_def brainMetrics_def Let_def)
  moreover have "set (brainMetrics metricName) \<subseteq> set programMetrics"
    using assms unfolding programMetrics_def set_append by blast
  ultimately show ?thesis by (elim list.pred_mono_strong) (auto split: prod.split)
qed

lemma programSchema_in: "(n, k, ls) \<in> set programMetrics \<Longrightarrow> programSchema n = Some (k, ls)"
  using programMetrics_distinct by (auto simp: programSchema_def distinct_map inj_on_def intro!: map_of_is_SomeI)

lemma list_all2_back:
  assumes "list_all2 P xs ys" "y \<in> set ys"
  shows "\<exists>x \<in> set xs. P x y"
  using assms by (induction rule: list_all2_induct) auto

text \<open>A metric of the wrapper and the call that emits it: a value that was left out is a duration, any float.\<close>

fun carries :: "metric \<Rightarrow> 'f emission \<Rightarrow> bool" where
  "carries m (k, n, val, labels) \<longleftrightarrow> k = mKind m \<and> n = mName m \<and> labels = mTags m
     \<and> (case mValue m of Some i \<Rightarrow> val = IntVal i | None \<Rightarrow> \<exists>x. val = FloatVal x)"

context prom_spec
begin

lemma listed_keeps:
  assumes "listed m" "carries m e" "\<forall>s. ascii s \<longrightarrow> legalValue s" "\<forall>i \<ge> 0. nonneg (ofInteger fl i)"
  shows "keeps programSchema fl e"
proof -
  obtain k n val labels where e: "e = (k, n, val, labels)" by (cases e)
  have "programSchema n = Some (k, map fst labels)"
    using assms(1,2) by (intro programSchema_in) (auto simp: e listed_def programMetrics_def)
  moreover have "\<forall>x \<in> snd ` set labels. legalValue x" using assms(1-3) by (auto simp: e listed_def list_all_iff)
  ultimately show ?thesis using assms(1,2,4) by (auto simp: e keeps_def listed_def)
qed

end

section \<open>Property\<close>

text \<open>
  C33: measuring the storage never takes the process down. Whatever calls go through the metrics wrapper, on whatever engine, every
  metric it emits is accepted by the Prometheus client, in a registry that has none of the names of the program yet, and is
  recorded in order under its name and with its labels and the label of the cluster.
\<close>

theorem storage_metrics_never_panic:
  assumes "prom_spec pl registered recorded legalValue nonneg" "\<forall>s. ascii s \<longrightarrow> legalValue s" "\<forall>i \<ge> 0. nonneg (ofInteger fl i)"
    and "\<forall>n \<in> dom programSchema. registered r (formatName n) = None" "legalValue c"
    and "emitted w = []" "list_all2 carries (emitted (fold (wrapper_call kv canceled) cs w)) es"
  shows "\<exists>st. emitAll pl fl es (NewMetrics [(''cluster'', c)], r) = Some st \<and> recorded (snd st) = recorded r
    @ map (\<lambda>(k, n, val, labels). (formatName n, labelsToMap (NewMetrics [(''cluster'', c)]) labels, fst (convert2float64 fl val))) es"
proof -
  have "list_all listed (emitted (fold (wrapper_call kv canceled) cs w))" by (rule wrapper_calls_listed) (simp add: assms(6))
  moreover have "\<exists>m \<in> set (emitted (fold (wrapper_call kv canceled) cs w)). carries m e" if "e \<in> set es" for e
    by (rule list_all2_back[OF assms(7) that])
  ultimately have "prom_spec.keeps legalValue nonneg programSchema fl e" if "e \<in> set es" for e
    using prom_spec.listed_keeps[OF assms(1) _ _ assms(2,3)] that unfolding list_all_iff by blast
  then show ?thesis using prom_spec.program_emissions[OF assms(1,4,5)] by blast
qed

section \<open>An instance\<close>

text \<open>A registry that keeps its vectors and a log, with whole numbers for floats.\<close>

definition logprom :: "((string \<rightharpoonup> vec) \<times> (string \<times> (string \<rightharpoonup> string) \<times> int) list, int) promlib" where
  "logprom =
     \<lparr>pl_MustRegister = (\<lambda>v (reg, log).
        if reg (v_name v) = None \<and> validName (v_name v) \<and> distinct (v_labels v) \<and> list_all (validLabel (v_kind v)) (v_labels v)
        then Some (reg(v_name v \<mapsto> v), log) else None),
      pl_Emit = (\<lambda>v m x (reg, log).
        if dom m = set (v_labels v) \<and> (v_kind v = CounterKind \<longrightarrow> 0 \<le> x) then Some (reg, log @ [(v_name v, m, x)]) else None)\<rparr>"

interpretation logprom: prom_spec logprom fst snd ascii "\<lambda>x. 0 \<le> x"
  by unfold_locales (auto simp: logprom_def list_all_iff)

definition sample_floats :: "int floats" where
  "sample_floats = \<lparr>ofInteger = (\<lambda>i. i), ParseFloat = (\<lambda>s. None)\<rparr>"

theorem storage_metrics_never_panic_witness:
  "\<exists>st. emitAll logprom sample_floats [(HistogramKind, ''storage.op'', FloatVal 3, [(''state'', ''key_not_found''), (''op'', ''get'')])]
     (NewMetrics [(''cluster'', ''default'')], (Map.empty, [])) = Some st \<and> length (snd (snd st)) = 1"
proof -
  let ?es = "[(HistogramKind, ''storage.op'', FloatVal (3 :: int), [(''state'', ''key_not_found''), (''op'', ''get'')])]"
  let ?r = "(Map.empty, []) :: (string \<rightharpoonup> vec) \<times> (string \<times> (string \<rightharpoonup> string) \<times> int) list"
  let ?w = "\<lparr>KvStorage = \<lparr>sklist = [], timers = [], nanos = 0\<rparr>, emitted = []\<rparr>"
  have es: "list_all2 carries (emitted (fold (wrapper_call (memkv alist_skl) EOF) [CGet [1]] ?w)) ?es"
    by (simp add: wrapper_Get_def memkv_def store_Get_def alist_skl_def wrapper_time_def emitMetric_def errOf_def genStateTag_def)
  have fl: "\<forall>i \<ge> 0. 0 \<le> ofInteger sample_floats i" and c: "ascii ''default''" and w: "emitted ?w = []"
    by (simp_all add: sample_floats_def ascii_def)
  have as: "\<forall>s. ascii s \<longrightarrow> ascii s" and free: "\<forall>n \<in> dom programSchema. fst ?r (formatName n) = None" by simp_all
  from storage_metrics_never_panic[OF logprom.prom_spec_axioms as fl free c w es] obtain st where
    st: "emitAll logprom sample_floats ?es (NewMetrics [(''cluster'', ''default'')], ?r) = Some st"
      "snd (snd st) = snd ?r @ map (\<lambda>(k, n, val, labels). (formatName n, labelsToMap (NewMetrics [(''cluster'', ''default'')]) labels,
         fst (convert2float64 sample_floats val))) ?es"
    by (elim exE conjE) (rule that)
  have "length (snd (snd st)) = 1" unfolding st(2) by simp
  with st(1) show ?thesis by (intro exI conjI)
qed

end
