(* ===== verification/Application.thy ===== *)
theory Application
  imports Endpoint EtcdProxy Prometheus
begin

text \<open>
  \<^verbatim>\<open>pkg/server/server.go\<close>, \<^verbatim>\<open>pkg/server/config.go\<close>, the construction of the peer service (\<^verbatim>\<open>service/peer_service.go\<close>), the lease and
  cluster handlers of the etcd server, and the start and stop of the listeners in \<^verbatim>\<open>pkg/endpoint\<close>: how the program is put
  together, which HTTP paths its ports serve, what the gRPC health service reports, and how the servers of a port go down together.
\<close>

section \<open>Leases and membership\<close>

text \<open>
  A lease is not kept anywhere: its id is its time to live, which a write that names the lease passes to the engine. Everything
  else about leases, and every change of the membership, is refused.
\<close>

record LeaseGrantResponse =
  LeaseID :: int64
  LeaseTTL :: int64

definition LeaseGrant :: "int64 \<Rightarrow> error + LeaseGrantResponse" where
  "LeaseGrant ttl = Inr \<lparr>LeaseID = ttl, LeaseTTL = ttl\<rparr>"

definition LeaseRevoke :: "error + unit" where
  "LeaseRevoke = Inl (OtherErr ''lease revoke is not supported'')"

definition LeaseKeepAlive :: "error option" where
  "LeaseKeepAlive = Some (OtherErr ''lease keep alive is not supported'')"

definition LeaseTimeToLive :: "error + unit" where
  "LeaseTimeToLive = Inl (OtherErr ''lease time to live is not supported'')"

definition LeaseLeases :: "error + unit" where
  "LeaseLeases = Inl (OtherErr ''lease leases is not supported'')"

text \<open>The cluster id and the members that are listed.\<close>

definition etcd_MemberList :: "error + (nat \<times> string list)" where
  "etcd_MemberList = Inr (0, [])"

definition MemberAdd :: "error + unit" where
  "MemberAdd = Inl (OtherErr ''member Add is not supported'')"

definition MemberRemove :: "error + unit" where
  "MemberRemove = Inl (OtherErr ''member remove is not supported'')"

definition MemberUpdate :: "error + unit" where
  "MemberUpdate = Inl (OtherErr ''member update is not supported'')"

definition MemberPromote :: "error + unit" where
  "MemberPromote = Inl (OtherErr ''member promote is not supported'')"

section \<open>The application server\<close>

datatype servingStatus = SERVING | NOT_SERVING

datatype grpcService = LeaseServer | WatchServer | KVServer | ClusterServer | ReadServer | WriteServer | BrainWatchServer | HealthServer

record ('c, 'p) serverConfig =
  sv_ClientTLS :: "('c, 'p) tlsConfig option"
  sv_EnableEtcdProxy :: bool

record ('c, 'p) serviceConfig =
  ps_TLS :: "('c, 'p) tlsConfig option"
  ps_EnableEtcdProxy :: bool

text \<open>Without security settings \<^verbatim>\<open>init\<close> fails to load a key pair here and leaves nil, for a client without TLS.\<close>

definition getServerConfig :: "('c, 'p) files \<Rightarrow> ('c, 'p) EndpointConfig \<Rightarrow> ('c, 'p) serverConfig option" where
  "getServerConfig f c =
     (case getClientTLSConfig f (PeerSecurityConfig c) of
        None \<Rightarrow> None
      | Some (tls, _) \<Rightarrow> Some \<lparr>sv_ClientTLS = tls, sv_EnableEtcdProxy = ec_EnableEtcdCompatibility c\<rparr>)"

definition getPeerServiceConfig :: "('c, 'p) serverConfig \<Rightarrow> ('c, 'p) serviceConfig" where
  "getPeerServiceConfig c = \<lparr>ps_TLS = sv_ClientTLS c, ps_EnableEtcdProxy = sv_EnableEtcdProxy c\<rparr>"

text \<open>The peer service of a new instance, which does not lead; \<open>lock\<close> is what its resource lock describes.\<close>

definition NewPeerService :: "'s backend \<Rightarrow> string \<Rightarrow> ('c, 'p) serviceConfig \<Rightarrow> 's server" where
  "NewPeerService b lock c =
     \<lparr>srv_backend = b, srv_leader = False, srv_lock = lock, srv_sync = NewRevisionSyncer (ps_TLS c \<noteq> None), srv_proxy = ps_EnableEtcdProxy c\<rparr>"

text \<open>
  The server with the status its health service reports for the empty service name; \<open>st\<close> is what a new \<^verbatim>\<open>health.Server\<close> reports.
  \<^verbatim>\<open>NewServer\<close> starts the campaign for leadership in the background, before anything is registered.
\<close>

record 's application =
  app_peers :: "'s server"
  healthStatus :: servingStatus

definition NewServer :: "servingStatus \<Rightarrow> 's backend \<Rightarrow> string \<Rightarrow> ('c, 'p) serverConfig \<Rightarrow> 's application" where
  "NewServer st b lock c = \<lparr>app_peers = NewPeerService b lock (getPeerServiceConfig c), healthStatus = st\<rparr>"

text \<open>What is registered with a gRPC server, and the status it leaves.\<close>

definition register :: "grpcService list \<Rightarrow> 's application \<Rightarrow> grpcService list \<times> 's application" where
  "register svr a =
     (svr @ [LeaseServer, WatchServer, KVServer, ClusterServer, ReadServer, WriteServer, BrainWatchServer, HealthServer], a\<lparr>healthStatus := NOT_SERVING\<rparr>)"

definition RegisterClient :: "grpcService list \<Rightarrow> 's application \<Rightarrow> grpcService list \<times> 's application" where
  "RegisterClient svr a = register svr a"

definition RegisterPeer :: "grpcService list \<Rightarrow> 's application \<Rightarrow> grpcService list \<times> 's application" where
  "RegisterPeer svr a = register svr a"

text \<open>The callbacks of the campaign with those of \<^verbatim>\<open>NewServer\<close>; after \<open>stopLeading\<close> the process exits.\<close>

definition startLeading :: "'s application \<Rightarrow> 's application option" where
  "startLeading a =
     (case onStartedLeading (srv_lock (app_peers a)) (srv_backend (app_peers a)) of
        None \<Rightarrow> None
      | Some (b, l) \<Rightarrow> Some (a\<lparr>app_peers := (app_peers a)\<lparr>srv_backend := b, srv_leader := l\<rparr>, healthStatus := SERVING\<rparr>))"

definition stopLeading :: "'s application \<Rightarrow> 's application" where
  "stopLeading a = a\<lparr>app_peers := (app_peers a)\<lparr>srv_leader := False\<rparr>, healthStatus := SERVING\<rparr>"

text \<open>
  A leader whose campaign succeeds before its ports are registered is reported as not serving from then on: registering
  sets the status back, and nothing sets it again. Losing the leadership is reported as serving.
\<close>

lemma leader_reported_not_serving:
  assumes "startLeading a = Some a1" "RegisterClient svr a1 = (svr', a2)" "RegisterPeer svr'' a2 = (svr''', a3)"
  shows "srv_leader (app_peers a3) \<and> healthStatus a3 = NOT_SERVING"
  using assms by (auto simp: startLeading_def onStartedLeading_def RegisterClient_def RegisterPeer_def register_def split: option.splits sum.splits)

lemma lost_leader_reported_serving: "\<not> srv_leader (app_peers (stopLeading a)) \<and> healthStatus (stopLeading a) = SERVING"
  by (simp add: stopLeading_def)

section \<open>What the ports serve\<close>

datatype handler = MetricsHandler | PProfHandler string | HealthHandler | StatusHandler | ElectionHandler

definition GetHttpHandlers :: "(string \<times> handler) list" where
  "GetHttpHandlers = [(''/metrics'', MetricsHandler)]"

definition GetClientHttpHandlers :: "(string \<times> handler) list" where
  "GetClientHttpHandlers = [(''/health'', HealthHandler)]"

definition GetPeerHttpHandlers :: "(string \<times> handler) list" where
  "GetPeerHttpHandlers = [(''/status'', StatusHandler)]"

definition GetInfoHttpHandlers :: "(string \<times> handler) list" where
  "GetInfoHttpHandlers = [(''/health'', HealthHandler), (''/status'', StatusHandler), (''/election'', ElectionHandler)]"

definition pprofHandlers :: "(string \<times> handler) list" where
  "pprofHandlers = map (\<lambda>p. (p, PProfHandler p)) getPProfHandlers"

definition buildClientHttpServer :: "handler exposedServer option" where
  "buildClientHttpServer = newHttpServerWithHandlers [GetHttpHandlers, pprofHandlers, GetClientHttpHandlers]"

definition buildPeerHttpServer :: "handler exposedServer option" where
  "buildPeerHttpServer = newHttpServerWithHandlers [GetPeerHttpHandlers]"

definition buildMetricsHttpServer :: "handler exposedServer option" where
  "buildMetricsHttpServer = newHttpServerWithHandlers [GetHttpHandlers, pprofHandlers, GetInfoHttpHandlers]"

text \<open>The ports \<^verbatim>\<open>Run\<close> listens on, each with its servers. \<open>None\<close> is a panic.\<close>

definition runClientServer :: "('c, 'p) EndpointConfig \<Rightarrow> (int \<times> handler exposedServer list) option" where
  "runClientServer c = map_option (\<lambda>http. (Port c, buildExposedServers (ClientSecurityConfig c) [http, GrpcServer])) buildClientHttpServer"

definition runPeerServer :: "('c, 'p) EndpointConfig \<Rightarrow> (int \<times> handler exposedServer list) option" where
  "runPeerServer c = map_option (\<lambda>http. (PeerPort c, buildExposedServers (PeerSecurityConfig c) [http, GrpcServer])) buildPeerHttpServer"

definition runMetricsServer :: "('c, 'p) EndpointConfig \<Rightarrow> (int \<times> handler exposedServer list) option" where
  "runMetricsServer c = map_option (\<lambda>http. (InfoPort c, [http])) buildMetricsHttpServer"

definition endpoint_Run ::
    "('c, 'p) files \<Rightarrow> servingStatus \<Rightarrow> 's backend \<Rightarrow> string \<Rightarrow> ('c, 'p) EndpointConfig \<Rightarrow> ('s application \<times> (int \<times> handler exposedServer list) list) option" where
  "endpoint_Run f st b lock c =
     (case getServerConfig f c of
        None \<Rightarrow> None
      | Some sc \<Rightarrow>
          (case (runClientServer c, runPeerServer c, if InfoPort c \<noteq> 0 then map_option (\<lambda>p. [p]) (runMetricsServer c) else Some []) of
             (Some cl, Some peer, Some info) \<Rightarrow> Some (NewServer st b lock sc, [cl, peer] @ info)
           | _ \<Rightarrow> None))"

lemma http_servers:
  "buildClientHttpServer = Some (HttpServer (GetHttpHandlers @ pprofHandlers @ GetClientHttpHandlers))"
  "buildPeerHttpServer = Some (HttpServer GetPeerHttpHandlers)"
  "buildMetricsHttpServer = Some (HttpServer (GetHttpHandlers @ pprofHandlers @ GetInfoHttpHandlers))"
  by (simp_all add: buildClientHttpServer_def buildPeerHttpServer_def buildMetricsHttpServer_def newHttpServerWithHandlers_def
      GetHttpHandlers_def pprofHandlers_def getPProfHandlers_def GetClientHttpHandlers_def GetPeerHttpHandlers_def GetInfoHttpHandlers_def)

text \<open>
  With a validated configuration that has peer settings the program starts: no path is handled twice, the ports differ, and the
  peer port answers the path a follower asks the leader on, for exactly the connections the settings admit.
\<close>

lemma endpoint_starts:
  assumes "Validate f (Some c) = (None, Some c')" "fresh_config (ClientSecurityConfig c)" "fresh_config (PeerSecurityConfig c)"
    and "PeerSecurityConfig c \<noteq> None"
  shows "\<exists>a ports. endpoint_Run f st b lock c' = Some (a, ports) \<and> distinct (map fst ports)
    \<and> map_of ports (PeerPort c) = Some (buildExposedServers (PeerSecurityConfig c') [HttpServer GetPeerHttpHandlers, GrpcServer])
    \<and> (admits f verify (PeerSecurityConfig c) (Plain False) \<longrightarrow>
         rootServe f verify (PeerSecurityConfig c') [HttpServer GetPeerHttpHandlers, GrpcServer] (Plain False) = Some (HttpServer GetPeerHttpHandlers)
         \<and> map_of GetPeerHttpHandlers ''/status'' = Some StatusHandler)"
proof -
  obtain sc psc where v: "validate f (ClientSecurityConfig c) = (None, sc)" "validate f (PeerSecurityConfig c) = (None, psc)"
      "c' = c\<lparr>ClientSecurityConfig := sc, PeerSecurityConfig := psc\<rparr>"
    and ports: "Port c \<noteq> PeerPort c" "InfoPort c \<noteq> 0 \<longrightarrow> InfoPort c \<noteq> Port c \<and> InfoPort c \<noteq> PeerPort c"
    using assms(1) by (auto simp: Validate_def split: if_splits prod.splits option.splits)
  obtain pc where pc: "PeerSecurityConfig c = Some pc" using assms(4) by auto
  have "\<exists>tls s. getClientTLSConfig f psc = Some (tls, s)"
    using v(2) unfolding pc by (auto simp: validate_def init_def getClientTLSConfig_def Let_def split: if_splits option.splits)
  then obtain tls s where "getClientTLSConfig f psc = Some (tls, s)" by blast
  then have "endpoint_Run f st b lock c' = Some (NewServer st b lock \<lparr>sv_ClientTLS = tls, sv_EnableEtcdProxy = ec_EnableEtcdCompatibility c\<rparr>,
      [(Port c, buildExposedServers sc [HttpServer (GetHttpHandlers @ pprofHandlers @ GetClientHttpHandlers), GrpcServer]),
       (PeerPort c, buildExposedServers psc [HttpServer GetPeerHttpHandlers, GrpcServer])]
      @ (if InfoPort c \<noteq> 0 then [(InfoPort c, [HttpServer (GetHttpHandlers @ pprofHandlers @ GetInfoHttpHandlers)])] else []))"
    by (simp add: endpoint_Run_def getServerConfig_def runClientServer_def runPeerServer_def runMetricsServer_def http_servers v(3))
  then show ?thesis
    using ports rootServe_admits[OF v(2) assms(3), of verify GetPeerHttpHandlers "Plain False"] v(3) by (auto simp: GetPeerHttpHandlers_def)
qed

section \<open>Going down together\<close>

text \<open>
  The runner of one server: \<open>ServeEnds e\<close>, its \<^verbatim>\<open>serve\<close> returned \<open>e\<close> while nothing was cancelled; \<open>CtxDone e\<close>, the context was cancelled
  first, and \<^verbatim>\<open>serve\<close> returns \<open>e\<close> after the runner has closed the server. The result variable of the runner is the one the serving
  goroutine assigns: in the second case the result of \<^verbatim>\<open>waitFor\<close> is overwritten before the runner returns, because it waits for that
  goroutine.
\<close>

datatype served = ServeEnds "error option" | CtxDone "error option"

fun waitFor :: "served \<Rightarrow> error option" where
  "waitFor (CtxDone e) = None"
| "waitFor (ServeEnds e) = e"

fun runSubServer :: "served \<Rightarrow> error option" where
  "runSubServer (ServeEnds e) = (let err = waitFor (ServeEnds e) in err)"
| "runSubServer (CtxDone e) = (let err = waitFor (CtxDone e); err = e in err)"

text \<open>
  The group of \<^verbatim>\<open>runServers\<close>: the servers still running and those that returned, whether the shared context is cancelled, and the
  first error. \<open>closeErr i\<close> is what \<^verbatim>\<open>serve\<close> of the \<open>i\<close>-th server returns once it is closed. A runner that returns cancels the others.
\<close>

datatype runner = Running | Returned "error option"

record serverGroup =
  runners :: "runner list"
  canceled :: bool
  firstError :: "error option"

definition groupReturn :: "nat \<Rightarrow> error option \<Rightarrow> serverGroup \<Rightarrow> serverGroup" where
  "groupReturn i e g = g\<lparr>runners := (runners g)[i := Returned e], canceled := True,
     firstError := (case firstError g of None \<Rightarrow> e | Some x \<Rightarrow> Some x)\<rparr>"

inductive runServers :: "(nat \<Rightarrow> error option) \<Rightarrow> serverGroup \<Rightarrow> serverGroup \<Rightarrow> bool" for closeErr where
  ends: "i < length (runners g) \<Longrightarrow> runners g ! i = Running \<Longrightarrow> \<not> canceled g \<Longrightarrow>
    runServers closeErr g (groupReturn i (runSubServer (ServeEnds e)) g)"
| stops: "i < length (runners g) \<Longrightarrow> runners g ! i = Running \<Longrightarrow> canceled g \<Longrightarrow>
    runServers closeErr g (groupReturn i (runSubServer (CtxDone (closeErr i))) g)"
| cancels: "\<not> canceled g \<Longrightarrow> runServers closeErr g (g\<lparr>canceled := True\<rparr>)"

definition startGroup :: "nat \<Rightarrow> serverGroup" where
  "startGroup n = \<lparr>runners = replicate n Running, canceled = False, firstError = None\<rparr>"

definition running :: "serverGroup \<Rightarrow> nat" where
  "running g = length (filter (\<lambda>r. r = Running) (runners g))"

lemma running_update:
  "i < length xs \<Longrightarrow> xs ! i = Running \<Longrightarrow>
   Suc (length (filter (\<lambda>r. r = Running) (xs[i := Returned e]))) = length (filter (\<lambda>r. r = Running) xs)"
  by (induction xs arbitrary: i) (auto simp: nth_Cons split: nat.splits)

lemma running_groupReturn:
  "i < length (runners g) \<Longrightarrow> runners g ! i = Running \<Longrightarrow> Suc (running (groupReturn i e g)) = running g"
  using running_update by (simp add: running_def groupReturn_def)

text \<open>Every step takes a server down or cancels, so a group takes at most one step more than it has servers.\<close>

lemma group_measure:
  assumes "runServers closeErr g g'"
  shows "running g' + of_bool (\<not> canceled g') < running g + of_bool (\<not> canceled g)"
  using assms
proof cases
  case (ends i e)
  then show ?thesis using running_groupReturn[OF ends(2,3), of "runSubServer (ServeEnds e)"] by (simp add: groupReturn_def running_def)
next
  case (stops i)
  then show ?thesis using running_groupReturn[OF stops(2,3), of "runSubServer (CtxDone (closeErr i))"] by (simp add: groupReturn_def running_def)
next
  case cancels
  then show ?thesis by (simp add: running_def)
qed

text \<open>A group that is cancelled, or that has lost a server, is stuck only when all servers have returned.\<close>

definition groupInv :: "serverGroup \<Rightarrow> bool" where
  "groupInv g \<longleftrightarrow> (\<forall>e. Returned e \<in> set (runners g) \<longrightarrow> canceled g \<and> (e \<noteq> None \<longrightarrow> firstError g \<noteq> None))"

lemma groupReturn_inv: "groupInv g \<Longrightarrow> groupInv (groupReturn i e g)"
  using set_update_subset_insert[of "runners g" i "Returned e"]
  by (cases "firstError g") (fastforce simp: groupInv_def groupReturn_def)+

lemma runServers_inv: "runServers closeErr g g' \<Longrightarrow> groupInv g \<Longrightarrow> groupInv g'"
  by (induction rule: runServers.induct) (auto simp: groupReturn_inv, simp add: groupInv_def)

lemma reachable_inv: "(runServers closeErr)\<^sup>*\<^sup>* (startGroup n) g \<Longrightarrow> groupInv g"
  by (induction rule: rtranclp_induct) (auto simp: runServers_inv, simp add: groupInv_def startGroup_def)

lemma stuck_all_returned:
  assumes "canceled g" "\<nexists>g'. runServers closeErr g g'"
  shows "running g = 0"
proof (rule ccontr)
  assume "running g \<noteq> 0"
  then obtain i where "i < length (runners g)" "runners g ! i = Running"
    by (auto simp: running_def filter_empty_conv in_set_conv_nth)
  then show False using assms stops[of i g closeErr] by blast
qed

text \<open>
  From the moment the context is cancelled or one server of the group has returned, the group goes down: it takes at most as many
  steps as there are servers running, and when it cannot take another, all have returned and \<^verbatim>\<open>group.Wait\<close> does too.
\<close>

lemma canceled_steps: "(runServers closeErr ^^ k) g g' \<Longrightarrow> canceled g \<Longrightarrow> canceled g' \<and> k + running g' \<le> running g"
proof (induction k arbitrary: g')
  case (Suc k)
  then obtain h where h: "(runServers closeErr ^^ k) g h" "runServers closeErr h g'" by auto
  then have ih: "canceled h" "k + running h \<le> running g" using Suc by auto
  have "canceled g'" using h(2) ih(1) by cases (auto simp: groupReturn_def)
  then show ?case using group_measure[OF h(2)] ih by simp
qed simp

lemma servers_go_down_together:
  assumes "(runServers closeErr)\<^sup>*\<^sup>* (startGroup n) g" "canceled g \<or> (\<exists>e. Returned e \<in> set (runners g))"
    and "(runServers closeErr ^^ k) g g'"
  shows "k \<le> running g \<and> ((\<nexists>g''. runServers closeErr g' g'') \<longrightarrow> running g' = 0)"
proof -
  have "canceled g" using reachable_inv[OF assms(1)] assms(2) by (auto simp: groupInv_def)
  then show ?thesis using canceled_steps[OF assms(3)] stuck_all_returned[of g' closeErr] by auto
qed

text \<open>
  A shutdown that was asked for ends with an error all the same: an HTTP server that is closed makes its \<^verbatim>\<open>serve\<close> return one, and the
  runner reports that instead of the nil of \<^verbatim>\<open>waitFor\<close>.
\<close>

lemma graceful_shutdown_fails:
  assumes "closeErr 0 = Some err"
  shows "\<exists>g. (runServers closeErr)\<^sup>*\<^sup>* (startGroup 1) g \<and> running g = 0 \<and> firstError g = Some err"
    and "waitFor (CtxDone (closeErr 0)) = None"
proof -
  let ?g = "startGroup 1\<lparr>canceled := True\<rparr>"
  have "runServers closeErr (startGroup 1) ?g" by (rule cancels) (simp add: startGroup_def)
  moreover have "runServers closeErr ?g (groupReturn 0 (runSubServer (CtxDone (closeErr 0))) ?g)"
    by (rule stops) (simp_all add: startGroup_def)
  ultimately have "(runServers closeErr)\<^sup>*\<^sup>* (startGroup 1) (groupReturn 0 (runSubServer (CtxDone (closeErr 0))) ?g)" by auto
  moreover have "running (groupReturn 0 (runSubServer (CtxDone (closeErr 0))) ?g) = 0
      \<and> firstError (groupReturn 0 (runSubServer (CtxDone (closeErr 0))) ?g) = Some err"
    by (simp add: groupReturn_def startGroup_def running_def assms)
  ultimately show "\<exists>g. (runServers closeErr)\<^sup>*\<^sup>* (startGroup 1) g \<and> running g = 0 \<and> firstError g = Some err" by blast
qed simp

end
