(* ===== verification/Spec2Isabelle.thy ===== *)
theory Spec2Isabelle
  imports MemKV Ring Mvcc Tso RetryQueue Range Backend Creator Txn Sequencer Receiver Scanner ScanSpec Listing Compaction
    Compact WatcherHub Watch Retry Election Peers Brain EtcdKv EtcdWatch EtcdProxy StorageMetrics Interleaving Consistency
    Badger TiKV Engines Endpoint Host Options Prometheus Application
begin

text \<open>
  A verification library for kubebrain, a server that offers the etcd interface Kubernetes needs on top of a transactional
  key-value engine. The sources are the Go packages below \<^verbatim>\<open>src/\<close>; paths are relative to it.

  \<^bold>\<open>The program.\<close> A write (\<^verbatim>\<open>pkg/backend/txn.go\<close>, \<^verbatim>\<open>creator\<close>) is dealt a revision (\<^verbatim>\<open>tso\<close>), commits one guarded batch of the
  engine (\<^verbatim>\<open>pkg/storage\<close>) that writes the revision key of the user key and a new version (\<^verbatim>\<open>coder\<close>), and notifies the collector
  (\<^verbatim>\<open>backend.go\<close>). The collector takes the notifications in the order of the revisions, advances the committed revision, keeps the events in
  a ring buffer (\<^verbatim>\<open>ring.go\<close>), hands them to the watchers (\<^verbatim>\<open>watcherhub.go\<close>, \<^verbatim>\<open>watch.go\<close>) and queues writes with an uncertain result for
  the retry loop (\<^verbatim>\<open>retry\<close>). Reads look up versions (\<^verbatim>\<open>range.go\<close>) or scan partitions (\<^verbatim>\<open>scanner\<close>); compaction (\<^verbatim>\<open>compact.go\<close>) deletes versions no
  read needs. One instance leads: it holds a lock in the store (\<^verbatim>\<open>election\<close>, \<^verbatim>\<open>pkg/server/service/leader\<close>); followers ask it for its revision
  before they read (\<^verbatim>\<open>service/revision\<close>) and forward writes (\<^verbatim>\<open>service/etcdproxy\<close>). Two protocols are served: that of kubebrain
  (\<^verbatim>\<open>pkg/server/brain\<close>) and that of etcd (\<^verbatim>\<open>pkg/server/etcd\<close>).

  \<^bold>\<open>How the code is represented.\<close> A byte slice is a list of 8-bit words, a revision a 64-bit word, so that arithmetic wraps as in the code.
  A Go error is a value of \<open>error\<close>, returned in a sum or an option; a panic is \<open>None\<close>. State is passed explicitly: the engine is the
  record \<open>kv_storage\<close> of its operations on a state of any type, the backend the record \<open>backend\<close>. A goroutine is the set of its
  atomic steps in a step relation. What is not in the sources is a parameter: the skip list, the Badger database, the TiKV client, the
  Prometheus registry, HTTP and etcd clients, JSON coding, certificate files; what is relied on is a locale or a premise.
  Logging is left out, and so are metrics, except in \<open>StorageMetrics\<close> and \<open>Prometheus\<close>, which are about them.

  \<^bold>\<open>The theories.\<close>
  \<^item> \<open>KB_Prelude\<close>: bytes, words, errors, and the lemmas the components share. \<open>Proto\<close>: the messages.
  \<^item> \<open>Coder\<close> (\<^verbatim>\<open>backend/coder\<close>, \<^verbatim>\<open>PrefixEnd\<close> of \<^verbatim>\<open>util.go\<close>): internal keys, their order and decoding.
  \<^item> \<open>Storage\<close> (\<^verbatim>\<open>storage/interface.go\<close>, \<^verbatim>\<open>errors.go\<close>): the engine interface; its contract is the locale \<open>kv_engine\<close>, extended by
    \<open>kv_engine_reliable\<close> (never unavailable), \<open>kv_engine_bordered\<close> (partitions at decodable borders) and \<open>kv_engine_clean\<close> (what
    compaction needs). \<open>MemKV\<close> (\<^verbatim>\<open>storage/memkv\<close>) proves all of them for the memory engine over any skip list meeting
    \<open>skiplist_spec\<close>; \<open>StorageMetrics\<close> (\<^verbatim>\<open>storage/metrics\<close>) shows that the wrapper keeps them.
  \<^item> \<open>Badger\<close>, \<open>TiKV\<close>, \<open>Engines\<close> (\<^verbatim>\<open>storage/badger\<close>, \<^verbatim>\<open>storage/tikv\<close>): the adapters to the two databases, which keep the contract under
    \<open>badger_spec\<close> and \<open>txnkv_listed\<close>, what their libraries promise about transactions; Badger also keeps \<open>kv_engine_clean\<close>, TiKV
    \<open>kv_engine_bordered\<close> if regions end at decodable borders. A delete of TiKV can be refused for a write conflict, so
    \<open>kv_engine_clean\<close>, and with it the property of \<^verbatim>\<open>Compact\<close>, is not claimed for it.
  \<^item> \<open>Tso\<close>, \<open>Ring\<close>, \<open>RetryQueue\<close> (\<^verbatim>\<open>tso\<close>, \<^verbatim>\<open>ring.go\<close>, \<^verbatim>\<open>retry/queue.go\<close>): the allocator, the event cache as a list of the last events, the
    linked queue as a FIFO (locale \<open>fifo\<close>).
  \<^item> \<open>Mvcc\<close>: the abstract specification, what the store means: the versions of a key, what is visible at a revision, the
    invariant tying revision keys to versions. \<open>Range\<close>, \<open>Creator\<close>, \<open>Backend\<close>, \<open>Txn\<close> (\<^verbatim>\<open>range.go\<close>, \<^verbatim>\<open>creator/naive.go\<close>, \<^verbatim>\<open>backend.go\<close>,
    \<^verbatim>\<open>txn.go\<close>): point reads and the writes, which refine it.
  \<^item> \<open>Sequencer\<close>: writers, collector and retry as a step relation; the events delivered are exactly the valid ones, in order, once, and
    the collector catches up. \<open>Interleaving\<close>, \<open>Consistency\<close>: creates, updates and deletes cut at every call of the engine,
    interleaved with each other, reads and the collector; committed reads never change, writes are serializable in the order of their
    revisions, and a list followed by a watch misses nothing. A thread that runs without interruption is the sequential function of \<open>Txn\<close>.
  \<^item> \<open>Receiver\<close>, \<open>Scanner\<close>, \<open>ScanSpec\<close>, \<open>Listing\<close> (\<^verbatim>\<open>scanner\<close>, \<^verbatim>\<open>range.go\<close>): scans with partitions, workers and retries; they return exactly what is
    visible. \<open>Compaction\<close>, \<open>Compact\<close> (\<^verbatim>\<open>scanner\<close>, \<^verbatim>\<open>compact.go\<close>): compaction changes no read at or above its revision.
  \<^item> \<open>WatcherHub\<close>, \<open>Watch\<close> (\<^verbatim>\<open>watcherhub.go\<close>, \<^verbatim>\<open>watch.go\<close>): watchers get every batch; a watch joins cache and stream. \<open>Retry\<close>
    (\<^verbatim>\<open>retry/retry.go\<close>): uncertain writes are settled.
  \<^item> \<open>Election\<close>, \<open>Peers\<close> (\<^verbatim>\<open>election\<close>, \<^verbatim>\<open>service/leader\<close>, \<^verbatim>\<open>service/revision\<close>, handlers of \<^verbatim>\<open>server.go\<close>), \<open>EtcdProxy\<close>
    (\<^verbatim>\<open>service/etcdproxy\<close>): one winner of a race for the lock, revisions above the store, reads at the revision of the leader.
  \<^item> \<open>Brain\<close>, \<open>EtcdKv\<close>, \<open>EtcdWatch\<close> (\<^verbatim>\<open>server/brain\<close>, \<^verbatim>\<open>server/etcd\<close>): the handlers of the two protocols end to end.
  \<^item> \<open>Endpoint\<close> (\<^verbatim>\<open>endpoint\<close>): security settings and the servers of a port; who gets in. \<open>Host\<close> (\<^verbatim>\<open>util/net.go\<close>, \<^verbatim>\<open>env.go\<close>): the host name
    is pinned. \<open>Options\<close> (\<^verbatim>\<open>cmd/option\<close>): defaults and validation, and which keys the prefixes make a compaction go over.
  \<^item> \<open>Prometheus\<close> (\<^verbatim>\<open>metrics/prometheus\<close>): the metrics client; under \<open>prom_spec\<close> no metric the program emits by its table, and in
    particular none of the storage wrapper, panics. \<open>Application\<close> (\<^verbatim>\<open>server/server.go\<close>, \<^verbatim>\<open>config.go\<close>, \<^verbatim>\<open>etcd/lease.go\<close>, \<^verbatim>\<open>cluster.go\<close>,
    \<^verbatim>\<open>endpoint/endpoint.go\<close>, \<^verbatim>\<open>server.go\<close>): construction, registration and health status, the paths of the ports, and the servers of a
    port as a step relation, which go down together.
  \<^item> This theory: properties of the layout of the store and of the memory engine.

  \<^bold>\<open>Bounds and fuel.\<close> The loop of a retry tick has fuel: one round more than there are queued writes is enough (\<open>Retry\<close>). The walk of
  a memory iterator has the number of elements as fuel, and each round moves to a later one (\<open>MemKV\<close>). Scans retry as often as the
  code does (\<open>scanBackoffSteps\<close>). Other loops recurse on their data. Properties about dealing suppose that the 64-bit revision does
  not overflow; keys are supposed to have only bytes above the split byte, as the comment in \<^verbatim>\<open>coder/normal.go\<close> asks.

  \<^bold>\<open>Not modelled.\<close> Listeners, the TLS handshake, protocol detection and the gRPC transport, which are of libraries: a connection is
  what it starts with (\<open>Endpoint\<close>). Binding of flags, process start and signals, version output. The gRPC interceptors for metrics and
  \<^verbatim>\<open>emitMetrics\<close>, which nothing calls; the mocks and test helpers. The election loop of client-go, of which the callbacks are modelled.
  Opening and closing of databases and clients. Expiry of entries with a TTL, deadlines and cancellation appear as errors of the engine or as
  choices of the environment, not as time. A batch of Badger or TiKV is one step: conflicts with concurrent transactions are errors of its commit.
  \<open>Interleaving\<close> has no compaction and no retry steps; these are the subject of \<open>Compact\<close> and \<open>Retry\<close>.
\<close>

section \<open>The layout of the store\<close>

text \<open>
  C35: the internal keys lose nothing. Decoding succeeds on exactly the encoded keys and gives back user key and revision;
  the value of a revision key is parsed back to revision and deletion flag. Decoding panics on exactly the strings
  shorter than the magic number, or shorter than nine bytes behind the right one.
\<close>

theorem internal_key_roundtrip:
  "(Decode ik = Some (Inr (k, r)) \<longleftrightarrow> ik = EncodeObjectKey k r)
   \<and> (Decode ik = None \<longleftrightarrow> length ik < 4 \<or> (length ik < 9 \<and> take 4 ik = magicBytes))
   \<and> ParseRevision (uint64ToBytes r) = Inr (r, False) \<and> ParseRevision (uint64ToBytes r @ [flag]) = Inr (r, True)"
  using Decode_SomeInr[of ik k r] Decode_panics_iff[of ik] by auto

lemma wf_key_append: "wf_key (a @ b) \<longleftrightarrow> wf_key a \<and> wf_key b"
  by (auto simp: wf_key_def)

lemma wf_key_PrefixEnd:
  assumes "wf_key p" "\<exists>b \<in> set p. b \<noteq> 0xff"
  shows "wf_key (PrefixEnd p)"
proof -
  obtain a b n where p: "p = a @ b # replicate n 0xff" and b: "b \<noteq> 0xff"
    using not_all_ff_split[OF assms(2)] .
  have "splitByte < b" "wf_key a" using assms(1) by (auto simp: p wf_key_def)
  moreover have "b < b + 1" using byte_less_succ[OF b, of b] by simp
  ultimately have "splitByte < b + 1" by (meson order_less_trans)
  then show ?thesis using \<open>wf_key a\<close> PrefixEnd_eq[OF b] p by (simp add: wf_key_append) (simp add: wf_key_def)
qed

text \<open>
  C36: the range of internal keys scanned for a prefix is exact. For a prefix of which some byte is not \<^verbatim>\<open>0xff\<close>, the
  internal keys from the revision key of the prefix up to that of \<^verbatim>\<open>PrefixEnd\<close> are exactly the revision keys and versions
  of the user keys with that prefix, provided that no byte of the keys is at or below the split byte.
\<close>

theorem prefix_scan_exact:
  assumes "wf_key p" "wf_key k" "\<exists>b \<in> set p. b \<noteq> 0xff"
  shows "EncodeRevisionKey p \<le> EncodeObjectKey k r \<and> EncodeObjectKey k r < EncodeRevisionKey (PrefixEnd p) \<longleftrightarrow> prefix p k"
  using EncodeObjectKey_le_iff[OF assms(1,2), of 0 r] EncodeObjectKey_less_iff[OF assms(2) wf_key_PrefixEnd[OF assms(1,3)], of r 0]
    PrefixEnd_range[OF assms(3), of k]
  by (auto simp: EncodeRevisionKey_def)

theorem prefix_scan_exact_witness:
  "EncodeRevisionKey [0x61, 0xff] \<le> EncodeObjectKey [0x61, 0xff, 0x30] 7
   \<and> EncodeObjectKey [0x61, 0xff, 0x30] 7 < EncodeRevisionKey (PrefixEnd [0x61, 0xff])"
  using prefix_scan_exact[of "[0x61, 0xff]" "[0x61, 0xff, 0x30]" 7] by (simp add: wf_key_def splitByte_def)

text \<open>
  C37: batches of the memory engine are all or nothing, over any skip list that is an ordered map. The operations, collected in
  the cache of the batch and written at commit, have together exactly the effect of applying them one after the other to the
  stored map; if a comparison fails on the way, nothing is written and the error is a failed comparison, which is certain.
\<close>

theorem memkv_commit_atomic:
  assumes "skiplist_spec skl cont"
  shows "case apply_batch ops (cont (sklist s)) of
      None \<Rightarrow> \<exists>err. mem_Commit skl s ops = (Some err, s) \<and> errors_is err ErrCASFailed \<and> \<not> errors_is err ErrUncertainResult
    | Some m' \<Rightarrow> \<exists>s'. mem_Commit skl s ops = (None, s') \<and> cont (sklist s') = m'"
  by (rule skiplist_spec.mem_Commit_cases[OF assms])

theorem memkv_commit_atomic_witness:
  "\<exists>s'. mem_Commit alist_skl \<lparr>sklist = [([1], [5])], timers = [], nanos = 0\<rparr>
      [CAS [1] [6] [5] 0, Del [1], PutIfNotExist [1] [7] 0] = (None, s') \<and> map_of (sklist s') = [[1] \<mapsto> [7]]"
  using memkv_commit_atomic[OF alist.skiplist_spec_axioms,
      where ops = "[CAS [1] [6] [5] 0, Del [1], PutIfNotExist [1] [7] 0]" and s = "\<lparr>sklist = [([1], [5])], timers = [], nanos = 0\<rparr>"]
  by (simp add: fun_eq_iff)

end
